(* ===== verification/Rove_Prelude.thy ===== *)
theory Rove_Prelude
  imports Main "HOL-Library.Word" "HOL-Library.Code_Target_Numeral" "HOL-Library.Monad_Syntax"
begin

text \<open>
  Shared vocabulary of the development: machine integers and byte strings, the little- and
  big-endian encodings of Rust's \<open>to_le_bytes\<close> / \<open>from_be_bytes\<close> family, results as sums with
  Rust's early return on an error, and the codec interface that several wire formats implement.
\<close>

unbundle bit_operations_syntax

named_theorems codec_simps \<open>length and shape facts of the wire encoders\<close>

type_synonym u8 = "8 word"
type_synonym u16 = "16 word"
type_synonym u32 = "32 word"
type_synonym u64 = "64 word"
type_synonym u128 = "128 word"
type_synonym bytes = "u8 list"

section \<open>Results\<close>

text \<open>The question mark operator and the \<open>ensure\<close> macro.\<close>

fun and_then :: "'e + 'a \<Rightarrow> ('a \<Rightarrow> 'e + 'b) \<Rightarrow> 'e + 'b" where
  "and_then (Inl e) f = Inl e"
| "and_then (Inr x) f = f x"

definition ensure :: "bool \<Rightarrow> 'e \<Rightarrow> 'e + unit" where
  "ensure c e = (if c then Inr () else Inl e)"

definition ok_or :: "'a option \<Rightarrow> 'e \<Rightarrow> 'e + 'a" where
  "ok_or v e = (case v of Some x \<Rightarrow> Inr x | None \<Rightarrow> Inl e)"

lemma ok_or_simps [simp]: "ok_or (Some x) e = Inr x" "ok_or None e = Inl e"
  by (simp_all add: ok_or_def)

lemma ok_or_Inr: "ok_or v e = Inr x \<longleftrightarrow> v = Some x"
  by (simp add: ok_or_def split: option.splits)

text \<open>The same for an operation that returns its result and the state it leaves.\<close>

definition and_try :: "('e + 'a) \<times> 's \<Rightarrow> ('a \<Rightarrow> 's \<Rightarrow> ('e + 'b) \<times> 's) \<Rightarrow> ('e + 'b) \<times> 's" where
  "and_try r k = (case r of (Inl e, s) \<Rightarrow> (Inl e, s) | (Inr a, s) \<Rightarrow> k a s)"

lemma and_try_simps [simp]: "and_try (Inr a, s) k = k a s" "and_try (Inl e, s) k = (Inl e, s)"
  by (simp_all add: and_try_def)

lemma and_then_Inr [simp]: "and_then r f = Inr y \<longleftrightarrow> (\<exists>x. r = Inr x \<and> f x = Inr y)"
  by (cases r) auto

lemma and_then_Inl: "and_then r f = Inl e \<longleftrightarrow> r = Inl e \<or> (\<exists>x. r = Inr x \<and> f x = Inl e)"
  by (cases r) auto

lemma ensure_Inr [simp]: "ensure c e = Inr x \<longleftrightarrow> c"
  by (simp add: ensure_def)

lemma ensure_Inl [simp]: "ensure c e = Inl e' \<longleftrightarrow> \<not> c \<and> e' = e"
  by (auto simp: ensure_def)

lemma isl_False_Inr: "\<not> isl r \<longleftrightarrow> (\<exists>x. r = Inr x)"
  by (cases r) auto

section \<open>Fixed-width integers as byte strings\<close>

primrec nat_to_le :: "nat \<Rightarrow> nat \<Rightarrow> bytes" where
  "nat_to_le 0 n = []"
| "nat_to_le (Suc k) n = word_of_nat (n mod 256) # nat_to_le k (n div 256)"

primrec nat_of_le :: "bytes \<Rightarrow> nat" where
  "nat_of_le [] = 0"
| "nat_of_le (b # bs) = unat b + 256 * nat_of_le bs"

definition to_le_bytes :: "nat \<Rightarrow> 'a::len word \<Rightarrow> bytes" where
  "to_le_bytes k w = nat_to_le k (unat w)"

definition from_le_bytes :: "bytes \<Rightarrow> 'a::len word" where
  "from_le_bytes bs = word_of_nat (nat_of_le bs)"

definition to_be_bytes :: "nat \<Rightarrow> 'a::len word \<Rightarrow> bytes" where
  "to_be_bytes k w = rev (to_le_bytes k w)"

definition from_be_bytes :: "bytes \<Rightarrow> 'a::len word" where
  "from_be_bytes bs = from_le_bytes (rev bs)"

lemma length_nat_to_le [simp, codec_simps]: "length (nat_to_le k n) = k"
  by (induction k arbitrary: n) auto

lemma length_to_le_bytes [simp, codec_simps]: "length (to_le_bytes k w) = k"
  by (simp add: to_le_bytes_def)

lemma length_to_be_bytes [simp, codec_simps]: "length (to_be_bytes k w) = k"
  by (simp add: to_be_bytes_def)

lemma unat_byte_lt [simp]: "unat (b :: u8) < 256"
proof -
  have "unat b < 2 ^ LENGTH(8)" by (rule unsigned_less)
  then show ?thesis by simp
qed

lemma unat_word_of_nat_byte [simp]: "unat (word_of_nat n :: u8) = n mod 256"
  by (simp add: unat_of_nat)

lemma nat_of_le_to_le: "nat_of_le (nat_to_le k n) = n mod 256 ^ k"
proof (induction k arbitrary: n)
  case 0
  then show ?case by simp
next
  case (Suc k)
  have "nat_of_le (nat_to_le (Suc k) n) = n mod 256 + 256 * (n div 256 mod 256 ^ k)"
    using Suc by simp
  also have "\<dots> = n mod (256 * 256 ^ k)"
    by (simp add: mod_mult2_eq)
  finally show ?case by simp
qed

lemma nat_of_le_less: "nat_of_le bs < 256 ^ length bs"
proof (induction bs)
  case Nil
  then show ?case by simp
next
  case (Cons b bs)
  have "unat b < 256" by simp
  with Cons.IH have "unat b + 256 * nat_of_le bs < 256 * 256 ^ length bs" by linarith
  then show ?case by simp
qed

lemma nat_to_le_of_le: "nat_to_le (length bs) (nat_of_le bs) = bs"
proof (induction bs)
  case Nil
  then show ?case by simp
next
  case (Cons b bs)
  have "unat b < 256" by simp
  then have "(unat b + 256 * nat_of_le bs) div 256 = nat_of_le bs"
    and "(unat b + 256 * nat_of_le bs) mod 256 = unat b"
    by simp_all
  with Cons show ?case by simp
qed

lemma from_to_le_bytes:
  assumes "LENGTH('a) = 8 * k"
  shows "from_le_bytes (to_le_bytes k w) = (w :: 'a::len word)"
proof -
  have "(256::nat) ^ k = 2 ^ LENGTH('a)"
    using assms by (simp add: power_mult)
  moreover have "unat w < 2 ^ LENGTH('a)" by (rule unsigned_less)
  ultimately have "unat w mod 256 ^ k = unat w" by simp
  then show ?thesis
    by (simp add: from_le_bytes_def to_le_bytes_def nat_of_le_to_le)
qed

lemma from_to_be_bytes:
  assumes "LENGTH('a) = 8 * k"
  shows "from_be_bytes (to_be_bytes k w) = (w :: 'a::len word)"
  using from_to_le_bytes [OF assms] by (simp add: from_be_bytes_def to_be_bytes_def)

lemma to_from_le_bytes:
  assumes "LENGTH('a) = 8 * length bs"
  shows "to_le_bytes (length bs) (from_le_bytes bs :: 'a::len word) = bs"
proof -
  have "(256::nat) ^ length bs = 2 ^ LENGTH('a)"
    using assms by (simp add: power_mult)
  then have "nat_of_le bs < 2 ^ LENGTH('a)"
    using nat_of_le_less [of bs] by simp
  then have "unat (word_of_nat (nat_of_le bs) :: 'a word) = nat_of_le bs"
    by (simp add: unat_of_nat)
  then show ?thesis
    by (simp add: to_le_bytes_def from_le_bytes_def nat_to_le_of_le)
qed

lemma to_from_be_bytes:
  assumes "LENGTH('a) = 8 * length bs"
  shows "to_be_bytes (length bs) (from_be_bytes bs :: 'a::len word) = bs"
  using to_from_le_bytes [where bs = "rev bs", where 'a = 'a] assms
  by (simp add: from_be_bytes_def to_be_bytes_def)

text \<open>The instances the codecs use.\<close>

lemma le_bytes_u16 [simp]: "from_le_bytes (to_le_bytes 2 w) = (w :: u16)"
  by (rule from_to_le_bytes) simp

lemma le_bytes_u32 [simp]: "from_le_bytes (to_le_bytes 4 w) = (w :: u32)"
  by (rule from_to_le_bytes) simp

lemma le_bytes_u64 [simp]: "from_le_bytes (to_le_bytes 8 w) = (w :: u64)"
  by (rule from_to_le_bytes) simp

lemma be_bytes_u16 [simp]: "from_be_bytes (to_be_bytes 2 w) = (w :: u16)"
  by (rule from_to_be_bytes) simp

lemma be_bytes_u32 [simp]: "from_be_bytes (to_be_bytes 4 w) = (w :: u32)"
  by (rule from_to_be_bytes) simp

lemma be_bytes_u64 [simp]: "from_be_bytes (to_be_bytes 8 w) = (w :: u64)"
  by (rule from_to_be_bytes) simp

lemma be_bytes_u128 [simp]: "from_be_bytes (to_be_bytes 16 w) = (w :: u128)"
  by (rule from_to_be_bytes) simp

section \<open>Byte ranges\<close>

text \<open>Rust's \<open>&xs[a..b]\<close>, used below only after the length has been checked.\<close>

definition slice :: "nat \<Rightarrow> nat \<Rightarrow> 'a list \<Rightarrow> 'a list" where
  "slice a b xs = take (b - a) (drop a xs)"

lemma length_slice [simp, codec_simps]: "b \<le> length xs \<Longrightarrow> length (slice a b xs) = b - a"
  by (simp add: slice_def)

lemma slice_append_left: "b \<le> length xs \<Longrightarrow> slice a b (xs @ ys) = slice a b xs"
  by (cases "a \<le> b") (simp_all add: slice_def)

lemma slice_append_right:
  "length xs \<le> a \<Longrightarrow> slice a b (xs @ ys) = slice (a - length xs) (b - length xs) ys"
  by (cases "a \<le> b") (simp_all add: slice_def)

lemma slice_mid: "slice (length a) (length a + length b) (a @ b @ c) = b"
  by (simp add: slice_def)

lemma slice_mid_eq: "n = length a \<Longrightarrow> m = n + length b \<Longrightarrow> slice n m (a @ b @ c) = b"
  by (simp add: slice_mid)

lemma slice_whole [simp]: "b = length xs \<Longrightarrow> slice 0 b xs = xs"
  by (simp add: slice_def)

lemma take_nth_conv: "n \<le> length xs \<Longrightarrow> map ((!) xs) [0..<n] = take n xs"
  by (rule nth_equalityI) auto

section \<open>Text as bytes\<close>

text \<open>
  A Rust \<open>str\<close> is its UTF-8 byte sequence. It is modelled as a \<^typ>\<open>string\<close>, whose characters
  are the bytes; \<open>as_bytes\<close> and \<open>of_bytes\<close> change between the two types of the same sequence.
\<close>

definition as_bytes :: "string \<Rightarrow> bytes" where
  "as_bytes s = map (\<lambda>c. word_of_nat (of_char c)) s"

definition of_bytes :: "bytes \<Rightarrow> string" where
  "of_bytes bs = map (\<lambda>b. char_of (unat b)) bs"

lemma length_as_bytes [simp, codec_simps]: "length (as_bytes s) = length s"
  by (simp add: as_bytes_def)

lemma length_of_bytes [simp, codec_simps]: "length (of_bytes bs) = length bs"
  by (simp add: of_bytes_def)

lemma of_as_bytes [simp]: "of_bytes (as_bytes s) = s"
  by (simp add: of_bytes_def as_bytes_def comp_def)

lemma as_of_bytes [simp]: "as_bytes (of_bytes bs) = bs"
  by (simp add: of_bytes_def as_bytes_def comp_def)

section \<open>Codecs\<close>

text \<open>
  The contract every wire format of the program is meant to keep: a well-formed value that
  is encoded and followed by arbitrary bytes is parsed back, together with those bytes.
\<close>

locale codec =
  fixes encode :: "'a \<Rightarrow> bytes"
    and parse :: "bytes \<Rightarrow> ('a \<times> bytes) option"
    and wf :: "'a \<Rightarrow> bool"
  assumes parse_encode: "wf a \<Longrightarrow> parse (encode a @ rest) = Some (a, rest)"
begin

lemma encode_inj: "wf a \<Longrightarrow> wf b \<Longrightarrow> encode a = encode b \<Longrightarrow> a = b"
  by (metis parse_encode option.inject prod.inject)

lemma encode_prefix_free:
  "wf a \<Longrightarrow> wf b \<Longrightarrow> encode a @ xs = encode b @ ys \<Longrightarrow> a = b \<and> xs = ys"
  by (metis parse_encode option.inject prod.inject)

end

end
