(* ===== verification/Subnetra_Replay.thy ===== *)
theory Subnetra_Replay
  imports Rove_Prelude
begin

text \<open>
  The anti-replay window of the Subnetra data plane (\<open>src/subnetra/replay.rs\<close>): a 64-entry
  sliding window over accepted sequence numbers, kept in two 64-bit words. The abstract
  specification is a set of accepted numbers; the window refines it.
\<close>

section \<open>The window\<close>

record replay_window =
  highest :: u64
  bitmap :: u64

definition WINDOW :: nat where
  "WINDOW = 64"

definition replay_new :: replay_window where
  "replay_new = \<lparr>highest = 0, bitmap = 0\<rparr>"

definition reset :: "replay_window \<Rightarrow> replay_window" where
  "reset w = w\<lparr>highest := 0, bitmap := 0\<rparr>"

definition check_and_set :: "replay_window \<Rightarrow> u64 \<Rightarrow> bool \<times> replay_window" where
  "check_and_set w seq =
     (if highest w < seq then
        let shift = seq - highest w;
            shifted = (if WINDOW \<le> unat shift then 0 else push_bit (unat shift) (bitmap w))
        in (True, w\<lparr>bitmap := shifted OR 1, highest := seq\<rparr>)
      else
        let diff = highest w - seq
        in if WINDOW \<le> unat diff then (False, w)
           else let m = push_bit (unat diff) 1
                in if bitmap w AND m \<noteq> 0 then (False, w)
                   else (True, w\<lparr>bitmap := bitmap w OR m\<rparr>))"

fun replay_run :: "replay_window \<Rightarrow> u64 list \<Rightarrow> bool list \<times> replay_window" where
  "replay_run w [] = ([], w)"
| "replay_run w (q # qs) =
     (let (ok, w') = check_and_set w q; (oks, w'') = replay_run w' qs in (ok # oks, w''))"

section \<open>What the window is meant to decide\<close>

text \<open>
  The specification remembers every accepted number. A number is fresh when it lies above
  everything accepted so far, or lies less than 64 below the highest and was not accepted yet.
\<close>

definition top_of :: "nat set \<Rightarrow> nat" where
  "top_of A = Max (insert 0 A)"

definition spec_fresh :: "nat set \<Rightarrow> nat \<Rightarrow> bool" where
  "spec_fresh A q \<longleftrightarrow> top_of A < q \<or> (top_of A < q + WINDOW \<and> q \<notin> A)"

fun spec_run :: "nat set \<Rightarrow> nat list \<Rightarrow> bool list" where
  "spec_run A [] = []"
| "spec_run A (q # qs) =
     (if spec_fresh A q then True # spec_run (insert q A) qs else False # spec_run A qs)"

text \<open>The simulation relation between a window and the set of accepted numbers.\<close>

definition window_abs :: "replay_window \<Rightarrow> nat set \<Rightarrow> bool" where
  "window_abs w A \<longleftrightarrow>
     finite A \<and> unat (highest w) = top_of A \<and>
     (\<forall>i < WINDOW. bit (bitmap w) i \<longleftrightarrow> i \<le> top_of A \<and> top_of A - i \<in> A)"

section \<open>Refinement\<close>

lemma top_of_empty [simp]: "top_of {} = 0"
  by (simp add: top_of_def)

lemma top_of_insert: "finite A \<Longrightarrow> top_of (insert q A) = max q (top_of A)"
  by (simp add: top_of_def insert_commute [of 0 q])

lemma le_top_of: "finite A \<Longrightarrow> q \<in> A \<Longrightarrow> q \<le> top_of A"
  by (simp add: top_of_def)

lemma window_abs_new: "window_abs replay_new {}"
  by (simp add: window_abs_def replay_new_def)

lemma window_abs_reset: "window_abs (reset w) {}"
  by (simp add: window_abs_def reset_def)

lemma and_single_bit: "(x AND push_bit n 1 \<noteq> (0::u64)) \<longleftrightarrow> n < 64 \<and> bit x n"
proof -
  have "bit (x AND push_bit n 1) i \<longleftrightarrow> i = n \<and> i < 64 \<and> bit x i" for i
    by (auto simp: bit_and_iff bit_exp_iff)
  then have "(\<exists>i. bit (x AND push_bit n 1) i) \<longleftrightarrow> n < 64 \<and> bit x n"
    by auto
  then show ?thesis
    by (metis bit_0_eq bot_apply bot_bool_def bit_eqI)
qed

lemma unat_diff_le: "a \<le> b \<Longrightarrow> unat (b - a) = unat b - unat (a :: u64)"
  by (simp add: unat_sub)

lemma check_and_set_advance:
  assumes "window_abs w A" and "highest w < seq"
  shows "window_abs (snd (check_and_set w seq)) (insert (unat seq) A)"
proof -
  let ?h = "unat (highest w)" and ?q = "unat seq" and ?s = "unat (seq - highest w)"
  have hq: "?h < ?q" using assms(2) by (simp add: word_less_nat_alt)
  have s: "?s = ?q - ?h" using assms(2) by (simp add: unat_diff_le)
  have fin: "finite A" and top: "top_of A = ?h"
    and bits: "\<And>i. i < 64 \<Longrightarrow> bit (bitmap w) i \<longleftrightarrow> i \<le> ?h \<and> ?h - i \<in> A"
    using assms(1) by (auto simp: window_abs_def WINDOW_def)
  have above: "n \<notin> A" if "?h < n" for n
    using le_top_of [OF fin, of n] top that by auto
  have top': "top_of (insert ?q A) = ?q"
    using hq by (simp add: top_of_insert [OF fin] top)
  have "bit (bitmap (snd (check_and_set w seq))) i \<longleftrightarrow> i \<le> ?q \<and> ?q - i \<in> insert ?q A"
    if "i < 64" for i
  proof (cases "i = 0")
    case True
    then show ?thesis
      using assms(2) by (simp add: check_and_set_def Let_def bit_simps)
  next
    case False
    have shifted: "bit (push_bit ?s (bitmap w)) i \<longleftrightarrow> ?s \<le> i \<and> bit (bitmap w) (i - ?s)"
      using that by (simp add: bit_simps)
    show ?thesis
    proof (cases "?s \<le> i")
      case True
      then have "?s < 64" using that by simp
      moreover have "?h - (i - ?s) = ?q - i" "i - ?s \<le> ?h \<longleftrightarrow> i \<le> ?q"
        using True s hq by auto
      moreover have "?q - i = ?q \<longleftrightarrow> False" if "i \<le> ?q" using False that by auto
      ultimately show ?thesis
        using assms(2) False True bits [of "i - ?s"] that
        by (auto simp: check_and_set_def Let_def WINDOW_def bit_simps)
    next
      case nle: False
      then have "i \<le> ?q" "?h < ?q - i" using s by auto
      then have "?q - i \<notin> insert ?q A" using above False by auto
      then show ?thesis
        using assms(2) False nle that
        by (auto simp: check_and_set_def Let_def WINDOW_def bit_simps)
    qed
  qed
  then show ?thesis
    using assms(2) fin top' by (simp add: window_abs_def WINDOW_def check_and_set_def Let_def)
qed

lemma check_and_set_behind:
  assumes "window_abs w A" and "\<not> highest w < seq"
  shows "fst (check_and_set w seq) \<longleftrightarrow> spec_fresh A (unat seq)"
    and "window_abs (snd (check_and_set w seq))
           (if spec_fresh A (unat seq) then insert (unat seq) A else A)"
proof -
  let ?h = "unat (highest w)" and ?q = "unat seq" and ?d = "unat (highest w - seq)"
  have qh: "?q \<le> ?h" using assms(2) by (simp add: word_less_nat_alt)
  have d: "?d = ?h - ?q" using assms(2) by (simp add: unat_diff_le)
  have fin: "finite A" and top: "top_of A = ?h"
    and bits: "\<And>i. i < 64 \<Longrightarrow> bit (bitmap w) i \<longleftrightarrow> i \<le> ?h \<and> ?h - i \<in> A"
    using assms(1) by (auto simp: window_abs_def WINDOW_def)
  have near: "?h < ?q + 64 \<longleftrightarrow> ?d < 64" using qh d by linarith
  have fresh: "spec_fresh A ?q \<longleftrightarrow> ?d < 64 \<and> \<not> bit (bitmap w) ?d"
    using qh top bits [of ?d] near d by (auto simp: spec_fresh_def WINDOW_def)
  show "fst (check_and_set w seq) \<longleftrightarrow> spec_fresh A ?q"
    using assms(2) fresh
    by (auto simp: check_and_set_def Let_def WINDOW_def and_single_bit simp del: push_bit_of_1)
  show "window_abs (snd (check_and_set w seq)) (if spec_fresh A ?q then insert ?q A else A)"
  proof (cases "spec_fresh A ?q")
    case False
    then have "snd (check_and_set w seq) = w"
      using assms(2) fresh
      by (auto simp: check_and_set_def Let_def WINDOW_def and_single_bit simp del: push_bit_of_1)
    with False assms(1) show ?thesis by simp
  next
    case True
    then have step: "snd (check_and_set w seq) = w\<lparr>bitmap := bitmap w OR push_bit ?d 1\<rparr>"
      using assms(2) fresh
      by (auto simp: check_and_set_def Let_def WINDOW_def and_single_bit simp del: push_bit_of_1)
    have "bit (bitmap w OR push_bit ?d 1) i \<longleftrightarrow> i \<le> ?h \<and> ?h - i \<in> insert ?q A" if "i < 64" for i
      using bits [OF that] that d qh by (auto simp: bit_or_iff bit_exp_iff)
    then show ?thesis
      using True fin qh by (simp add: step window_abs_def top_of_insert top max_def WINDOW_def)
  qed
qed

text \<open>One step of the window is one step of the specification, on either branch.\<close>

lemma check_and_set_refines:
  assumes "window_abs w A"
  shows "fst (check_and_set w seq) \<longleftrightarrow> spec_fresh A (unat seq)"
    and "window_abs (snd (check_and_set w seq))
           (if spec_fresh A (unat seq) then insert (unat seq) A else A)"
proof -
  have adv: "fst (check_and_set w seq) \<and> spec_fresh A (unat seq)" if "highest w < seq"
    using that assms
    by (auto simp: check_and_set_def Let_def spec_fresh_def window_abs_def word_less_nat_alt)
  show "fst (check_and_set w seq) \<longleftrightarrow> spec_fresh A (unat seq)"
    using adv check_and_set_behind(1) [OF assms] by blast
  show "window_abs (snd (check_and_set w seq))
          (if spec_fresh A (unat seq) then insert (unat seq) A else A)"
    using adv check_and_set_behind(2) [OF assms] check_and_set_advance [OF assms]
    by (cases "highest w < seq") auto
qed

lemma check_and_set_unchanged: "check_and_set w seq = (False, w') \<Longrightarrow> w' = w"
  by (auto simp: check_and_set_def Let_def split: if_splits)

text \<open>
  What the sessions rely on: a filter that can be restarted empty, admits only numbers outside
  the set it has admitted since, and does not move when it refuses.
\<close>

locale replay_filter =
  fixes start :: 's
    and renew :: "'s \<Rightarrow> 's"
    and admit :: "'s \<Rightarrow> 'q \<Rightarrow> bool \<times> 's"
    and seen :: "'s \<Rightarrow> 'q set \<Rightarrow> bool"
  assumes seen_start: "seen start {}"
    and seen_renew: "seen (renew s) {}"
    and admit_fresh: "seen s A \<Longrightarrow> admit s q = (True, s') \<Longrightarrow> q \<notin> A \<and> seen s' (insert q A)"
    and admit_refuse: "admit s q = (False, s') \<Longrightarrow> s' = s"
    and admit_first: "fst (admit (renew s) q)"
begin

lemma admit_seen:
  assumes "seen s A"
  shows "seen (snd (admit s q)) (if fst (admit s q) then insert q A else A)"
  using assms admit_fresh [of s A q] admit_refuse [of s q]
  by (cases "admit s q"; cases "fst (admit s q)") auto

lemma renewed_admits: "\<exists>s'. admit (renew s) q = (True, s') \<and> seen s' {q}"
  using admit_first [of s q] admit_fresh [OF seen_renew, of s q] by (cases "admit (renew s) q") auto

end

definition window_seen :: "replay_window \<Rightarrow> u64 set \<Rightarrow> bool" where
  "window_seen w A \<longleftrightarrow> window_abs w (unat ` A)"

lemma spec_fresh_notin: "finite A \<Longrightarrow> spec_fresh A q \<Longrightarrow> q \<notin> A"
  by (auto simp: spec_fresh_def dest: le_top_of)

lemma spec_fresh_empty [simp]: "spec_fresh {} q"
  by (auto simp: spec_fresh_def WINDOW_def)

interpretation rw: replay_filter replay_new reset check_and_set window_seen
proof
  show "window_seen replay_new {}" by (simp add: window_seen_def window_abs_new)
  show "window_seen (reset s) {}" for s by (simp add: window_seen_def window_abs_reset)
  show "s' = s" if "check_and_set s q = (False, s')" for s q s'
    using that by (rule check_and_set_unchanged)
  show "fst (check_and_set (reset s) q)" for s q
    by (simp add: check_and_set_refines(1) [OF window_abs_reset])
next
  fix s A q s'
  assume seen: "window_seen s A" and step: "check_and_set s q = (True, s')"
  have abs: "window_abs s (unat ` A)" and fin: "finite (unat ` A)"
    using seen by (simp_all add: window_seen_def window_abs_def)
  have "spec_fresh (unat ` A) (unat q)" and "window_abs s' (insert (unat q) (unat ` A))"
    using check_and_set_refines [OF abs, of q] step by simp_all
  then show "q \<notin> A \<and> window_seen s' (insert q A)"
    using spec_fresh_notin [OF fin] by (auto simp: window_seen_def)
qed

lemma replay_run_refines: "window_abs w A \<Longrightarrow> fst (replay_run w qs) = spec_run A (map unat qs)"
proof (induction qs arbitrary: w A)
  case Nil
  then show ?case by simp
next
  case (Cons q qs)
  obtain ok w' where step: "check_and_set w q = (ok, w')" by fastforce
  have "ok \<longleftrightarrow> spec_fresh A (unat q)"
    and "window_abs w' (if spec_fresh A (unat q) then insert (unat q) A else A)"
    using check_and_set_refines [OF Cons.prems, of q] step by simp_all
  then show ?case
    using Cons.IH [of w' "if spec_fresh A (unat q) then insert (unat q) A else A"] step
    by (auto simp: Let_def split: prod.splits)
qed

text \<open>The specification never accepts a number twice, so neither does the window.\<close>

definition accepted :: "bool list \<Rightarrow> 'a list \<Rightarrow> 'a list" where
  "accepted oks qs = map snd (filter fst (zip oks qs))"

lemma accepted_simps [simp]:
  "accepted [] qs = []"
  "accepted (True # oks) (q # qs) = q # accepted oks qs"
  "accepted (False # oks) (q # qs) = accepted oks qs"
  by (simp_all add: accepted_def)

lemma spec_run_distinct:
  "finite A \<Longrightarrow> distinct (accepted (spec_run A qs) qs) \<and> set (accepted (spec_run A qs) qs) \<inter> A = {}"
proof (induction qs arbitrary: A)
  case Nil
  then show ?case by simp
next
  case (Cons q qs)
  show ?case
    using Cons.IH [of A] Cons.IH [of "insert q A"] Cons.prems spec_fresh_notin [of A q] by auto
qed

lemma length_spec_run [simp]: "length (spec_run A qs) = length qs"
  by (induction qs arbitrary: A) auto

lemma accepted_map: "accepted oks (map f qs) = map f (accepted oks qs)"
  by (simp add: accepted_def zip_map2 filter_map comp_def case_prod_unfold)

text \<open>
  C7: the 64-bit window decides every sequence of datagram numbers exactly as the set-based
  specification does: a number is accepted if and only if it is above everything accepted so
  far, or less than 64 below the highest and not accepted before.
\<close>

theorem replay_window_refines_spec:
  "fst (replay_run replay_new qs) = spec_run {} (map unat qs)"
  by (rule replay_run_refines) (rule window_abs_new)

text \<open>
  Whatever sequence numbers arrive, and in whatever order, no sequence number is accepted
  more than once by a window.
\<close>

lemma replay_window_accepts_once:
  "distinct (accepted (fst (replay_run replay_new qs)) qs)"
proof -
  have "distinct (accepted (spec_run {} (map unat qs)) (map unat qs))"
    using spec_run_distinct by simp
  then have "distinct (map unat (accepted (fst (replay_run replay_new qs)) qs))"
    by (simp add: replay_run_refines [OF window_abs_new] accepted_map)
  then show ?thesis by (simp add: distinct_map)
qed

end
