(* ===== verification/Rust_Str.thy ===== *)
theory Rust_Str
  imports Rove_Prelude "HOL-Library.Sublist"
begin

text \<open>
  The part of Rust's string library the sources use. A \<open>str\<close> is its UTF-8 bytes, one
  character code below 256 per byte; multi-byte white space is therefore written out.
\<close>

section \<open>Bytes of a string\<close>

definition code_at :: "string \<Rightarrow> nat \<Rightarrow> nat" where
  "code_at s i = (if i < length s then of_char (s ! i) else 0)"

definition char_in :: "nat \<Rightarrow> nat \<Rightarrow> char \<Rightarrow> bool" where
  "char_in lo hi c \<longleftrightarrow> lo \<le> (of_char c :: nat) \<and> of_char c \<le> hi"

definition is_ascii_digit :: "char \<Rightarrow> bool" where
  "is_ascii_digit c \<longleftrightarrow> char_in 48 57 c"

definition is_ascii_lowercase :: "char \<Rightarrow> bool" where
  "is_ascii_lowercase c \<longleftrightarrow> char_in 97 122 c"

definition is_ascii_alphanumeric :: "char \<Rightarrow> bool" where
  "is_ascii_alphanumeric c \<longleftrightarrow> is_ascii_digit c \<or> is_ascii_lowercase c \<or> char_in 65 90 c"

definition is_ascii :: "string \<Rightarrow> bool" where
  "is_ascii s \<longleftrightarrow> list_all (\<lambda>c. of_char c < (128 :: nat)) s"

definition to_lower_char :: "char \<Rightarrow> char" where
  "to_lower_char c = (if char_in 65 90 c then char_of (of_char c + 32 :: nat) else c)"

definition to_ascii_lowercase :: "string \<Rightarrow> string" where
  "to_ascii_lowercase s = map to_lower_char s"

definition eq_ignore_ascii_case :: "string \<Rightarrow> string \<Rightarrow> bool" where
  "eq_ignore_ascii_case a b \<longleftrightarrow> to_ascii_lowercase a = to_ascii_lowercase b"

section \<open>Trimming\<close>

text \<open>The number of bytes of the white space character a string starts with, 0 for none.\<close>

definition ws_len :: "string \<Rightarrow> nat" where
  "ws_len s =
     (let a = code_at s 0; b = code_at s 1; c = code_at s 2
      in if 9 \<le> a \<and> a \<le> 13 \<or> a = 32 then 1
         else if a = 0xC2 \<and> (b = 0x85 \<or> b = 0xA0) then 2
         else if a = 0xE1 \<and> b = 0x9A \<and> c = 0x80
               \<or> a = 0xE2 \<and> b = 0x80 \<and> (0x80 \<le> c \<and> c \<le> 0x8A \<or> c = 0xA8 \<or> c = 0xA9 \<or> c = 0xAF)
               \<or> a = 0xE2 \<and> b = 0x81 \<and> c = 0x9F
               \<or> a = 0xE3 \<and> b = 0x80 \<and> c = 0x80 then 3
         else 0)"

lemma ws_len_Nil [simp]: "ws_len [] = 0"
  by (simp add: ws_len_def code_at_def)

lemma ws_len_le: "ws_len s \<le> length s"
  by (cases s; cases "tl s"; cases "tl (tl s)") (auto simp: ws_len_def code_at_def Let_def split: if_splits)

function trim_start :: "string \<Rightarrow> string" where
  "trim_start s = (if ws_len s = 0 then s else trim_start (drop (ws_len s) s))"
  by auto
termination
proof (relation "measure length")
  show "(drop (ws_len s) s, s) \<in> measure length" if "ws_len s \<noteq> 0" for s :: string
    using that ws_len_le [of s] by (cases s) auto
qed simp

declare trim_start.simps [simp del]

definition ws_len_end :: "string \<Rightarrow> nat" where
  "ws_len_end s =
     (if ws_len (drop (length s - 1) s) = 1 then 1
      else if 2 \<le> length s \<and> ws_len (drop (length s - 2) s) = 2 then 2
      else if 3 \<le> length s \<and> ws_len (drop (length s - 3) s) = 3 then 3
      else 0)"

function trim_end :: "string \<Rightarrow> string" where
  "trim_end s = (if ws_len_end s = 0 then s else trim_end (take (length s - ws_len_end s) s))"
  by auto
termination
proof (relation "measure length")
  show "(take (length s - ws_len_end s) s, s) \<in> measure length" if "ws_len_end s \<noteq> 0" for s :: string
    using that by (cases s) (auto simp: ws_len_end_def split: if_splits)
qed simp

declare trim_end.simps [simp del]

definition trim :: "string \<Rightarrow> string" where
  "trim s = trim_end (trim_start s)"

lemma trim_id:
  assumes "ws_len s = 0" and "ws_len_end s = 0"
  shows "trim s = s"
  using assms by (simp add: trim_def trim_start.simps [of s] trim_end.simps [of s])

text \<open>Printable ASCII other than the space.\<close>

definition visible :: "string \<Rightarrow> bool" where
  "visible s \<longleftrightarrow> list_all (char_in 33 126) s"

lemma ws_len_ascii: "s \<noteq> [] \<Longrightarrow> char_in 33 126 (hd s) \<Longrightarrow> ws_len s = 0"
  by (auto simp: ws_len_def code_at_def char_in_def Let_def hd_conv_nth)

lemma ws_len_visible: "visible s \<Longrightarrow> ws_len (drop k s) = 0"
proof (cases "drop k s = []")
  case False
  assume "visible s"
  moreover from False have "hd (drop k s) \<in> set s" by (meson in_set_dropD hd_in_set)
  ultimately show ?thesis using False by (intro ws_len_ascii) (auto simp: visible_def list_all_iff)
qed simp

lemma trim_visible: "visible s \<Longrightarrow> trim s = s"
  using ws_len_visible [of s 0] by (intro trim_id) (simp_all add: ws_len_end_def ws_len_visible)

lemma trim_space [simp]: "trim (CHR '' '' # s) = trim s"
  by (simp add: trim_def trim_start.simps [of "CHR '' '' # s"] ws_len_def code_at_def)

lemma length_trim_start: "length (trim_start s) \<le> length s"
  by (induction s rule: trim_start.induct) (subst trim_start.simps, auto intro: le_trans)

lemma trim_start_suffix: "suffix (trim_start s) s"
proof (induction s rule: trim_start.induct)
  case (1 s)
  then show ?case
    by (subst trim_start.simps) (auto intro: suffix_order.trans [OF _ suffix_drop])
qed

lemma length_trim_end: "length (trim_end s) \<le> length s"
  by (induction s rule: trim_end.induct) (subst trim_end.simps, auto intro: le_trans)

text \<open>A string that trimming keeps neither starts nor ends with white space.\<close>

lemma trim_fixed:
  assumes "trim s = s"
  shows "ws_len s = 0" and "ws_len_end s = 0"
proof -
  have "length s \<le> length (trim_start s)"
    using assms length_trim_end [of "trim_start s"] by (simp add: trim_def)
  with trim_start_suffix [of s] have start: "trim_start s = s"
    by (metis le_antisym length_trim_start suffix_length_suffix suffix_order.antisym suffix_order.refl)
  show "ws_len s = 0"
  proof (rule ccontr)
    assume ws: "ws_len s \<noteq> 0"
    then have "length (trim_start s) \<le> length (drop (ws_len s) s)"
      by (subst trim_start.simps) (simp add: length_trim_start del: length_drop)
    with start ws show False using ws_len_le [of s] by simp
  qed
  show "ws_len_end s = 0"
  proof (rule ccontr)
    assume ws: "ws_len_end s \<noteq> 0"
    then have "length (trim_end s) \<le> length (take (length s - ws_len_end s) s)"
      by (subst trim_end.simps) (simp add: length_trim_end del: length_take)
    moreover have "s \<noteq> []" using ws by (auto simp: ws_len_end_def)
    ultimately show False using assms start ws by (cases "length s") (simp_all add: trim_def)
  qed
qed

lemma trim_last:
  assumes "trim s = s" and "s \<noteq> []"
  shows "ws_len [last s] = 0"
proof -
  have "drop (length s - 1) s = [last s]"
    using assms(2) by (cases s rule: rev_cases) simp_all
  then have "ws_len [last s] \<noteq> 1"
    using trim_fixed(2) [OF assms(1)] by (auto simp: ws_len_end_def split: if_splits)
  then show ?thesis using ws_len_le [of "[last s]"] by (simp add: le_Suc_eq)
qed

definition trim_end_matches :: "char \<Rightarrow> string \<Rightarrow> string" where
  "trim_end_matches c s = rev (dropWhile ((=) c) (rev s))"

definition trim_start_matches :: "char \<Rightarrow> string \<Rightarrow> string" where
  "trim_start_matches c s = dropWhile ((=) c) s"

definition trim_matches :: "char \<Rightarrow> string \<Rightarrow> string" where
  "trim_matches c s = trim_end_matches c (trim_start_matches c s)"

section \<open>Prefixes, splitting and search\<close>

definition starts_with :: "string \<Rightarrow> string \<Rightarrow> bool" where
  "starts_with s p \<longleftrightarrow> prefix p s"

definition ends_with :: "string \<Rightarrow> string \<Rightarrow> bool" where
  "ends_with s p \<longleftrightarrow> suffix p s"

definition strip_prefix :: "string \<Rightarrow> string \<Rightarrow> string option" where
  "strip_prefix s p = (if prefix p s then Some (drop (length p) s) else None)"

definition strip_suffix :: "string \<Rightarrow> string \<Rightarrow> string option" where
  "strip_suffix s p = (if suffix p s then Some (take (length s - length p) s) else None)"

fun split_on :: "char \<Rightarrow> string \<Rightarrow> string list" where
  "split_on c [] = [[]]"
| "split_on c (x # xs) =
     (if x = c then [] # split_on c xs
      else case split_on c xs of seg # segs \<Rightarrow> (x # seg) # segs | [] \<Rightarrow> [[x]])"

fun split_once :: "char \<Rightarrow> string \<Rightarrow> (string \<times> string) option" where
  "split_once c [] = None"
| "split_once c (x # xs) =
     (if x = c then Some ([], xs) else map_option (\<lambda>(a, b). (x # a, b)) (split_once c xs))"

definition rsplit_once :: "char \<Rightarrow> string \<Rightarrow> (string \<times> string) option" where
  "rsplit_once c s = map_option (\<lambda>(a, b). (rev b, rev a)) (split_once c (rev s))"

definition contains_str :: "string \<Rightarrow> string \<Rightarrow> bool" where
  "contains_str s p \<longleftrightarrow> sublist p s"

fun join :: "string \<Rightarrow> string list \<Rightarrow> string" where
  "join sep [] = []"
| "join sep [x] = x"
| "join sep (x # y # ys) = x @ sep @ join sep (y # ys)"

lemma split_on_ne [simp]: "split_on c s \<noteq> []"
  by (induction s) (auto split: list.splits)

lemma split_on_notin: "c \<notin> set s \<Longrightarrow> split_on c s = [s]"
  by (induction s) auto

lemma join_split_on [simp]: "join [c] (split_on c s) = s"
proof (induction s)
  case (Cons x xs)
  obtain seg segs where "split_on c xs = seg # segs" by (metis list.exhaust split_on_ne)
  with Cons show ?case by (cases segs) auto
qed simp

lemma split_on_segments: "seg \<in> set (split_on c s) \<Longrightarrow> c \<notin> set seg"
  by (induction s arbitrary: seg) (auto split: list.splits if_splits)

lemma split_on_append:
  "c \<notin> set a \<Longrightarrow> split_on c (a @ c # b) = a # split_on c b"
  by (induction a) auto

lemma split_on_join:
  "segs \<noteq> [] \<Longrightarrow> \<forall>seg \<in> set segs. c \<notin> set seg \<Longrightarrow> split_on c (join [c] segs) = segs"
  by (induction "[c]" segs rule: join.induct) (auto simp: split_on_append split_on_notin)

lemma split_once_eq_Some:
  "split_once c s = Some (a, b) \<longleftrightarrow> s = a @ c # b \<and> c \<notin> set a"
  by (induction s arbitrary: a b) (auto simp: Cons_eq_append_conv)

lemma split_once_eq_None: "split_once c s = None \<longleftrightarrow> c \<notin> set s"
  by (induction s) auto

section \<open>Numbers\<close>

definition to_digit :: "nat \<Rightarrow> char \<Rightarrow> nat option" where
  "to_digit radix c =
     (let k = of_char c :: nat;
          d = (if 48 \<le> k \<and> k \<le> 57 then k - 48
               else if 97 \<le> k \<and> k \<le> 122 then k - 87
               else if 65 \<le> k \<and> k \<le> 90 then k - 55 else radix)
      in if d < radix then Some d else None)"

fun digits_value :: "nat \<Rightarrow> nat \<Rightarrow> string \<Rightarrow> nat option" where
  "digits_value radix acc [] = Some acc"
| "digits_value radix acc (c # cs) =
     (case to_digit radix c of None \<Rightarrow> None | Some d \<Rightarrow> digits_value radix (acc * radix + d) cs)"

text \<open>Unsigned \<open>from_str_radix\<close>: one leading plus sign is allowed, an empty or overflowing number is not.\<close>

definition from_str_radix :: "nat \<Rightarrow> nat \<Rightarrow> string \<Rightarrow> nat option" where
  "from_str_radix max_value radix s =
     (let ds = (if 1 < length s \<and> hd s = CHR ''+'' then tl s else s)
      in if ds = [] then None
         else case digits_value radix 0 ds of
                None \<Rightarrow> None
              | Some n \<Rightarrow> if n \<le> max_value then Some n else None)"

definition parse_u16 :: "string \<Rightarrow> u16 option" where
  "parse_u16 s = map_option word_of_nat (from_str_radix 65535 10 s)"

definition digit_char :: "nat \<Rightarrow> char" where
  "digit_char d = char_of (48 + d)"

fun show_nat :: "nat \<Rightarrow> string" where
  "show_nat n = (if n < 10 then [digit_char n] else show_nat (n div 10) @ [digit_char (n mod 10)])"

declare show_nat.simps [simp del]

lemma to_digit_digit_char: "d < 10 \<Longrightarrow> to_digit 10 (digit_char d) = Some d"
  by (simp add: to_digit_def digit_char_def Let_def)

lemma digits_value_append:
  "digits_value r a (xs @ ys) = (case digits_value r a xs of None \<Rightarrow> None | Some b \<Rightarrow> digits_value r b ys)"
  by (induction r a xs rule: digits_value.induct) (auto split: option.splits)

lemma digits_value_show_nat: "digits_value 10 0 (show_nat n) = Some n"
proof (induction n rule: show_nat.induct)
  case (1 n)
  then show ?case
    by (subst show_nat.simps) (auto simp: digits_value_append to_digit_digit_char)
qed

lemma show_nat_ne [simp]: "show_nat n \<noteq> []"
  by (subst show_nat.simps) simp

lemma show_nat_digits: "c \<in> set (show_nat n) \<Longrightarrow> is_ascii_digit c"
proof (induction n rule: show_nat.induct)
  case (1 n)
  then show ?case
    by (subst (asm) show_nat.simps)
      (auto simp: is_ascii_digit_def char_in_def digit_char_def split: if_splits)
qed

lemma from_str_radix_show_nat: "n \<le> m \<Longrightarrow> from_str_radix m 10 (show_nat n) = Some n"
proof -
  assume "n \<le> m"
  moreover have "hd (show_nat n) \<noteq> CHR ''+''"
    using show_nat_digits [of "hd (show_nat n)" n] by (auto simp: is_ascii_digit_def char_in_def)
  ultimately show ?thesis
    by (simp add: from_str_radix_def digits_value_show_nat)
qed

lemma parse_u16_show: "parse_u16 (show_nat (unat p)) = Some p"
  using from_str_radix_show_nat [of "unat p" 65535] unsigned_less [where ?'a = nat, of p]
  by (simp add: parse_u16_def)

lemma length_show_nat: "n < 10 ^ k \<Longrightarrow> 0 < k \<Longrightarrow> length (show_nat n) \<le> k"
proof (induction k arbitrary: n)
  case (Suc k)
  then show ?case
  proof (cases "n < 10")
    case False
    with Suc.prems have "n div 10 < 10 ^ k" by (simp add: less_mult_imp_div_less)
    with False Suc.IH [of "n div 10"] show ?thesis
      by (cases k) (simp_all add: show_nat.simps [of n])
  qed (simp add: show_nat.simps [of n])
qed simp

section \<open>Hexadecimal\<close>

text \<open>Bytes printed with two lowercase digits each.\<close>

definition hex_char :: "nat \<Rightarrow> char" where
  "hex_char d = (if d < 10 then char_of (48 + d) else char_of (87 + d))"

definition show_hex :: "bytes \<Rightarrow> string" where
  "show_hex bs = concat (map (\<lambda>b. [hex_char (unat b div 16), hex_char (unat b mod 16)]) bs)"

lemma to_digit_hex_char: "d < 16 \<Longrightarrow> to_digit 16 (hex_char d) = Some d"
  by (auto simp: to_digit_def hex_char_def Let_def)

lemma hex_char_visible: "d < 16 \<Longrightarrow> char_in 48 102 (hex_char d)"
  by (auto simp: hex_char_def char_in_def)

lemma nibbles_lt: "unat (b :: u8) div 16 < 16" "unat b mod 16 < 16"
  using unat_byte_lt [of b] by (auto simp: less_mult_imp_div_less)

lemma length_show_hex [simp]: "length (show_hex bs) = 2 * length bs"
  by (induction bs) (auto simp: show_hex_def)

lemma show_hex_Cons:
  "show_hex (b # bs) = hex_char (unat b div 16) # hex_char (unat b mod 16) # show_hex bs"
  by (simp add: show_hex_def)

lemma slice_show_hex:
  "i < length bs \<Longrightarrow> slice (i * 2) (Suc (Suc (i * 2))) (show_hex bs) =
     [hex_char (unat (bs ! i) div 16), hex_char (unat (bs ! i) mod 16)]"
proof (induction bs arbitrary: i)
  case (Cons b bs)
  then show ?case by (cases i) (auto simp: show_hex_Cons slice_def)
qed simp

lemma show_hex_char: "c \<in> set (show_hex bs) \<Longrightarrow> char_in 48 102 c"
proof (induction bs)
  case (Cons b bs)
  then show ?case by (auto simp: show_hex_Cons hex_char_visible nibbles_lt)
qed (simp add: show_hex_def)

lemma trim_show_hex: "trim (show_hex bs) = show_hex bs"
proof -
  have "char_in 33 126 c" if "c \<in> set (show_hex bs)" for c
    using show_hex_char [OF that] by (auto simp: char_in_def)
  then show ?thesis by (intro trim_visible) (simp add: visible_def list_all_iff)
qed

section \<open>Words\<close>

text \<open>\<open>split_whitespace\<close>: the maximal runs of characters that are not white space.\<close>

function word_run :: "string \<Rightarrow> string \<times> string" where
  "word_run s =
     (if s = [] \<or> ws_len s \<noteq> 0 then ([], s) else let (w, r) = word_run (tl s) in (hd s # w, r))"
  by auto
termination by (relation "measure length") auto

declare word_run.simps [simp del]

lemma word_run_append: "fst (word_run s) @ snd (word_run s) = s"
  by (induction s rule: word_run.induct) (subst (1 2) word_run.simps, auto simp: split_beta Let_def)

lemma word_run_shorter: "length (snd (word_run s)) \<le> length s"
  using word_run_append [of s] by (metis length_append le_add2)

function split_whitespace :: "string \<Rightarrow> string list" where
  "split_whitespace s =
     (let t = trim_start s in if t = [] then [] else fst (word_run t) # split_whitespace (snd (word_run t)))"
  by auto
termination
proof (relation "measure length")
  fix s t :: string
  assume t: "t = trim_start s" "t \<noteq> []"
  have "length (trim_start s) \<le> length s" by (rule length_trim_start)
  moreover have "ws_len t = 0"
    unfolding t(1) by (induction s rule: trim_start.induct) (subst trim_start.simps, auto)
  then have "fst (word_run t) \<noteq> []"
    using t(2) by (subst word_run.simps) (auto simp: split_beta Let_def)
  then have "length (snd (word_run t)) < length t"
    using word_run_append [of t] by (metis length_append length_greater_0_conv less_add_same_cancel2)
  ultimately show "(snd (word_run t), s) \<in> measure length" using t(1) by simp
qed simp

declare split_whitespace.simps [simp del]

end
