(* ===== verification/Rust_Net.thy ===== *)
theory Rust_Net
  imports Rust_Str
begin

text \<open>
  The address types of Rust's \<open>std::net\<close>, as far as the program uses them.
\<close>

section \<open>Addresses\<close>

text \<open>\<open>IpAddr\<close>: the 32 or 128 bits of the address, most significant octet first.\<close>

datatype ip_addr = V4 u32 | V6 u128

text \<open>\<open>SocketAddr\<close>; the IPv6 variant also carries its flow information and scope id.\<close>

datatype socket_addr = SockV4 u32 u16 | SockV6 u128 u16 u32 u32

text \<open>\<open>Ipv4Addr::new(a, b, c, d)\<close> and \<open>octets()\<close>.\<close>

definition ipv4_new :: "u8 \<Rightarrow> u8 \<Rightarrow> u8 \<Rightarrow> u8 \<Rightarrow> u32" where
  "ipv4_new a b c d = from_be_bytes [a, b, c, d]"

definition ipv4_octets :: "u32 \<Rightarrow> bytes" where
  "ipv4_octets ip = to_be_bytes 4 ip"

definition ipv6_octets :: "u128 \<Rightarrow> bytes" where
  "ipv6_octets ip = to_be_bytes 16 ip"

lemma length_ipv4_octets [simp, codec_simps]: "length (ipv4_octets ip) = 4"
  by (simp add: ipv4_octets_def)

lemma length_ipv6_octets [simp, codec_simps]: "length (ipv6_octets ip) = 16"
  by (simp add: ipv6_octets_def)

lemma ipv4_octets_new: "ipv4_octets (ipv4_new a b c d) = [a, b, c, d]"
  using to_from_be_bytes [where 'a = 32, of "[a, b, c, d]"]
  by (simp add: ipv4_octets_def ipv4_new_def eval_nat_numeral)

section \<open>Parsing addresses\<close>

text \<open>
  The standard library's address parser: every reader returns the value and the remaining
  input, and a reader that fails leaves the input where it was.
\<close>

type_synonym 'a reader = "string \<Rightarrow> ('a \<times> string) option"

definition read_given_char :: "char \<Rightarrow> unit reader" where
  "read_given_char c s = (case s of x # xs \<Rightarrow> if x = c then Some ((), xs) else None | [] \<Rightarrow> None)"

definition read_separator :: "char \<Rightarrow> nat \<Rightarrow> 'a reader \<Rightarrow> 'a reader" where
  "read_separator sep i inner s =
     (if 0 < i then (case read_given_char sep s of None \<Rightarrow> None | Some (_, s') \<Rightarrow> inner s') else inner s)"

text \<open>The longest prefix of digits and what follows it.\<close>

fun digit_run :: "nat \<Rightarrow> string \<Rightarrow> nat list \<times> string" where
  "digit_run radix [] = ([], [])"
| "digit_run radix (c # cs) =
     (case to_digit radix c of
        None \<Rightarrow> ([], c # cs)
      | Some d \<Rightarrow> let (ds, rest) = digit_run radix cs in (d # ds, rest))"

definition number_of :: "nat \<Rightarrow> nat list \<Rightarrow> nat" where
  "number_of radix ds = foldl (\<lambda>acc d. acc * radix + d) 0 ds"

definition read_number :: "nat \<Rightarrow> nat option \<Rightarrow> bool \<Rightarrow> nat \<Rightarrow> nat reader" where
  "read_number radix max_digits allow_zero_prefix max_value s =
     (let (ds, rest) = digit_run radix s; n = number_of radix ds
      in if (case max_digits of None \<Rightarrow> False | Some m \<Rightarrow> m < length ds) then None
         else if ds = [] then None
         else if \<not> allow_zero_prefix \<and> hd s = CHR ''0'' \<and> 1 < length ds then None
         else if max_value < n then None
         else Some (n, rest))"

fun read_octets :: "nat \<Rightarrow> nat \<Rightarrow> u8 list reader" where
  "read_octets 0 i s = Some ([], s)"
| "read_octets (Suc n) i s =
     (case read_separator (CHR ''.'') i (read_number 10 (Some 3) False 255) s of
        None \<Rightarrow> None
      | Some (g, s') \<Rightarrow>
          (case read_octets n (Suc i) s' of None \<Rightarrow> None | Some (gs, s'') \<Rightarrow> Some (word_of_nat g # gs, s'')))"

definition read_ipv4_addr :: "u32 reader" where
  "read_ipv4_addr s = map_option (\<lambda>(os, rest). (from_be_bytes os, rest)) (read_octets 4 0 s)"

text \<open>\<open>read_groups\<close>: up to \<open>limit\<close> groups from group \<open>i\<close> on, and whether an IPv4 tail was read.\<close>

fun read_groups :: "nat \<Rightarrow> nat \<Rightarrow> string \<Rightarrow> u16 list \<times> bool \<times> string" where
  "read_groups 0 i s = ([], False, s)"
| "read_groups (Suc left) i s =
     (case (if 0 < left then read_separator (CHR '':'') i read_ipv4_addr s else None) of
        Some (a, s') \<Rightarrow> ([ucast (drop_bit 16 a), ucast a], True, s')
      | None \<Rightarrow>
          (case read_separator (CHR '':'') i (read_number 16 (Some 4) True 65535) s of
             None \<Rightarrow> ([], False, s)
           | Some (g, s') \<Rightarrow>
               let (gs, v4, s'') = read_groups left (Suc i) s' in (word_of_nat g # gs, v4, s'')))"

definition ipv6_of_groups :: "u16 list \<Rightarrow> u128" where
  "ipv6_of_groups gs = foldl (\<lambda>acc g. acc * 65536 + ucast g) 0 gs"

definition read_ipv6_addr :: "u128 reader" where
  "read_ipv6_addr s =
     (let (hd_gs, hd_v4, s') = read_groups 8 0 s
      in if length hd_gs = 8 then Some (ipv6_of_groups hd_gs, s')
         else if hd_v4 then None
         else case read_given_char (CHR '':'') s' of
                None \<Rightarrow> None
              | Some (_, s1) \<Rightarrow>
                  (case read_given_char (CHR '':'') s1 of
                     None \<Rightarrow> None
                   | Some (_, s2) \<Rightarrow>
                       let (tl_gs, _, s3) = read_groups (8 - (length hd_gs + 1)) 0 s2
                       in Some (ipv6_of_groups
                            (hd_gs @ replicate (8 - length hd_gs - length tl_gs) 0 @ tl_gs), s3)))"

definition read_ip_addr :: "ip_addr reader" where
  "read_ip_addr s =
     (case read_ipv4_addr s of
        Some (a, s') \<Rightarrow> Some (V4 a, s')
      | None \<Rightarrow> map_option (\<lambda>(a, s'). (V6 a, s')) (read_ipv6_addr s))"

definition read_port :: "u16 reader" where
  "read_port s =
     (case read_given_char (CHR '':'') s of
        None \<Rightarrow> None
      | Some (_, s') \<Rightarrow> map_option (\<lambda>(n, r). (word_of_nat n, r)) (read_number 10 None True 65535 s'))"

definition read_scope_id :: "u32 reader" where
  "read_scope_id s =
     (case read_given_char (CHR ''%'') s of
        None \<Rightarrow> None
      | Some (_, s') \<Rightarrow> map_option (\<lambda>(n, r). (word_of_nat n, r)) (read_number 10 None True 4294967295 s'))"

definition read_socket_addr_v4 :: "socket_addr reader" where
  "read_socket_addr_v4 s =
     (case read_ipv4_addr s of
        None \<Rightarrow> None
      | Some (a, s') \<Rightarrow> map_option (\<lambda>(p, r). (SockV4 a p, r)) (read_port s'))"

definition read_socket_addr_v6 :: "socket_addr reader" where
  "read_socket_addr_v6 s =
     (case read_given_char (CHR ''['') s of None \<Rightarrow> None | Some (_, s1) \<Rightarrow>
      (case read_ipv6_addr s1 of None \<Rightarrow> None | Some (a, s2) \<Rightarrow>
       (let (sid, s3) = (case read_scope_id s2 of None \<Rightarrow> (0, s2) | Some x \<Rightarrow> x)
        in (case read_given_char (CHR '']'') s3 of None \<Rightarrow> None | Some (_, s4) \<Rightarrow>
            map_option (\<lambda>(p, r). (SockV6 a p 0 sid, r)) (read_port s4)))))"

definition parse_with :: "'a reader \<Rightarrow> string \<Rightarrow> 'a option" where
  "parse_with rd s = (case rd s of Some (v, []) \<Rightarrow> Some v | _ \<Rightarrow> None)"

definition parse_ip_addr :: "string \<Rightarrow> ip_addr option" where
  "parse_ip_addr = parse_with read_ip_addr"

definition parse_ipv4_addr :: "string \<Rightarrow> u32 option" where
  "parse_ipv4_addr s = (if 15 < length s then None else parse_with read_ipv4_addr s)"

definition parse_ipv6_addr :: "string \<Rightarrow> u128 option" where
  "parse_ipv6_addr = parse_with read_ipv6_addr"

definition parse_socket_addr :: "string \<Rightarrow> socket_addr option" where
  "parse_socket_addr =
     parse_with (\<lambda>s. case read_socket_addr_v4 s of Some r \<Rightarrow> Some r | None \<Rightarrow> read_socket_addr_v6 s)"

section \<open>Printing addresses\<close>

definition show_ipv4 :: "u32 \<Rightarrow> string" where
  "show_ipv4 a = join ''.'' (map (\<lambda>b. show_nat (unat b)) (ipv4_octets a))"

text \<open>The eight 16-bit groups of an IPv6 address, and a group in hexadecimal without leading zeros.\<close>

definition segments :: "u128 \<Rightarrow> u16 list" where
  "segments a = map (\<lambda>i. ucast (drop_bit (16 * (7 - i)) a)) [0..<8]"

fun show_hex_nat :: "nat \<Rightarrow> string" where
  "show_hex_nat n = (if n < 16 then [hex_char n] else show_hex_nat (n div 16) @ [hex_char (n mod 16)])"

declare show_hex_nat.simps [simp del]

text \<open>
  The span of zero groups that is abbreviated: the longest one, the first of equals, found in one
  pass that remembers the longest and the current span as start and length.
\<close>

fun zero_span :: "u16 list \<Rightarrow> nat \<Rightarrow> nat \<times> nat \<Rightarrow> nat \<times> nat \<Rightarrow> nat \<times> nat" where
  "zero_span [] i longest current = longest"
| "zero_span (g # gs) i longest current =
     (if g = 0 then
        (let current' = (if snd current = 0 then i else fst current, Suc (snd current))
         in zero_span gs (Suc i) (if snd longest < snd current' then current' else longest) current')
      else zero_span gs (Suc i) longest (0, 0))"

definition fmt_subslice :: "u16 list \<Rightarrow> string" where
  "fmt_subslice gs = join '':'' (map (\<lambda>g. show_hex_nat (unat g)) gs)"

definition to_ipv4_mapped :: "u128 \<Rightarrow> u32 option" where
  "to_ipv4_mapped a = (if drop_bit 32 a = 0xffff then Some (ucast a) else None)"

definition show_ipv6 :: "u128 \<Rightarrow> string" where
  "show_ipv6 a =
     (case to_ipv4_mapped a of
        Some v4 \<Rightarrow> ''::ffff:'' @ show_ipv4 v4
      | None \<Rightarrow>
          let gs = segments a; (start, len) = zero_span gs 0 (0, 0) (0, 0)
          in if 1 < len then fmt_subslice (take start gs) @ ''::'' @ fmt_subslice (drop (start + len) gs)
             else fmt_subslice gs)"

definition show_ip :: "ip_addr \<Rightarrow> string" where
  "show_ip ip = (case ip of V4 a \<Rightarrow> show_ipv4 a | V6 a \<Rightarrow> show_ipv6 a)"

definition show_socket_addr :: "socket_addr \<Rightarrow> string" where
  "show_socket_addr sa =
     (case sa of
        SockV4 a p \<Rightarrow> show_ipv4 a @ '':'' @ show_nat (unat p)
      | SockV6 a p _ scope \<Rightarrow>
          ''['' @ show_ipv6 a @ (if scope = 0 then [] else ''%'' @ show_nat (unat scope)) @ '']:'' @ show_nat (unat p))"

section \<open>IPv4 networks\<close>

text \<open>The operations of the \<open>ipnet\<close> package the mesh uses on its network type.\<close>

record 'n ipv4net =
  net_parse :: "string \<Rightarrow> 'n option"
  net_contains :: "'n \<Rightarrow> u32 \<Rightarrow> bool"
  net_prefix_len :: "'n \<Rightarrow> nat"
  net_addr :: "'n \<Rightarrow> u32"

end
