(* ===== verification/Subnetra_Wire.thy ===== *)
theory Subnetra_Wire
  imports Rust_Net
begin

text \<open>
  Keys and datagrams of the Subnetra mesh (\<open>src/subnetra/crypto.rs\<close>, \<open>src/subnetra/wire.rs\<close>).
  The keyed hash and the AEAD are the \<open>blake2\<close> and \<open>ring\<close> packages; they are parameters,
  gathered in a record of operations, and \<open>crypto_ok\<close> names what the code relies on.
\<close>

section \<open>Primitives supplied by other packages\<close>

record crypto =
  blake2b :: "bytes \<Rightarrow> bytes \<Rightarrow> bytes"                  \<comment> \<open>key, message\<close>
  chacha_seal :: "bytes \<Rightarrow> bytes \<Rightarrow> bytes \<Rightarrow> bytes"     \<comment> \<open>key, nonce, plaintext\<close>
  chacha_open :: "bytes \<Rightarrow> bytes \<Rightarrow> bytes \<Rightarrow> bytes option"

definition KEY_LEN :: nat where "KEY_LEN = 32"
definition TAG_LEN :: nat where "TAG_LEN = 16"
definition HEADER_LEN :: nat where "HEADER_LEN = 20"
definition NONCE_LEN :: nat where "NONCE_LEN = 12"

text \<open>
  BLAKE2b-256 returns 32 bytes; ChaCha20-Poly1305 appends a 16-byte tag, and opening what was
  sealed under the same key and nonce returns the plaintext.
\<close>

definition crypto_ok :: "crypto \<Rightarrow> bool" where
  "crypto_ok C \<longleftrightarrow>
     (\<forall>k m. length (blake2b C k m) = KEY_LEN) \<and>
     (\<forall>k n p. length (chacha_seal C k n p) = length p + TAG_LEN) \<and>
     (\<forall>k n p. chacha_open C k n (chacha_seal C k n p) = Some p)"

section \<open>Key derivation\<close>

definition LABEL_LINK :: bytes where "LABEL_LINK = as_bytes ''subnetra-v1-link''"
definition LABEL_SESSION :: bytes where "LABEL_SESSION = as_bytes ''subnetra-v1-session''"
definition LABEL_OBFS :: bytes where "LABEL_OBFS = as_bytes ''subnetra-v1-obfs''"

definition blake2b_keyed :: "crypto \<Rightarrow> bytes \<Rightarrow> bytes list \<Rightarrow> bytes" where
  "blake2b_keyed C key parts = blake2b C key (concat parts)"

definition link_key :: "crypto \<Rightarrow> bytes \<Rightarrow> u16 \<Rightarrow> u16 \<Rightarrow> bytes" where
  "link_key C psk from_id to_id =
     blake2b_keyed C psk
       [LABEL_LINK, to_be_bytes 4 (ucast from_id :: u32), to_be_bytes 4 (ucast to_id :: u32)]"

definition session_key :: "crypto \<Rightarrow> bytes \<Rightarrow> u64 \<Rightarrow> bytes" where
  "session_key C lk ep = blake2b_keyed C lk [LABEL_SESSION, to_be_bytes 8 ep]"

definition obfuscation_pad :: "crypto \<Rightarrow> bytes \<Rightarrow> bytes \<Rightarrow> bytes" where
  "obfuscation_pad C lk tag = take HEADER_LEN (blake2b_keyed C lk [LABEL_OBFS, tag])"

definition nonce :: "u64 \<Rightarrow> bytes" where
  "nonce sq = to_le_bytes 8 sq @ replicate (NONCE_LEN - 8) 0"

datatype aead_key = AeadKey bytes

fun aead_seal :: "crypto \<Rightarrow> aead_key \<Rightarrow> u64 \<Rightarrow> bytes \<Rightarrow> bytes" where
  "aead_seal C (AeadKey k) sq plaintext = chacha_seal C k (nonce sq) plaintext"

fun aead_open :: "crypto \<Rightarrow> aead_key \<Rightarrow> u64 \<Rightarrow> bytes \<Rightarrow> bytes option" where
  "aead_open C (AeadKey k) sq body =
     (if length body < TAG_LEN then None else chacha_open C k (nonce sq) body)"

section \<open>Header\<close>

definition KEEPALIVE :: u8 where "KEEPALIVE = 0x01"
definition WIRE_VERSION :: u8 where "WIRE_VERSION = 1"

record header =
  h_version :: u8
  h_flags :: u8
  h_key_id :: u16
  h_epoch :: u64
  h_seq :: u64

definition header_parse :: "bytes \<Rightarrow> header option" where
  "header_parse bs =
     (if length bs < HEADER_LEN then None
      else Some \<lparr>h_version = bs ! 0, h_flags = bs ! 1,
                 h_key_id = from_le_bytes [bs ! 2, bs ! 3],
                 h_epoch = from_le_bytes (slice 4 12 bs),
                 h_seq = from_le_bytes (slice 12 20 bs)\<rparr>)"

definition header_to_bytes :: "header \<Rightarrow> bytes" where
  "header_to_bytes h =
     [h_version h, h_flags h] @ to_le_bytes 2 (h_key_id h) @
     to_le_bytes 8 (h_epoch h) @ to_le_bytes 8 (h_seq h)"

definition header_is_valid :: "header \<Rightarrow> bool" where
  "header_is_valid h \<longleftrightarrow>
     h_version h = WIRE_VERSION \<and> h_flags h AND NOT KEEPALIVE = 0 \<and> h_epoch h \<noteq> 0"

definition header_is_keepalive :: "header \<Rightarrow> bool" where
  "header_is_keepalive h \<longleftrightarrow> h_flags h AND KEEPALIVE \<noteq> 0"

section \<open>Datagrams\<close>

definition datagram_tag :: "bytes \<Rightarrow> bytes option" where
  "datagram_tag dg =
     (if length dg < HEADER_LEN + TAG_LEN then None else Some (drop (length dg - TAG_LEN) dg))"

definition demask_header :: "bytes \<Rightarrow> bytes \<Rightarrow> bytes" where
  "demask_header masked pad = map (\<lambda>i. masked ! i XOR pad ! i) [0..<HEADER_LEN]"

definition seal_datagram ::
  "crypto \<Rightarrow> bytes \<Rightarrow> aead_key \<Rightarrow> u16 \<Rightarrow> u64 \<Rightarrow> u64 \<Rightarrow> u8 \<Rightarrow> bytes \<Rightarrow> bool \<Rightarrow> bytes" where
  "seal_datagram C lk aead local_id ep sq fl plaintext obfuscate =
     (let hdr = header_to_bytes \<lparr>h_version = WIRE_VERSION, h_flags = fl, h_key_id = local_id,
                                 h_epoch = ep, h_seq = sq\<rparr>;
          body = aead_seal C aead sq plaintext;
          datagram = hdr @ body
      in if obfuscate then
           let tag = drop (length body - TAG_LEN) body;
               pad = obfuscation_pad C lk tag
           in map (\<lambda>i. datagram ! i XOR pad ! i) [0..<HEADER_LEN] @ drop HEADER_LEN datagram
         else datagram)"

definition split :: "bytes \<Rightarrow> (bytes \<times> bytes) option" where
  "split dg =
     (if length dg < HEADER_LEN + TAG_LEN then None
      else Some (take HEADER_LEN dg, drop HEADER_LEN dg))"

section \<open>Header round trip\<close>

lemmas wire_len_defs = KEY_LEN_def TAG_LEN_def HEADER_LEN_def NONCE_LEN_def

lemma length_header_to_bytes [simp, codec_simps]: "length (header_to_bytes h) = HEADER_LEN"
  by (simp add: header_to_bytes_def HEADER_LEN_def)

lemma two_nth: "length xs = 2 \<Longrightarrow> [xs ! 0, xs ! 1] = xs"
  by (cases xs rule: list.exhaust; cases "tl xs"; auto)

lemma header_parse_to_bytes: "header_parse (header_to_bytes h @ rest) = Some h"
proof -
  let ?k = "to_le_bytes 2 (h_key_id h)"
  have "(header_to_bytes h @ rest) ! 2 = ?k ! 0" "(header_to_bytes h @ rest) ! 3 = ?k ! 1"
    by (simp_all add: header_to_bytes_def nth_append nth_Cons')
  then have "[(header_to_bytes h @ rest) ! 2, (header_to_bytes h @ rest) ! 3] = ?k"
    by (metis two_nth length_to_le_bytes)
  moreover have "slice 4 12 (header_to_bytes h @ rest) = to_le_bytes 8 (h_epoch h)"
    "slice 12 20 (header_to_bytes h @ rest) = to_le_bytes 8 (h_seq h)"
    by (simp_all add: header_to_bytes_def slice_def)
  ultimately show ?thesis
    by (simp add: header_parse_def) (simp add: header_to_bytes_def)
qed

lemma header_parse_take: "header_parse (take HEADER_LEN bs) = header_parse bs"
proof (cases "length bs < HEADER_LEN")
  case False
  then have "slice 4 12 (take 20 bs) = slice 4 12 bs" "slice 12 20 (take 20 bs) = slice 12 20 bs"
    by (simp_all add: slice_def drop_take min_def HEADER_LEN_def)
  with False show ?thesis by (simp add: header_parse_def HEADER_LEN_def)
qed (simp add: header_parse_def)

lemma header_to_bytes_parse:
  assumes "header_parse bs = Some h"
  shows "header_to_bytes h = take HEADER_LEN bs"
proof -
  have len: "20 \<le> length bs"
    using assms by (auto simp: header_parse_def HEADER_LEN_def split: if_splits)
  have h: "h = \<lparr>h_version = bs ! 0, h_flags = bs ! 1, h_key_id = from_le_bytes [bs ! 2, bs ! 3],
                h_epoch = from_le_bytes (slice 4 12 bs), h_seq = from_le_bytes (slice 12 20 bs)\<rparr>"
    using assms by (auto simp: header_parse_def split: if_splits)
  have k: "to_le_bytes 2 (from_le_bytes [bs ! 2, bs ! 3] :: u16) = [bs ! 2, bs ! 3]"
    using to_from_le_bytes [where 'a = 16, of "[bs ! 2, bs ! 3]"] by (simp add: eval_nat_numeral)
  have e: "to_le_bytes 8 (from_le_bytes (slice a (a + 8) bs) :: u64) = slice a (a + 8) bs"
    if "a + 8 \<le> 20" for a
    using to_from_le_bytes [where 'a = 64, of "slice a (a + 8) bs"] len that by simp
  have "header_to_bytes h = map ((!) bs) [0..<4] @ slice 4 12 bs @ slice 12 20 bs"
    using k e [of 4] e [of 12] by (simp add: h header_to_bytes_def upt_rec numeral_2_eq_2 numeral_3_eq_3)
  also have "\<dots> = take 4 bs @ slice 4 12 bs @ slice 12 20 bs"
    using len by (simp add: take_nth_conv)
  also have "\<dots> = take 20 bs"
    using take_add [of 4 16 bs] take_add [of 8 8 "drop 4 bs"] by (simp add: slice_def)
  finally show ?thesis by (simp add: HEADER_LEN_def)
qed

definition header_read :: "bytes \<Rightarrow> (header \<times> bytes) option" where
  "header_read bs = map_option (\<lambda>h. (h, drop HEADER_LEN bs)) (header_parse bs)"

interpretation header_codec: codec header_to_bytes header_read "\<lambda>_. True"
  by unfold_locales (simp add: header_read_def header_parse_to_bytes)

section \<open>Obfuscation and sealing\<close>

lemma xor_mask_twice:
  assumes "length xs = HEADER_LEN" and "HEADER_LEN \<le> length pad"
  shows "demask_header (map (\<lambda>i. (xs @ ys) ! i XOR pad ! i) [0..<HEADER_LEN]) pad = xs"
proof -
  have "demask_header (map (\<lambda>i. (xs @ ys) ! i XOR pad ! i) [0..<HEADER_LEN]) pad
          = map (\<lambda>i. xs ! i) [0..<HEADER_LEN]"
    using assms(1)
    by (auto simp: demask_header_def nth_append xor.assoc intro!: map_cong)
  also have "\<dots> = xs"
    using assms(1) take_nth_conv [of HEADER_LEN xs] by simp
  finally show ?thesis .
qed

lemma length_obfuscation_pad: "crypto_ok C \<Longrightarrow> length (obfuscation_pad C lk tag) = HEADER_LEN"
  by (simp add: obfuscation_pad_def blake2b_keyed_def crypto_ok_def wire_len_defs)

lemma length_aead_seal: "crypto_ok C \<Longrightarrow> length (aead_seal C k sq p) = length p + TAG_LEN"
  by (cases k) (simp add: crypto_ok_def)

lemma aead_open_seal: "crypto_ok C \<Longrightarrow> aead_open C k sq (aead_seal C k sq p) = Some p"
  using length_aead_seal [of C k sq p] by (cases k) (simp add: crypto_ok_def)

lemma drop_HEADER_seal_datagram:
  "drop HEADER_LEN (seal_datagram C lk k lid ep sq fl p obf) = aead_seal C k sq p"
  by (simp add: seal_datagram_def Let_def)

lemma length_seal_datagram:
  "crypto_ok C \<Longrightarrow> length (seal_datagram C lk k lid ep sq fl p obf) = HEADER_LEN + length p + TAG_LEN"
  by (simp add: seal_datagram_def Let_def length_aead_seal)

lemma datagram_tag_seal:
  assumes "crypto_ok C"
  shows "datagram_tag (seal_datagram C lk k lid ep sq fl p obf) =
           Some (drop (length p) (aead_seal C k sq p))"
proof -
  let ?dg = "seal_datagram C lk k lid ep sq fl p obf"
  have "drop (length ?dg - TAG_LEN) ?dg = drop (length p) (drop HEADER_LEN ?dg)"
    by (simp add: length_seal_datagram [OF assms] add.commute)
  then show ?thesis
    by (simp add: datagram_tag_def length_seal_datagram [OF assms] drop_HEADER_seal_datagram)
qed

lemma seal_datagram_header:
  assumes "crypto_ok C"
  shows "header_parse
           (if obf
            then demask_header (take HEADER_LEN (seal_datagram C lk k lid ep sq fl p obf))
                   (obfuscation_pad C lk (drop (length p) (aead_seal C k sq p)))
            else take HEADER_LEN (seal_datagram C lk k lid ep sq fl p obf)) =
         Some \<lparr>h_version = WIRE_VERSION, h_flags = fl, h_key_id = lid, h_epoch = ep, h_seq = sq\<rparr>"
proof (cases obf)
  case False
  then show ?thesis
    by (simp add: seal_datagram_def Let_def header_parse_to_bytes [where rest = "[]", simplified])
next
  case True
  then show ?thesis
    using length_obfuscation_pad [OF assms]
    by (simp add: seal_datagram_def Let_def xor_mask_twice length_aead_seal [OF assms]
        header_parse_to_bytes [where rest = "[]", simplified])
qed

declare aead_seal.simps [simp del] aead_open.simps [simp del]

text \<open>
  The 20-byte header is a bijection between header values and their wire form: parsing
  what was serialized returns it whatever follows, a parsed header serializes back to the
  bytes it was read from, and only slices shorter than 20 bytes fail to parse.
\<close>

lemma header_round_trip:
  "header_parse (header_to_bytes h @ rest) = Some h \<and>
   (case header_parse bs of Some h' \<Rightarrow> header_to_bytes h' = take HEADER_LEN bs
    | None \<Rightarrow> length bs < HEADER_LEN)"
  using header_parse_to_bytes header_to_bytes_parse
  by (auto simp: header_parse_def split: option.splits if_splits)

text \<open>
  C28: a sealed datagram, obfuscated or not, can be taken apart again by a receiver that knows
  the link key: the tag is readable in the clear, de-masking the first 20 bytes with the pad
  derived from it recovers exactly the header the sender wrote, and the body opens to the
  plaintext. Relies on the stated behaviour of the hash and the AEAD.
\<close>

theorem seal_datagram_recoverable:
  assumes "crypto_ok C"
  shows "\<exists>tag hdr body.
    datagram_tag (seal_datagram C lk k lid ep sq fl p obf) = Some tag \<and>
    split (seal_datagram C lk k lid ep sq fl p obf) = Some (hdr, body) \<and>
    header_parse (if obf then demask_header hdr (obfuscation_pad C lk tag) else hdr) =
      Some \<lparr>h_version = WIRE_VERSION, h_flags = fl, h_key_id = lid, h_epoch = ep, h_seq = sq\<rparr> \<and>
    aead_open C k sq body = Some p"
  using seal_datagram_header [OF assms] datagram_tag_seal [OF assms] aead_open_seal [OF assms]
  by (simp add: split_def length_seal_datagram [OF assms] drop_HEADER_seal_datagram)

text \<open>A transparent instance of the primitives, for concrete evaluation.\<close>

definition demo_crypto :: crypto where
  "demo_crypto =
     \<lparr>blake2b = \<lambda>k m. take 32 (m @ k @ replicate 32 7),
      chacha_seal = \<lambda>k n p. p @ take 16 (n @ take 4 k @ replicate 16 9),
      chacha_open = \<lambda>k n b.
        let m = length b - 16
        in if drop m b = take 16 (n @ take 4 k @ replicate 16 9) then Some (take m b) else None\<rparr>"

lemma demo_crypto_ok: "crypto_ok demo_crypto"
  by (auto simp: crypto_ok_def demo_crypto_def wire_len_defs Let_def min_def)

theorem seal_datagram_recoverable_witness:
  "crypto_ok demo_crypto \<and>
   (\<exists>tag hdr body.
    datagram_tag (seal_datagram demo_crypto [1] (AeadKey [2]) 7 5 3 0 [10, 11] True) = Some tag \<and>
    split (seal_datagram demo_crypto [1] (AeadKey [2]) 7 5 3 0 [10, 11] True) = Some (hdr, body) \<and>
    header_parse (if True then demask_header hdr (obfuscation_pad demo_crypto [1] tag) else hdr) =
      Some \<lparr>h_version = WIRE_VERSION, h_flags = 0, h_key_id = 7, h_epoch = 5, h_seq = 3\<rparr> \<and>
    aead_open demo_crypto (AeadKey [2]) 3 body = Some [10, 11])"
  using demo_crypto_ok seal_datagram_recoverable [OF demo_crypto_ok] by blast

end
