(* ===== verification/Subnetra_Session.thy ===== *)
theory Subnetra_Session
  imports Subnetra_Replay Subnetra_Wire
begin

text \<open>
  Per-link session state of the Subnetra mesh (\<open>src/subnetra/session.rs\<close>): the receiving half
  with its forward-only epoch and replay window, and the sending half with its sequence counter.
\<close>

section \<open>Receiving half\<close>

datatype rx_outcome = Accept bytes | Drop

record rx_session =
  rx_lk :: bytes
  cur_epoch :: u64
  cur_key :: "aead_key option"
  replay :: replay_window

definition rx_new :: "bytes \<Rightarrow> rx_session" where
  "rx_new lk = \<lparr>rx_lk = lk, cur_epoch = 0, cur_key = None, replay = replay_new\<rparr>"

definition with_epoch :: "crypto \<Rightarrow> bytes \<Rightarrow> u64 \<Rightarrow> rx_session" where
  "with_epoch C lk ep =
     (let s = rx_new lk
      in if ep \<noteq> 0 then s\<lparr>cur_epoch := ep, cur_key := Some (AeadKey (session_key C lk ep))\<rparr> else s)"

definition accept :: "crypto \<Rightarrow> rx_session \<Rightarrow> header \<Rightarrow> bytes \<Rightarrow> rx_outcome \<times> rx_session" where
  "accept C s h body =
     (if h_epoch h < cur_epoch s then (Drop, s)
      else if h_epoch h = cur_epoch s then
        (case cur_key s of
           None \<Rightarrow> (Drop, s)
         | Some key \<Rightarrow>
             (case aead_open C key (h_seq h) body of
                None \<Rightarrow> (Drop, s)
              | Some pt \<Rightarrow>
                  let (ok, w) = check_and_set (replay s) (h_seq h)
                  in (if ok then Accept pt else Drop, s\<lparr>replay := w\<rparr>)))
      else
        let candidate = AeadKey (session_key C (rx_lk s) (h_epoch h))
        in (case aead_open C candidate (h_seq h) body of
              None \<Rightarrow> (Drop, s)
            | Some pt \<Rightarrow>
                let (ok, w) = check_and_set (reset (replay s)) (h_seq h)
                in (if ok then Accept pt else Drop,
                    s\<lparr>cur_epoch := h_epoch h, cur_key := Some candidate, replay := w\<rparr>)))"

fun rx_run :: "crypto \<Rightarrow> rx_session \<Rightarrow> (header \<times> bytes) list \<Rightarrow> rx_outcome list \<times> rx_session" where
  "rx_run C s [] = ([], s)"
| "rx_run C s ((h, body) # ds) =
     (let (out, s') = accept C s h body; (outs, s'') = rx_run C s' ds in (out # outs, s''))"

section \<open>Sending half\<close>

record tx_session =
  tx_lk :: bytes
  tx_epoch :: u64
  tx_key :: aead_key
  tx_local_id :: u16
  next_seq :: u64
  tx_obfuscate :: bool

definition tx_new :: "crypto \<Rightarrow> bytes \<Rightarrow> u16 \<Rightarrow> u64 \<Rightarrow> bool \<Rightarrow> tx_session" where
  "tx_new C lk lid ep obf =
     \<lparr>tx_lk = lk, tx_epoch = ep, tx_key = AeadKey (session_key C lk ep), tx_local_id = lid,
      next_seq = 1, tx_obfuscate = obf\<rparr>"

definition saturating_succ :: "u64 \<Rightarrow> u64" where
  "saturating_succ q = (if q = - 1 then q else q + 1)"   \<comment> \<open>\<open>u64::MAX\<close> is \<open>- 1\<close>\<close>

definition seal :: "crypto \<Rightarrow> tx_session \<Rightarrow> u8 \<Rightarrow> bytes \<Rightarrow> bytes \<times> tx_session" where
  "seal C t fl plaintext =
     (let sq = next_seq t
      in (seal_datagram C (tx_lk t) (tx_key t) (tx_local_id t) (tx_epoch t) sq fl plaintext
            (tx_obfuscate t),
          t\<lparr>next_seq := saturating_succ sq\<rparr>))"

fun seal_all :: "crypto \<Rightarrow> tx_session \<Rightarrow> (u8 \<times> bytes) list \<Rightarrow> bytes list \<times> tx_session" where
  "seal_all C t [] = ([], t)"
| "seal_all C t ((fl, p) # ps) =
     (let (dg, t') = seal C t fl p; (dgs, t'') = seal_all C t' ps in (dg # dgs, t''))"

section \<open>Invariant of the receiving half\<close>

text \<open>
  The cached key belongs to the current epoch; the history \<open>H\<close> of accepted (epoch, number)
  pairs never lies above the current epoch, and the window has seen exactly its numbers.
\<close>

definition rx_key_ok :: "crypto \<Rightarrow> rx_session \<Rightarrow> bool" where
  "rx_key_ok C s \<longleftrightarrow>
     cur_key s = (if cur_epoch s = 0 then None
                  else Some (AeadKey (session_key C (rx_lk s) (cur_epoch s))))"

definition rx_inv :: "crypto \<Rightarrow> rx_session \<Rightarrow> (u64 \<times> u64) set \<Rightarrow> bool" where
  "rx_inv C s H \<longleftrightarrow>
     rx_key_ok C s \<and> (\<forall>(e, q) \<in> H. e \<le> cur_epoch s) \<and>
     window_seen (replay s) {q. (cur_epoch s, q) \<in> H}"

lemma rx_inv_new: "rx_inv C (rx_new lk) {}"
  by (simp add: rx_inv_def rx_key_ok_def rx_new_def rw.seen_start)

lemma rx_inv_with_epoch: "rx_inv C (with_epoch C lk ep) {}"
  by (simp add: rx_inv_def rx_key_ok_def with_epoch_def rx_new_def rw.seen_start Let_def)

text \<open>The three branches of the epoch comparison.\<close>

lemma accept_older: "h_epoch h < cur_epoch s \<Longrightarrow> accept C s h body = (Drop, s)"
  by (simp add: accept_def)

lemma accept_same_epoch:
  "h_epoch h = cur_epoch s \<Longrightarrow> accept C s h body =
     (case cur_key s of None \<Rightarrow> (Drop, s) | Some key \<Rightarrow>
        (case aead_open C key (h_seq h) body of None \<Rightarrow> (Drop, s) | Some pt \<Rightarrow>
           (if fst (check_and_set (replay s) (h_seq h)) then Accept pt else Drop,
            s\<lparr>replay := snd (check_and_set (replay s) (h_seq h))\<rparr>)))"
  by (simp add: accept_def case_prod_beta Let_def split: option.splits)

lemma accept_newer_epoch:
  assumes "cur_epoch s < h_epoch h"
  shows "\<exists>w. window_seen w {h_seq h} \<and> accept C s h body =
     (case aead_open C (AeadKey (session_key C (rx_lk s) (h_epoch h))) (h_seq h) body of
        None \<Rightarrow> (Drop, s)
      | Some pt \<Rightarrow>
          (Accept pt, s\<lparr>cur_epoch := h_epoch h,
             cur_key := Some (AeadKey (session_key C (rx_lk s) (h_epoch h))), replay := w\<rparr>))"
proof -
  obtain w where "check_and_set (reset (replay s)) (h_seq h) = (True, w)"
    and "window_seen w {h_seq h}"
    using rw.renewed_admits by blast
  moreover have "\<not> h_epoch h < cur_epoch s" "h_epoch h \<noteq> cur_epoch s"
    using assms by auto
  ultimately show ?thesis
    by (auto simp: accept_def Let_def cong: option.case_cong intro!: exI [of _ w])
qed

lemma accept_Drop_unchanged:
  assumes "accept C s h body = (Drop, s')"
  shows "s' = s"
proof -
  consider "h_epoch h < cur_epoch s" | "h_epoch h = cur_epoch s" | "cur_epoch s < h_epoch h"
    by fastforce
  then show ?thesis
  proof cases
    case 1
    with assms show ?thesis by (simp add: accept_older)
  next
    case 2
    with assms show ?thesis
      by (cases "check_and_set (replay s) (h_seq h)")
        (auto simp: accept_same_epoch split: option.splits if_splits dest: check_and_set_unchanged)
  next
    case 3
    from accept_newer_epoch [OF this, of C body] assms show ?thesis
      by (auto split: option.splits)
  qed
qed

lemma accept_rx_lk [simp]: "rx_lk (snd (accept C s h body)) = rx_lk s"
  by (auto simp: accept_def Let_def split: option.splits prod.splits)

lemma accept_authentic:
  assumes "rx_key_ok C s" and "accept C s h body = (out, s')"
  shows "rx_key_ok C s'"
    and "out = Accept pt \<Longrightarrow>
      aead_open C (AeadKey (session_key C (rx_lk s) (h_epoch h))) (h_seq h) body = Some pt"
proof -
  have "rx_key_ok C s' \<and> (out = Accept pt \<longrightarrow>
      aead_open C (AeadKey (session_key C (rx_lk s) (h_epoch h))) (h_seq h) body = Some pt)" for pt
  proof (cases "cur_epoch s < h_epoch h")
    case True
    from accept_newer_epoch [OF this, of C body] assms True show ?thesis
      by (auto simp: rx_key_ok_def split: option.splits)
  next
    case False
    then consider "h_epoch h < cur_epoch s" | "h_epoch h = cur_epoch s" by fastforce
    then show ?thesis
      using assms
      by cases (auto simp: accept_older accept_same_epoch rx_key_ok_def split: option.splits if_splits)
  qed
  then show "rx_key_ok C s'"
    and "out = Accept pt \<Longrightarrow>
      aead_open C (AeadKey (session_key C (rx_lk s) (h_epoch h))) (h_seq h) body = Some pt"
    by blast+
qed

text \<open>What taking up a datagram means: it is new, authentic, and of the epoch now current.\<close>

definition rx_took ::
  "crypto \<Rightarrow> rx_session \<Rightarrow> (u64 \<times> u64) set \<Rightarrow> header \<Rightarrow> bytes \<Rightarrow> bytes \<Rightarrow> rx_session \<Rightarrow> bool" where
  "rx_took C s H h body pt s' \<longleftrightarrow>
     (h_epoch h, h_seq h) \<notin> H \<and> rx_inv C s' (insert (h_epoch h, h_seq h) H) \<and>
     cur_epoch s' = h_epoch h \<and> cur_epoch s \<le> h_epoch h \<and> h_epoch h \<noteq> 0 \<and>
     aead_open C (AeadKey (session_key C (rx_lk s) (h_epoch h))) (h_seq h) body = Some pt"

lemma accept_step_newer:
  assumes "rx_inv C s H" and "accept C s h body = (Accept pt, s')" and newer: "cur_epoch s < h_epoch h"
  shows "rx_took C s H h body pt s'"
proof -
  let ?key = "AeadKey (session_key C (rx_lk s) (h_epoch h))"
  obtain w where w: "window_seen w {h_seq h}" and eq: "accept C s h body =
     (case aead_open C ?key (h_seq h) body of None \<Rightarrow> (Drop, s)
      | Some pt \<Rightarrow> (Accept pt, s\<lparr>cur_epoch := h_epoch h, cur_key := Some ?key, replay := w\<rparr>))"
    using accept_newer_epoch [OF newer] by blast
  then have op: "aead_open C ?key (h_seq h) body = Some pt"
    and s': "s' = s\<lparr>cur_epoch := h_epoch h, cur_key := Some ?key, replay := w\<rparr>"
    using assms(2) by (cases "aead_open C ?key (h_seq h) body"; simp)+
  have old: "(h_epoch h, q) \<notin> H" for q
    using assms(1) newer by (auto simp: rx_inv_def)
  then have "{q. (h_epoch h, q) \<in> insert (h_epoch h, h_seq h) H} = {h_seq h}" by auto
  with w have seen: "window_seen w {q. (h_epoch h, q) \<in> insert (h_epoch h, h_seq h) H}" by (simp only:)
  have below: "\<forall>(e, q) \<in> insert (h_epoch h, h_seq h) H. e \<le> h_epoch h"
    using assms(1) newer by (auto simp: rx_inv_def)
  have nz: "h_epoch h \<noteq> 0" using newer by auto
  have "rx_inv C s' (insert (h_epoch h, h_seq h) H)"
    unfolding rx_inv_def rx_key_ok_def s' using seen below nz by (simp del: insert_iff)
  then show ?thesis
    using newer old op nz by (simp add: rx_took_def s')
qed

lemma accept_step_same:
  assumes "rx_inv C s H" and "accept C s h body = (Accept pt, s')" and same: "h_epoch h = cur_epoch s"
  shows "rx_took C s H h body pt s'"
proof -
  obtain key w where key: "cur_key s = Some key"
    and op: "aead_open C key (h_seq h) body = Some pt"
    and ok: "check_and_set (replay s) (h_seq h) = (True, w)"
    and s': "s' = s\<lparr>replay := w\<rparr>"
    using assms(2) same
    by (cases "check_and_set (replay s) (h_seq h)")
      (auto simp: accept_same_epoch split: option.splits if_splits)
  have nz: "cur_epoch s \<noteq> 0" and k: "key = AeadKey (session_key C (rx_lk s) (cur_epoch s))"
    using assms(1) key by (auto simp: rx_inv_def rx_key_ok_def split: if_splits)
  have "window_seen (replay s) {q. (cur_epoch s, q) \<in> H}"
    using assms(1) by (simp add: rx_inv_def)
  from rw.admit_fresh [OF this ok]
  have fresh: "(cur_epoch s, h_seq h) \<notin> H"
    and seen: "window_seen w (insert (h_seq h) {q. (cur_epoch s, q) \<in> H})" by auto
  have "{q. (cur_epoch s, q) \<in> insert (cur_epoch s, h_seq h) H} =
      insert (h_seq h) {q. (cur_epoch s, q) \<in> H}" by auto
  with seen have seen': "window_seen w {q. (cur_epoch s, q) \<in> insert (cur_epoch s, h_seq h) H}"
    by (simp only:)
  have below: "\<forall>(e, q) \<in> insert (cur_epoch s, h_seq h) H. e \<le> cur_epoch s"
    using assms(1) by (auto simp: rx_inv_def)
  have "rx_inv C s' (insert (cur_epoch s, h_seq h) H)"
    unfolding rx_inv_def rx_key_ok_def s' using seen' below nz key k by (simp del: insert_iff)
  then show ?thesis
    using same fresh op k nz by (simp add: rx_took_def s')
qed

lemma accept_step:
  assumes "rx_inv C s H" and "accept C s h body = (Accept pt, s')"
  shows "rx_took C s H h body pt s'"
proof -
  have "\<not> h_epoch h < cur_epoch s"
    using assms(2) by (auto simp: accept_def)
  then show ?thesis
    using accept_step_newer [OF assms] accept_step_same [OF assms] by (cases "h_epoch h = cur_epoch s") auto
qed

section \<open>Runs of the receiving half\<close>

fun took :: "rx_outcome list \<Rightarrow> (header \<times> bytes) list \<Rightarrow> (u64 \<times> u64) list" where
  "took (Accept pt # outs) ((h, body) # ds) = (h_epoch h, h_seq h) # took outs ds"
| "took (Drop # outs) (d # ds) = took outs ds"
| "took outs ds = []"

lemma rx_run_took:
  "rx_inv C s H \<Longrightarrow>
     distinct (took (fst (rx_run C s ds)) ds) \<and> set (took (fst (rx_run C s ds)) ds) \<inter> H = {} \<and>
     rx_inv C (snd (rx_run C s ds)) (H \<union> set (took (fst (rx_run C s ds)) ds)) \<and>
     sorted (cur_epoch s # map fst (took (fst (rx_run C s ds)) ds))"
proof (induction C s ds arbitrary: H rule: rx_run.induct)
  case (1 C s)
  then show ?case by simp
next
  case (2 C s h body ds)
  obtain out s' where step: "accept C s h body = (out, s')" by fastforce
  show ?case
  proof (cases out)
    case Drop
    with step accept_Drop_unchanged have "s' = s" by blast
    with "2.IH" [OF step [symmetric] refl] "2.prems" step Drop show ?thesis
      by (auto simp: case_prod_beta)
  next
    case (Accept pt)
    with accept_step "2.prems" step have t: "rx_took C s H h body pt s'" by blast
    with "2.IH" [OF step [symmetric] refl, of "insert (h_epoch h, h_seq h) H"] step Accept
    show ?thesis
      by (auto simp: case_prod_beta rx_took_def)
  qed
qed

section \<open>Sequence numbers of the sending half\<close>

lemma saturating_succ_nat: "n < 2 ^ 64 - 1 \<Longrightarrow> saturating_succ (word_of_nat n) = word_of_nat (Suc n)"
proof -
  assume "n < 2 ^ 64 - 1"
  then have "(word_of_nat n :: u64) \<noteq> - 1"
    by (auto simp: word_unat_eq_iff unsigned_minus_1_eq_mask mask_eq_exp_minus_1 unat_of_nat)
  then show ?thesis by (simp add: saturating_succ_def add.commute)
qed

lemma seal_all_spec:
  assumes "next_seq t = word_of_nat n" and "n + length ps < 2 ^ 64"
  shows "seal_all C t ps =
    (map (\<lambda>(i, fl, p). seal_datagram C (tx_lk t) (tx_key t) (tx_local_id t) (tx_epoch t)
            (word_of_nat (n + i)) fl p (tx_obfuscate t)) (enumerate 0 ps),
     t\<lparr>next_seq := word_of_nat (n + length ps)\<rparr>)"
  using assms
proof (induction C t ps arbitrary: n rule: seal_all.induct)
  case (1 C t)
  then show ?case by simp
next
  case (2 C t fl p ps)
  have "next_seq (snd (seal C t fl p)) = word_of_nat (Suc n)" and "Suc n + length ps < 2 ^ 64"
    using "2.prems" by (simp_all add: seal_def Let_def saturating_succ_nat)
  from "2.IH" [OF refl prod.collapse this] show ?case
    using "2.prems"
    by (simp add: seal_def Let_def case_prod_beta enumerate_Suc_eq comp_def saturating_succ_nat ac_simps)
qed

section \<open>Delivery over one link\<close>

text \<open>What a receiver that knows the link key hands to its session for one datagram.\<close>

definition link_recv :: "crypto \<Rightarrow> bytes \<Rightarrow> bool \<Rightarrow> bytes \<Rightarrow> header \<times> bytes" where
  "link_recv C lk obf dg =
     (let clear = (if obf
                   then demask_header (take HEADER_LEN dg) (obfuscation_pad C lk (the (datagram_tag dg)))
                   else take HEADER_LEN dg)
      in (the (header_parse clear), drop HEADER_LEN dg))"

lemma link_recv_seal:
  assumes "crypto_ok C"
  shows "link_recv C lk obf (seal_datagram C lk k lid ep sq fl p obf) =
    (\<lparr>h_version = WIRE_VERSION, h_flags = fl, h_key_id = lid, h_epoch = ep, h_seq = sq\<rparr>,
     aead_seal C k sq p)"
  using seal_datagram_header [OF assms, where obf = obf]
  by (cases obf) (simp_all add: link_recv_def Let_def datagram_tag_seal [OF assms] drop_HEADER_seal_datagram)

lemma rx_run_same_epoch:
  assumes "crypto_ok C" and "cur_epoch s = ep" and "cur_key s = Some key"
    and "window_abs (replay s) A"
  shows "fst (rx_run C s (map (\<lambda>(h, sq, p). (h\<lparr>h_epoch := ep, h_seq := sq\<rparr>, aead_seal C key sq p)) ms)) =
    map2 (\<lambda>ok (h, sq, p). if ok then Accept p else Drop) (spec_run A (map (\<lambda>(h, sq, p). unat sq) ms)) ms"
  using assms(2-4)
proof (induction ms arbitrary: s A)
  case Nil
  then show ?case by simp
next
  case (Cons m ms)
  obtain h sq p where m: "m = (h, sq, p)" by (cases m)
  let ?A' = "if spec_fresh A (unat sq) then insert (unat sq) A else A"
  obtain ok w where w: "check_and_set (replay s) sq = (ok, w)" by fastforce
  have ok: "ok = spec_fresh A (unat sq)" and abs: "window_abs w ?A'"
    using check_and_set_refines [OF Cons.prems(3), of sq] w by simp_all
  have "accept C s (h\<lparr>h_epoch := ep, h_seq := sq\<rparr>) (aead_seal C key sq p) =
      (if ok then Accept p else Drop, s\<lparr>replay := w\<rparr>)"
    using Cons.prems w by (simp add: accept_same_epoch aead_open_seal [OF assms(1)])
  with Cons.IH [of "s\<lparr>replay := w\<rparr>" ?A'] Cons.prems ok abs show ?case
    by (simp add: m case_prod_beta)
qed

lemma rx_run_first_epoch:
  assumes "crypto_ok C" and "ep \<noteq> 0"
  shows "fst (rx_run C (rx_new lk)
      (map (\<lambda>(h, sq, p). (h\<lparr>h_epoch := ep, h_seq := sq\<rparr>, aead_seal C (AeadKey (session_key C lk ep)) sq p)) ms)) =
    map2 (\<lambda>ok (h, sq, p). if ok then Accept p else Drop) (spec_run {} (map (\<lambda>(h, sq, p). unat sq) ms)) ms"
proof (cases ms)
  case Nil
  then show ?thesis by simp
next
  case (Cons m ms')
  obtain h sq p where m: "m = (h, sq, p)" by (cases m)
  let ?key = "AeadKey (session_key C lk ep)" and ?h = "h\<lparr>h_epoch := ep, h_seq := sq\<rparr>"
  have "cur_epoch (rx_new lk) < h_epoch ?h"
    using assms(2) by (simp add: rx_new_def word_gt_0)
  from accept_newer_epoch [OF this, of C "aead_seal C ?key sq p"] obtain w where
    seen: "window_seen w {sq}" and
    step: "accept C (rx_new lk) ?h (aead_seal C ?key sq p) =
       (Accept p, (rx_new lk)\<lparr>cur_epoch := ep, cur_key := Some ?key, replay := w\<rparr>)"
    by (auto simp: aead_open_seal [OF assms(1)] rx_new_def)
  then show ?thesis
    using rx_run_same_epoch [OF assms(1),
        of "(rx_new lk)\<lparr>cur_epoch := ep, cur_key := Some ?key, replay := w\<rparr>" ep ?key "{unat sq}" ms']
    by (simp add: Cons m case_prod_beta window_seen_def)
qed

lemma seal_all_new:
  assumes "length ps < 2 ^ 64 - 1" and "j < length ps"
  shows "fst (seal_all C (tx_new C lk lid ep obf) ps) ! j =
    seal_datagram C lk (AeadKey (session_key C lk ep)) lid ep (word_of_nat (Suc j))
      (fst (ps ! j)) (snd (ps ! j)) obf"
  using seal_all_spec [of "tx_new C lk lid ep obf" 1 ps C] assms
  by (simp add: tx_new_def case_prod_beta nth_enumerate_eq)

lemma rx_lk_run [simp]: "rx_lk (snd (rx_run C s ds)) = rx_lk s"
proof (induction C s ds rule: rx_run.induct)
  case (2 C s h body ds)
  from "2.IH" [OF refl prod.collapse] show ?case by (simp add: case_prod_beta)
qed simp

lemma inj_nonce: "inj nonce"
  by (rule injI) (metis nonce_def append_same_eq le_bytes_u64 )

text \<open>
  C16: a link session authenticates before it moves. Whatever traffic came before, a dropped
  datagram leaves the session exactly as it was, and an accepted one opened under the key
  derived for its own epoch; that epoch is not below the current one and becomes current.
\<close>

theorem accept_authenticates_before_state:
  "let s = snd (rx_run C (with_epoch C lk ep) ds) in
   case accept C s h body of
     (Drop, s') \<Rightarrow> s' = s
   | (Accept pt, s') \<Rightarrow>
       aead_open C (AeadKey (session_key C lk (h_epoch h))) (h_seq h) body = Some pt \<and>
       h_epoch h \<noteq> 0 \<and> cur_epoch s \<le> h_epoch h \<and> cur_epoch s' = h_epoch h"
proof -
  let ?s = "snd (rx_run C (with_epoch C lk ep) ds)"
  have inv: "rx_inv C ?s (set (took (fst (rx_run C (with_epoch C lk ep) ds)) ds))"
    using rx_run_took [OF rx_inv_with_epoch, of C lk ep ds] by simp
  have lk: "rx_lk ?s = lk"
    by (simp add: with_epoch_def rx_new_def Let_def)
  show ?thesis
    using accept_step [OF inv, of h body] accept_Drop_unchanged [of C ?s h body]
    by (auto simp: Let_def rx_took_def lk [simplified] split: prod.splits rx_outcome.splits)
qed

text \<open>
  C6: over any sequence of received datagrams, forged and replayed ones included, no pair of
  epoch and sequence number is accepted twice, and the epochs of accepted datagrams never
  go down.
\<close>

theorem session_accepts_once:
  "distinct (took (fst (rx_run C (with_epoch C lk ep) ds)) ds) \<and>
   sorted (map fst (took (fst (rx_run C (with_epoch C lk ep) ds)) ds))"
  using rx_run_took [OF rx_inv_with_epoch, of C lk ep ds] by simp

text \<open>
  C29: the datagrams a session seals carry the numbers 1, 2, 3 and so on, and as long as fewer
  than 2^64 - 1 of them are sealed the AEAD nonces of the link are pairwise different.
\<close>

theorem seal_nonces_fresh:
  assumes "length ps < 2 ^ 64 - 1"
  shows "fst (seal_all C (tx_new C lk lid ep obf) ps) =
      map (\<lambda>(i, fl, p). seal_datagram C lk (AeadKey (session_key C lk ep)) lid ep
             (word_of_nat (Suc i)) fl p obf) (enumerate 0 ps) \<and>
    distinct (map (\<lambda>i. nonce (word_of_nat (Suc i))) [0..<length ps])"
proof
  show "fst (seal_all C (tx_new C lk lid ep obf) ps) =
      map (\<lambda>(i, fl, p). seal_datagram C lk (AeadKey (session_key C lk ep)) lid ep
             (word_of_nat (Suc i)) fl p obf) (enumerate 0 ps)"
    using seal_all_spec [of "tx_new C lk lid ep obf" 1 ps C] assms
    by (simp add: tx_new_def)
  have "inj_on (\<lambda>i. word_of_nat (Suc i) :: u64) {0..<length ps}"
    using assms by (intro inj_onI) (auto simp: of_nat_inverse dest!: arg_cong [where f = unat])
  then show "distinct (map (\<lambda>i. nonce (word_of_nat (Suc i))) [0..<length ps])"
    using inj_nonce by (simp add: distinct_map inj_on_def del: of_nat_Suc)
qed

theorem seal_nonces_fresh_witness:
  "length [(0::u8, [1::u8]), (0, [2])] < (2::nat) ^ 64 - 1 \<and>
   fst (seal_all demo_crypto (tx_new demo_crypto [9] 2 5 False) [(0, [1]), (0, [2])]) =
      map (\<lambda>(i, fl, p). seal_datagram demo_crypto [9] (AeadKey (session_key demo_crypto [9] 5)) 2 5
             (word_of_nat (Suc i)) fl p False) (enumerate 0 [(0, [1]), (0, [2])])"
  using seal_nonces_fresh [of "[(0::u8, [1::u8]), (0, [2])]" demo_crypto "[9]" 2 5 False] by simp

text \<open>
  C14: delivery over one link. A sender seals any messages in one epoch; the network delivers any
  selection of the datagrams, reordered and duplicated as it likes. A fresh receiver with the
  same link key hands out the message of each datagram exactly when the replay rule calls its
  number fresh, and drops it otherwise, with obfuscation on or off.
\<close>

theorem link_delivery:
  assumes "crypto_ok C" and "ep \<noteq> 0" and "length ps < 2 ^ 64 - 1" and "\<forall>j \<in> set js. j < length ps"
  shows "fst (rx_run C (rx_new lk)
           (map (\<lambda>j. link_recv C lk obf (fst (seal_all C (tx_new C lk lid ep obf) ps) ! j)) js)) =
         map2 (\<lambda>ok j. if ok then Accept (snd (ps ! j)) else Drop) (spec_run {} (map Suc js)) js"
proof -
  let ?key = "AeadKey (session_key C lk ep)"
  let ?m = "\<lambda>j. (\<lparr>h_version = WIRE_VERSION, h_flags = fst (ps ! j), h_key_id = lid, h_epoch = ep,
      h_seq = word_of_nat (Suc j)\<rparr>, word_of_nat (Suc j) :: u64, snd (ps ! j))"
  have recv: "map (\<lambda>j. link_recv C lk obf (fst (seal_all C (tx_new C lk lid ep obf) ps) ! j)) js =
      map (\<lambda>(h, sq, p). (h\<lparr>h_epoch := ep, h_seq := sq\<rparr>, aead_seal C ?key sq p)) (map ?m js)"
    using assms(3,4) by (auto simp: seal_all_new link_recv_seal [OF assms(1)] simp del: of_nat_Suc)
  have nums: "map (\<lambda>(h, sq, p). unat sq) (map ?m js) = map Suc js"
    using assms(3,4) by (auto simp: of_nat_inverse simp del: of_nat_Suc)
  show ?thesis
    unfolding recv rx_run_first_epoch [OF assms(1,2)] nums
    by (simp add: zip_map2 comp_def case_prod_beta)
qed

theorem link_delivery_witness:
  "fst (rx_run demo_crypto (rx_new [9])
     (map (\<lambda>j. link_recv demo_crypto [9] True
       (fst (seal_all demo_crypto (tx_new demo_crypto [9] 2 5 True) [(0, [1]), (0, [2])]) ! j)) [1, 0, 1])) =
   [Accept [2], Accept [1], Drop]"
  using link_delivery [OF demo_crypto_ok, of 5 "[(0, [1]), (0, [2])]" "[1, 0, 1]" "[9]" True 2]
  by (simp add: spec_fresh_def top_of_def WINDOW_def)

text \<open>
  Outside that range the counter saturates: once the last number is reached, sealing leaves the
  sender unchanged, so the next datagram reuses key and nonce.
\<close>

lemma seal_reuses_last_number: "next_seq t = - 1 \<Longrightarrow> snd (seal C t fl p) = t"
  by (simp add: seal_def Let_def saturating_succ_def)

end
