(* ===== verification/Subnetra_Config.thy ===== *)
theory Subnetra_Config
  imports Subnetra_Wire
begin

text \<open>
  The mesh configuration and its validation (\<open>src/subnetra/config.rs\<close>, the MTU bounds of
  \<open>src/subnetra/mod.rs\<close>). Each \<open>ensure!\<close> and \<open>bail!\<close> of the source is a constructor of the error
  type; the slicing panic of the key parser is one too. The network type is that of the
  \<open>ipnet\<close> package, a parameter.
\<close>

section \<open>Configuration as written in the file\<close>

record tun_config =
  tun_name :: string
  tun_manage :: bool

definition default_obfuscate :: bool where "default_obfuscate = True"
definition default_keepalive_secs :: u64 where "default_keepalive_secs = 25"
definition default_device :: string where "default_device = ''netstack''"
definition default_tun_name :: string where "default_tun_name = ''rove0''"
definition default_tun_manage :: bool where "default_tun_manage = True"

definition tun_config_default :: tun_config where
  "tun_config_default = \<lparr>tun_name = default_tun_name, tun_manage = default_tun_manage\<rparr>"

record peer_config =
  pc_id :: u16
  pc_psk :: string
  pc_allowed_src :: string
  pc_endpoint :: "string option"
  pc_name :: string

record subnetra_config =
  sc_enable :: bool
  sc_mode :: string
  sc_local_id :: u16
  sc_listen :: string
  sc_overlay_cidr :: string
  sc_obfuscate :: bool
  sc_keepalive_secs :: u64
  sc_mtu :: "nat option"
  sc_device :: string
  sc_tun :: tun_config
  sc_proxy_protocol :: string
  sc_proxy_port :: u16
  sc_peers :: "peer_config list"

section \<open>Validated configuration\<close>

datatype mode = Hub | Spoke

datatype device = Netstack "(string \<times> u16) option" | Tun string bool

record 'n runtime_peer =
  rp_id :: u16
  rp_psk :: bytes
  rp_allowed_src :: 'n
  rp_endpoint :: "socket_addr option"
  rp_name :: string

record 'n runtime_config =
  rc_mode :: mode
  rc_local_id :: u16
  rc_listen :: socket_addr
  rc_overlay :: 'n
  rc_obfuscate :: bool
  rc_keepalive_secs :: u64
  rc_mtu :: nat
  rc_device :: device
  rc_peers :: "'n runtime_peer list"

datatype config_error =
  BadMode | ZeroLocalId | BadListen | BadOverlay | NoPeers | MtuOutOfRange
| HubProxyProtocol | HubProxyPort | TunUnsupported | TunWithProxy | TunNameEmpty | TunNameTooLong
| TunNameInvalid | BadDevice
| PeerIdZero | PeerIdIsLocal | PeerIdDuplicate | PskLength | PskNotHex | PskSlicePanic
| BadAllowedSrc | BadEndpoint | SpokeEndpointMissing

definition INNER_MTU :: nat where "INNER_MTU = 1452"
definition MIN_INNER_MTU :: nat where "MIN_INNER_MTU = 576"

definition overlay_ip :: "'n ipv4net \<Rightarrow> 'n runtime_config \<Rightarrow> u32" where
  "overlay_ip N cfg = net_addr N (rc_overlay cfg)"

definition hub_proxy :: "'n runtime_config \<Rightarrow> (string \<times> u16) option" where
  "hub_proxy cfg = (case rc_device cfg of Netstack p \<Rightarrow> p | Tun _ _ \<Rightarrow> None)"

definition mode_parse :: "string \<Rightarrow> config_error + mode" where
  "mode_parse s =
     (let m = to_ascii_lowercase (trim s)
      in if m = ''hub'' then Inr Hub else if m = ''spoke'' then Inr Spoke else Inl BadMode)"

text \<open>A byte offset is a character boundary unless a UTF-8 continuation byte follows it.\<close>

definition is_char_boundary :: "string \<Rightarrow> nat \<Rightarrow> bool" where
  "is_char_boundary s i \<longleftrightarrow>
     i = length s \<or> i < length s \<and> \<not> (128 \<le> code_at s i \<and> code_at s i < 192)"

fun parse_psk_bytes :: "string \<Rightarrow> nat list \<Rightarrow> config_error + bytes" where
  "parse_psk_bytes s [] = Inr []"
| "parse_psk_bytes s (i # is) =
     (if \<not> is_char_boundary s (i * 2) \<or> \<not> is_char_boundary s (i * 2 + 2) then Inl PskSlicePanic
      else case from_str_radix 255 16 (slice (i * 2) (i * 2 + 2) s) of
             None \<Rightarrow> Inl PskNotHex
           | Some n \<Rightarrow>
               (case parse_psk_bytes s is of Inl e \<Rightarrow> Inl e | Inr bs \<Rightarrow> Inr (word_of_nat n # bs)))"

definition parse_psk :: "string \<Rightarrow> config_error + bytes" where
  "parse_psk s0 =
     (let s = trim s0
      in if length s \<noteq> KEY_LEN * 2 then Inl PskLength else parse_psk_bytes s [0..<KEY_LEN])"

definition runtime_mtu :: "nat option \<Rightarrow> config_error + nat" where
  "runtime_mtu m =
     (case m of
        None \<Rightarrow> Inr INNER_MTU
      | Some v \<Rightarrow> if MIN_INNER_MTU \<le> v \<and> v \<le> INNER_MTU then Inr v else Inl MtuOutOfRange)"

text \<open>Whether a string holds a white space character, a slash or a NUL anywhere.\<close>

fun bad_tun_name :: "string \<Rightarrow> bool" where
  "bad_tun_name [] = False"
| "bad_tun_name (c # cs) =
     (ws_len (c # cs) \<noteq> 0 \<or> c = CHR ''/'' \<or> c = CHR 0x00 \<or> bad_tun_name cs)"

text \<open>The compilation target is Linux or macOS exactly when \<open>tun_ok\<close> holds.\<close>

definition runtime_device :: "bool \<Rightarrow> mode \<Rightarrow> subnetra_config \<Rightarrow> config_error + device" where
  "runtime_device tun_ok m cfg =
     (let dev_type = to_ascii_lowercase (trim (sc_device cfg))
      in if dev_type = ''netstack'' then
           (if m = Hub then
              let proto = to_ascii_lowercase (trim (sc_proxy_protocol cfg))
              in if \<not> (proto = ''http'' \<or> proto = ''socks5'') then Inl HubProxyProtocol
                 else if sc_proxy_port cfg = 0 then Inl HubProxyPort
                 else Inr (Netstack (Some (proto, sc_proxy_port cfg)))
            else Inr (Netstack None))
         else if dev_type = ''tun'' then
           (if \<not> tun_ok then Inl TunUnsupported
            else if \<not> (trim (sc_proxy_protocol cfg) = [] \<and> sc_proxy_port cfg = 0) then Inl TunWithProxy
            else let name = trim (tun_name (sc_tun cfg))
                 in if name = [] then Inl TunNameEmpty
                    else if \<not> length name \<le> 15 then Inl TunNameTooLong
                    else if bad_tun_name name then Inl TunNameInvalid
                    else Inr (Tun name (tun_manage (sc_tun cfg))))
         else Inl BadDevice)"

definition runtime_peer_of ::
  "'n ipv4net \<Rightarrow> mode \<Rightarrow> u16 \<Rightarrow> u16 set \<Rightarrow> peer_config \<Rightarrow> config_error + 'n runtime_peer" where
  "runtime_peer_of N m local_id seen p =
     (if pc_id p = 0 then Inl PeerIdZero
      else if pc_id p = local_id then Inl PeerIdIsLocal
      else if pc_id p \<in> seen then Inl PeerIdDuplicate
      else case parse_psk (pc_psk p) of Inl e \<Rightarrow> Inl e | Inr psk \<Rightarrow>
        (case net_parse N (trim (pc_allowed_src p)) of None \<Rightarrow> Inl BadAllowedSrc | Some net \<Rightarrow>
          (case (case pc_endpoint p of
                   None \<Rightarrow> Inr None
                 | Some ep \<Rightarrow>
                     (case parse_socket_addr (trim ep) of None \<Rightarrow> Inl BadEndpoint | Some a \<Rightarrow> Inr (Some a))) of
             Inl e \<Rightarrow> Inl e
           | Inr endpoint \<Rightarrow>
               if m = Spoke \<and> endpoint = None then Inl SpokeEndpointMissing
               else Inr \<lparr>rp_id = pc_id p, rp_psk = psk, rp_allowed_src = net, rp_endpoint = endpoint,
                         rp_name = pc_name p\<rparr>)))"

fun runtime_peers ::
  "'n ipv4net \<Rightarrow> mode \<Rightarrow> u16 \<Rightarrow> u16 set \<Rightarrow> peer_config list \<Rightarrow> config_error + 'n runtime_peer list" where
  "runtime_peers N m local_id seen [] = Inr []"
| "runtime_peers N m local_id seen (p # ps) =
     (case runtime_peer_of N m local_id seen p of
        Inl e \<Rightarrow> Inl e
      | Inr rp \<Rightarrow>
          (case runtime_peers N m local_id (insert (pc_id p) seen) ps of
             Inl e \<Rightarrow> Inl e
           | Inr rps \<Rightarrow> Inr (rp # rps)))"

definition to_runtime :: "'n ipv4net \<Rightarrow> bool \<Rightarrow> subnetra_config \<Rightarrow> config_error + 'n runtime_config" where
  "to_runtime N tun_ok cfg =
     (case mode_parse (sc_mode cfg) of Inl e \<Rightarrow> Inl e | Inr m \<Rightarrow>
      if sc_local_id cfg = 0 then Inl ZeroLocalId else
      (case parse_socket_addr (trim (sc_listen cfg)) of None \<Rightarrow> Inl BadListen | Some listen \<Rightarrow>
      (case net_parse N (trim (sc_overlay_cidr cfg)) of None \<Rightarrow> Inl BadOverlay | Some overlay \<Rightarrow>
      if sc_peers cfg = [] then Inl NoPeers else
      (case runtime_mtu (sc_mtu cfg) of Inl e \<Rightarrow> Inl e | Inr mtu \<Rightarrow>
      (case runtime_device tun_ok m cfg of Inl e \<Rightarrow> Inl e | Inr dev \<Rightarrow>
      (case runtime_peers N m (sc_local_id cfg) {} (sc_peers cfg) of Inl e \<Rightarrow> Inl e | Inr peers \<Rightarrow>
        Inr \<lparr>rc_mode = m, rc_local_id = sc_local_id cfg, rc_listen = listen, rc_overlay = overlay,
             rc_obfuscate = sc_obfuscate cfg, rc_keepalive_secs = sc_keepalive_secs cfg,
             rc_mtu = mtu, rc_device = dev, rc_peers = peers\<rparr>))))))"

section \<open>What a validated configuration guarantees\<close>

definition peer_ok :: "mode \<Rightarrow> u16 \<Rightarrow> 'n runtime_peer \<Rightarrow> bool" where
  "peer_ok m local_id p \<longleftrightarrow>
     rp_id p \<noteq> 0 \<and> rp_id p \<noteq> local_id \<and> length (rp_psk p) = KEY_LEN \<and>
     (m = Spoke \<longrightarrow> rp_endpoint p \<noteq> None)"

definition device_ok :: "mode \<Rightarrow> device \<Rightarrow> bool" where
  "device_ok m d =
     (case d of
        Netstack None \<Rightarrow> m = Spoke
      | Netstack (Some (proto, port)) \<Rightarrow> m = Hub \<and> proto \<in> {''http'', ''socks5''} \<and> port \<noteq> 0
      | Tun name _ \<Rightarrow> 0 < length name \<and> length name \<le> 15 \<and> CHR ''/'' \<notin> set name \<and> CHR 0x00 \<notin> set name)"

definition runtime_ok :: "'n runtime_config \<Rightarrow> bool" where
  "runtime_ok rc \<longleftrightarrow>
     rc_local_id rc \<noteq> 0 \<and> rc_peers rc \<noteq> [] \<and> distinct (map rp_id (rc_peers rc)) \<and>
     (\<forall>p \<in> set (rc_peers rc). peer_ok (rc_mode rc) (rc_local_id rc) p) \<and>
     MIN_INNER_MTU \<le> rc_mtu rc \<and> rc_mtu rc \<le> INNER_MTU \<and> device_ok (rc_mode rc) (rc_device rc)"

lemma parse_psk_bytes_length: "parse_psk_bytes s is = Inr bs \<Longrightarrow> length bs = length is"
  by (induction s "is" arbitrary: bs rule: parse_psk_bytes.induct)
    (auto split: if_splits option.splits sum.splits)

lemma parse_psk_length: "parse_psk s = Inr k \<Longrightarrow> length k = KEY_LEN"
  by (auto simp: parse_psk_def Let_def split: if_splits dest: parse_psk_bytes_length)

lemma bad_tun_name_mem: "\<not> bad_tun_name s \<Longrightarrow> CHR ''/'' \<notin> set s \<and> CHR 0x00 \<notin> set s"
  by (induction s) auto

lemma runtime_device_ok: "runtime_device t m cfg = Inr d \<Longrightarrow> device_ok m d"
  using bad_tun_name_mem
  by (cases m) (auto simp: runtime_device_def device_ok_def Let_def split: if_splits)

lemma runtime_peer_of_ok:
  "runtime_peer_of N m lid seen p = Inr rp \<Longrightarrow>
     peer_ok m lid rp \<and> rp_id rp = pc_id p \<and> rp_id rp \<notin> seen"
  by (cases m)
    (auto simp: runtime_peer_of_def peer_ok_def parse_psk_length
      split: if_splits sum.splits option.splits)

lemma runtime_peers_ok:
  "runtime_peers N m lid seen ps = Inr rps \<Longrightarrow>
     list_all (peer_ok m lid) rps \<and> map rp_id rps = map pc_id ps \<and>
     distinct (map pc_id ps) \<and> set (map pc_id ps) \<inter> seen = {}"
proof (induction ps arbitrary: seen rps)
  case Nil
  then show ?case by simp
next
  case (Cons p ps)
  then obtain rp rps' where hd: "runtime_peer_of N m lid seen p = Inr rp"
    and tl: "runtime_peers N m lid (insert (pc_id p) seen) ps = Inr rps'" and rps: "rps = rp # rps'"
    by (auto split: sum.splits)
  show ?case
    using runtime_peer_of_ok [OF hd] Cons.IH [OF tl] by (auto simp: rps)
qed

section \<open>Pre-shared keys\<close>

lemma show_hex_boundary: "i \<le> length (show_hex bs) \<Longrightarrow> is_char_boundary (show_hex bs) i"
  using show_hex_char [of "show_hex bs ! i" bs]
  by (auto simp: is_char_boundary_def code_at_def char_in_def simp del: length_show_hex)

lemma parse_hex_pair:
  "from_str_radix 255 16 [hex_char (unat b div 16), hex_char (unat b mod 16)] = Some (unat (b :: u8))"
proof -
  have "hex_char (unat b div 16) \<noteq> CHR ''+''"
    using hex_char_visible [OF nibbles_lt(1) [of b]] by (auto simp: char_in_def)
  moreover have "unat b \<le> 255" using unat_byte_lt [of b] by linarith
  ultimately show ?thesis
    by (simp add: from_str_radix_def to_digit_hex_char nibbles_lt)
qed

lemma parse_psk_bytes_show_hex:
  "list_all (\<lambda>i. i < length bs) is \<Longrightarrow> parse_psk_bytes (show_hex bs) is = Inr (map ((!) bs) is)"
  by (induction "is")
    (simp_all add: show_hex_boundary slice_show_hex parse_hex_pair)

text \<open>A network type for concrete evaluation: one IPv4 address, as a /32.\<close>

definition demo_net :: "u32 ipv4net" where
  "demo_net =
     \<lparr>net_parse = parse_ipv4_addr, net_contains = (\<lambda>n a. n = a), net_prefix_len = (\<lambda>_. 32),
      net_addr = id\<rparr>"

definition demo_config :: subnetra_config where
  "demo_config =
     \<lparr>sc_enable = True, sc_mode = ''Spoke '', sc_local_id = 2, sc_listen = ''0.0.0.0:0'',
      sc_overlay_cidr = ''10.0.0.2'', sc_obfuscate = default_obfuscate,
      sc_keepalive_secs = default_keepalive_secs, sc_mtu = None, sc_device = default_device,
      sc_tun = tun_config_default, sc_proxy_protocol = [], sc_proxy_port = 0,
      sc_peers = [\<lparr>pc_id = 1, pc_psk = replicate 64 (CHR ''a''), pc_allowed_src = ''10.0.0.1'',
                   pc_endpoint = Some ''1.2.3.4:18020'', pc_name = ''hub''\<rparr>]\<rparr>"

lemma demo_config_valid: "\<not> isl (to_runtime demo_net True demo_config)"
  by code_simp

text \<open>
  C30: a mesh configuration that passes validation is complete: the node has a non-zero id and at
  least one peer, peer ids are non-zero, pairwise different and different from the node's, every
  key has 32 bytes, every peer of a spoke has an endpoint, the MTU lies in [576, 1452], and the
  device is usable in that role.
\<close>

theorem to_runtime_fails_closed:
  assumes "to_runtime N tun_ok cfg = Inr rc"
  shows "runtime_ok rc"
proof -
  have mtu: "MIN_INNER_MTU \<le> m \<and> m \<le> INNER_MTU" if "runtime_mtu v = Inr m" for v m
    using that by (auto simp: runtime_mtu_def MIN_INNER_MTU_def INNER_MTU_def split: option.splits if_splits)
  obtain m peers dev where "rc_mode rc = m" "rc_peers rc = peers" "rc_device rc = dev"
    and "runtime_peers N m (sc_local_id cfg) {} (sc_peers cfg) = Inr peers"
    and "runtime_device tun_ok m cfg = Inr dev" and "runtime_mtu (sc_mtu cfg) = Inr (rc_mtu rc)"
    and "sc_local_id cfg \<noteq> 0" "rc_local_id rc = sc_local_id cfg" "sc_peers cfg \<noteq> []"
    using assms by (auto simp: to_runtime_def split: sum.splits if_splits option.splits)
  then show ?thesis
    using runtime_peers_ok [of N m "sc_local_id cfg" "{}" "sc_peers cfg" peers] runtime_device_ok mtu
    by (auto simp: runtime_ok_def list_all_iff)
qed

theorem to_runtime_fails_closed_witness:
  "\<exists>rc. to_runtime demo_net True demo_config = Inr rc \<and> runtime_ok rc"
  using demo_config_valid to_runtime_fails_closed [of demo_net True demo_config]
  by (cases "to_runtime demo_net True demo_config") auto

text \<open>
  The key parser inverts hexadecimal printing: every 32-byte key is read back from its 64
  lowercase hexadecimal digits.
\<close>

lemma parse_psk_round_trip:
  assumes "length k = KEY_LEN"
  shows "parse_psk (show_hex k) = Inr k"
proof -
  have "map ((!) k) [0..<KEY_LEN] = k"
    using assms by (simp add: map_nth flip: assms)
  then show ?thesis
    using assms trim_show_hex [of k]
    by (simp add: parse_psk_def parse_psk_bytes_show_hex list_all_iff)
qed

lemma parse_psk_round_trip_witness:
  "parse_psk (show_hex (replicate 32 0x5a)) = Inr (replicate 32 0x5a)"
  using parse_psk_round_trip [of "replicate 32 0x5a"] by (simp add: KEY_LEN_def)

text \<open>
  The key parser is laxer than its documentation, which says that it rejects non-hexadecimal
  input: a plus sign in the first place of a pair is accepted, so the 64 characters
  \<open>+1+1...+1\<close> are read as the key of 32 bytes 1.
\<close>

lemma parse_psk_accepts_plus:
  "parse_psk (concat (replicate 32 ''+1'')) = Inr (replicate 32 1)"
  by code_simp

end
