(* ===== verification/Subnetra_Peer.thy ===== *)
theory Subnetra_Peer
  imports Subnetra_Session Subnetra_Config
begin

text \<open>
  The peer table of the mesh (\<open>src/subnetra/peer.rs\<close>): choice of the sending peer, the
  receive path with its inner-source check and endpoint learning, routing by inner
  destination, and sealing for a peer.
\<close>

section \<open>Peer table\<close>

record 'n peer =
  p_id :: u16
  p_name :: string
  p_allowed_src :: 'n
  p_endpoint :: "socket_addr option"
  p_rx_link_key :: bytes
  p_rx :: rx_session
  p_tx :: tx_session

datatype ingest_result = Data u16 bytes | Keepalive u16 | IDrop

record 'n peer_table =
  pt_local_id :: u16
  pt_obfuscate :: bool
  pt_peers :: "'n peer list"
  pt_by_id :: "u16 \<rightharpoonup> nat"

definition peer_new :: "crypto \<Rightarrow> u16 \<Rightarrow> bool \<Rightarrow> u64 \<Rightarrow> 'n runtime_peer \<Rightarrow> 'n peer" where
  "peer_new C local_id obfuscate local_epoch p =
     (let rx_link_key = link_key C (rp_psk p) (rp_id p) local_id;
          tx_link_key = link_key C (rp_psk p) local_id (rp_id p)
      in \<lparr>p_id = rp_id p, p_name = rp_name p, p_allowed_src = rp_allowed_src p,
          p_endpoint = rp_endpoint p, p_rx_link_key = rx_link_key, p_rx = rx_new rx_link_key,
          p_tx = tx_new C tx_link_key local_id local_epoch obfuscate\<rparr>)"

definition peer_table_new :: "crypto \<Rightarrow> 'n runtime_config \<Rightarrow> u64 \<Rightarrow> 'n peer_table" where
  "peer_table_new C cfg local_epoch =
     \<lparr>pt_local_id = rc_local_id cfg, pt_obfuscate = rc_obfuscate cfg,
      pt_peers = map (peer_new C (rc_local_id cfg) (rc_obfuscate cfg) local_epoch) (rc_peers cfg),
      pt_by_id = foldl (\<lambda>m (i, p). m(rp_id p \<mapsto> i)) Map.empty (enumerate 0 (rc_peers cfg))\<rparr>"

section \<open>Choosing the sender\<close>

fun select_trial :: "crypto \<Rightarrow> bytes \<Rightarrow> bytes \<Rightarrow> nat \<Rightarrow> 'n peer list \<Rightarrow> (nat \<times> header) option" where
  "select_trial C datagram tag i [] = None"
| "select_trial C datagram tag i (p # ps) =
     (let pad = obfuscation_pad C (p_rx_link_key p) tag;
          clear = demask_header (take HEADER_LEN datagram) pad
      in case header_parse clear of
           None \<Rightarrow> None
         | Some h \<Rightarrow>
             if h_version h = WIRE_VERSION \<and> h_key_id h = p_id p \<and> header_is_valid h
             then Some (i, h)
             else select_trial C datagram tag (Suc i) ps)"

definition select :: "crypto \<Rightarrow> 'n peer_table \<Rightarrow> bytes \<Rightarrow> bytes \<Rightarrow> (nat \<times> header) option" where
  "select C t datagram tag =
     (if pt_obfuscate t then select_trial C datagram tag 0 (pt_peers t)
      else case header_parse (take HEADER_LEN datagram) of
             None \<Rightarrow> None
           | Some h \<Rightarrow>
               (case pt_by_id t (h_key_id h) of
                  None \<Rightarrow> None
                | Some i \<Rightarrow> if header_is_valid h then Some (i, h) else None))"

section \<open>Inner packets\<close>

definition ipv4_src :: "bytes \<Rightarrow> u32 option" where
  "ipv4_src pkt =
     (if length pkt < 20 \<or> drop_bit 4 (pkt ! 0) \<noteq> 4 then None
      else Some (ipv4_new (pkt ! 12) (pkt ! 13) (pkt ! 14) (pkt ! 15)))"

definition ipv4_dst :: "bytes \<Rightarrow> u32 option" where
  "ipv4_dst pkt =
     (if length pkt < 20 \<or> drop_bit 4 (pkt ! 0) \<noteq> 4 then None
      else Some (ipv4_new (pkt ! 16) (pkt ! 17) (pkt ! 18) (pkt ! 19)))"

section \<open>Operations\<close>

definition upd_peer :: "nat \<Rightarrow> ('n peer \<Rightarrow> 'n peer) \<Rightarrow> 'n peer_table \<Rightarrow> 'n peer_table" where
  "upd_peer i f t = t\<lparr>pt_peers := (pt_peers t)[i := f (pt_peers t ! i)]\<rparr>"

definition ingest ::
  "crypto \<Rightarrow> 'n ipv4net \<Rightarrow> 'n peer_table \<Rightarrow> bytes \<Rightarrow> socket_addr \<Rightarrow> ingest_result \<times> 'n peer_table" where
  "ingest C N t datagram src =
     (case datagram_tag datagram of None \<Rightarrow> (IDrop, t) | Some tag \<Rightarrow>
      (case select C t datagram tag of None \<Rightarrow> (IDrop, t) | Some (i, h) \<Rightarrow>
       (let (out, rx) = accept C (p_rx (pt_peers t ! i)) h (drop HEADER_LEN datagram);
            t1 = upd_peer i (\<lambda>p. p\<lparr>p_rx := rx\<rparr>) t;
            peer_id = p_id (pt_peers t ! i)
        in case out of
             Drop \<Rightarrow> (IDrop, t1)
           | Accept inner \<Rightarrow>
               if header_is_keepalive h
               then (Keepalive peer_id, upd_peer i (\<lambda>p. p\<lparr>p_endpoint := Some src\<rparr>) t1)
               else (case ipv4_src inner of
                       None \<Rightarrow> (IDrop, t1)
                     | Some inner_src \<Rightarrow>
                         if \<not> net_contains N (p_allowed_src (pt_peers t ! i)) inner_src
                         then (IDrop, t1)
                         else (Data peer_id inner,
                               upd_peer i (\<lambda>p. p\<lparr>p_endpoint := Some src\<rparr>) t1)))))"

text \<open>\<open>Iterator::max_by_key\<close>: of several maximal elements the last.\<close>

fun max_by_key :: "('a \<Rightarrow> nat) \<Rightarrow> 'a list \<Rightarrow> 'a option" where
  "max_by_key k [] = None"
| "max_by_key k (x # xs) =
     (case max_by_key k xs of None \<Rightarrow> Some x | Some y \<Rightarrow> if k x \<le> k y then Some y else Some x)"

definition route :: "'n ipv4net \<Rightarrow> 'n peer_table \<Rightarrow> u32 \<Rightarrow> u16 option" where
  "route N t dst =
     map_option p_id
       (max_by_key (\<lambda>p. net_prefix_len N (p_allowed_src p))
          (filter (\<lambda>p. net_contains N (p_allowed_src p) dst) (pt_peers t)))"

definition seal_for ::
  "crypto \<Rightarrow> 'n peer_table \<Rightarrow> u16 \<Rightarrow> u8 \<Rightarrow> bytes \<Rightarrow> (bytes \<times> socket_addr) option \<times> 'n peer_table" where
  "seal_for C t peer_id fl inner =
     (case pt_by_id t peer_id of None \<Rightarrow> (None, t) | Some i \<Rightarrow>
      (case p_endpoint (pt_peers t ! i) of None \<Rightarrow> (None, t) | Some endpoint \<Rightarrow>
       (let (datagram, tx) = seal C (p_tx (pt_peers t ! i)) fl inner
        in (Some (datagram, endpoint), upd_peer i (\<lambda>p. p\<lparr>p_tx := tx\<rparr>) t))))"

definition peers_with_endpoint :: "'n peer_table \<Rightarrow> u16 list" where
  "peers_with_endpoint t = map p_id (filter (\<lambda>p. p_endpoint p \<noteq> None) (pt_peers t))"

definition peer_ids :: "'n peer_table \<Rightarrow> u16 list" where
  "peer_ids t = map p_id (pt_peers t)"

definition name_of :: "'n peer_table \<Rightarrow> u16 \<Rightarrow> string option" where
  "name_of t peer_id = map_option (\<lambda>i. p_name (pt_peers t ! i)) (pt_by_id t peer_id)"

section \<open>Well-formedness\<close>

text \<open>The index agrees with the list, and ids are unique (as configuration validation demands).\<close>

definition peer_table_ok :: "crypto \<Rightarrow> 'n peer_table \<Rightarrow> bool" where
  "peer_table_ok C t \<longleftrightarrow>
     distinct (map p_id (pt_peers t)) \<and>
     (\<forall>q i. pt_by_id t q = Some i \<longleftrightarrow> i < length (pt_peers t) \<and> p_id (pt_peers t ! i) = q) \<and>
     (\<forall>p \<in> set (pt_peers t). rx_key_ok C (p_rx p) \<and> rx_lk (p_rx p) = p_rx_link_key p)"

lemma upd_peer_simps [simp]:
  "pt_local_id (upd_peer i f t) = pt_local_id t"
  "pt_obfuscate (upd_peer i f t) = pt_obfuscate t"
  "pt_by_id (upd_peer i f t) = pt_by_id t"
  "length (pt_peers (upd_peer i f t)) = length (pt_peers t)"
  by (simp_all add: upd_peer_def)

lemma pt_peers_upd [simp]: "pt_peers (upd_peer i f t) = (pt_peers t)[i := f (pt_peers t ! i)]"
  by (simp add: upd_peer_def)

lemma upd_peer_id: "i < length (pt_peers t) \<Longrightarrow> f (pt_peers t ! i) = pt_peers t ! i \<Longrightarrow> upd_peer i f t = t"
  by (simp add: upd_peer_def)

lemma peer_table_ok_upd:
  assumes "peer_table_ok C t" and "i < length (pt_peers t)"
    and "p_id (f (pt_peers t ! i)) = p_id (pt_peers t ! i)"
    and "rx_key_ok C (p_rx (f (pt_peers t ! i)))"
    and "rx_lk (p_rx (f (pt_peers t ! i))) = p_rx_link_key (f (pt_peers t ! i))"
  shows "peer_table_ok C (upd_peer i f t)"
proof -
  have "map p_id ((pt_peers t)[i := f (pt_peers t ! i)]) = map p_id (pt_peers t)"
    using assms(2,3) by (simp add: map_update list_update_same_conv)
  moreover have "p_id ((pt_peers t)[i := f (pt_peers t ! i)] ! j) = p_id (pt_peers t ! j)"
    if "j < length (pt_peers t)" for j
    using that assms(2,3) by (cases "i = j") simp_all
  ultimately show ?thesis
    using assms(1,4,5) set_update_subset_insert [of "pt_peers t" i "f (pt_peers t ! i)"]
    by (auto simp: peer_table_ok_def)
qed

lemma select_trial_Some:
  "select_trial C dg tag k ps = Some (i, h) \<Longrightarrow>
     k \<le> i \<and> i < k + length ps \<and> h_key_id h = p_id (ps ! (i - k)) \<and> header_is_valid h"
proof (induction ps arbitrary: k)
  case (Cons p ps)
  obtain h' where parse: "header_parse (demask_header (take HEADER_LEN dg)
      (obfuscation_pad C (p_rx_link_key p) tag)) = Some h'"
    using Cons.prems by (auto simp: Let_def split: option.splits)
  show ?case
  proof (cases "h_version h' = WIRE_VERSION \<and> h_key_id h' = p_id p \<and> header_is_valid h'")
    case True
    with Cons.prems parse show ?thesis by (simp add: Let_def)
  next
    case False
    with Cons.prems parse have "select_trial C dg tag (Suc k) ps = Some (i, h)"
      by (simp add: Let_def split: if_splits)
    from Cons.IH [OF this] show ?thesis by (auto simp: nth_Cons')
  qed
qed simp

lemma select_Some:
  assumes "peer_table_ok C t" and "select C t dg tag = Some (i, h)"
  shows "i < length (pt_peers t)" and "h_key_id h = p_id (pt_peers t ! i)" and "header_is_valid h"
  using assms select_trial_Some [of C dg tag 0 "pt_peers t" i h]
  by (auto simp: select_def peer_table_ok_def split: if_splits option.splits)

section \<open>The receive path\<close>

text \<open>
  The shape of one received datagram: it is dropped with every peer unchanged; or dropped after
  authentication with only the sender's receive session moved; or taken up, when the sender's
  session moved and its endpoint was learned.
\<close>

definition learned :: "nat \<Rightarrow> rx_session \<Rightarrow> socket_addr \<Rightarrow> 'n peer_table \<Rightarrow> 'n peer_table" where
  "learned i rx src t = upd_peer i (\<lambda>p. p\<lparr>p_rx := rx, p_endpoint := Some src\<rparr>) t"

definition rx_moved :: "nat \<Rightarrow> rx_session \<Rightarrow> 'n peer_table \<Rightarrow> 'n peer_table" where
  "rx_moved i rx t = upd_peer i (\<lambda>p. p\<lparr>p_rx := rx\<rparr>) t"

lemma ingest_cases [consumes 2, case_names unseen spoofed keepalive data]:
  assumes "peer_table_ok C t" and "ingest C N t dg src = (out, t')"
  obtains "out = IDrop" "t' = t"
  | i h rx pt where "select C t dg (the (datagram_tag dg)) = Some (i, h)" "i < length (pt_peers t)"
      "accept C (p_rx (pt_peers t ! i)) h (drop HEADER_LEN dg) = (Accept pt, rx)"
      "out = IDrop" "t' = rx_moved i rx t"
  | i h rx pt where "select C t dg (the (datagram_tag dg)) = Some (i, h)" "i < length (pt_peers t)"
      "accept C (p_rx (pt_peers t ! i)) h (drop HEADER_LEN dg) = (Accept pt, rx)"
      "header_is_keepalive h"
      "out = Keepalive (p_id (pt_peers t ! i))" "t' = learned i rx src t"
  | i h rx pt a where "select C t dg (the (datagram_tag dg)) = Some (i, h)" "i < length (pt_peers t)"
      "accept C (p_rx (pt_peers t ! i)) h (drop HEADER_LEN dg) = (Accept pt, rx)"
      "ipv4_src pt = Some a" "net_contains N (p_allowed_src (pt_peers t ! i)) a"
      "out = Data (p_id (pt_peers t ! i)) pt" "t' = learned i rx src t"
proof (cases "case datagram_tag dg of None \<Rightarrow> None | Some tag \<Rightarrow> select C t dg tag")
  case None
  with assms(2) that(1) show thesis
    by (auto simp: ingest_def split: option.splits)
next
  case (Some ih)
  then obtain i h tag where sel: "datagram_tag dg = Some tag" "select C t dg tag = Some (i, h)"
    by (cases ih) (auto split: option.splits)
  have i: "i < length (pt_peers t)" by (rule select_Some(1) [OF assms(1) sel(2)])
  have two: "upd_peer i (\<lambda>p. p\<lparr>p_endpoint := Some src\<rparr>) (rx_moved i rx t) = learned i rx src t" for rx
    using i by (simp add: rx_moved_def learned_def upd_peer_def)
  obtain o1 rx where acc: "accept C (p_rx (pt_peers t ! i)) h (drop HEADER_LEN dg) = (o1, rx)"
    by fastforce
  note unfolded = assms(2) [unfolded ingest_def, simplified sel acc option.case prod.case Let_def]
  show thesis
  proof (cases o1)
    case Drop
    with acc accept_Drop_unchanged have "rx = p_rx (pt_peers t ! i)" by blast
    with unfolded Drop i that(1) show thesis by (auto simp: upd_peer_id)
  next
    case (Accept pt)
    with unfolded sel acc i two that(2-4) show thesis
      by (auto simp: rx_moved_def [symmetric] split: if_splits option.splits)
  qed
qed

lemma map_upd_same: "g y = g (xs ! i) \<Longrightarrow> map g (xs[i := y]) = map g xs"
  by (metis list_update_id map_update)

lemma learned_fields [simp]:
  "map p_tx (pt_peers (learned i rx src t)) = map p_tx (pt_peers t)"
  "map p_endpoint (pt_peers (learned i rx src t)) = (map p_endpoint (pt_peers t))[i := Some src]"
  "map p_tx (pt_peers (rx_moved i rx t)) = map p_tx (pt_peers t)"
  "map p_endpoint (pt_peers (rx_moved i rx t)) = map p_endpoint (pt_peers t)"
  by (simp_all add: learned_def rx_moved_def map_upd_same) (simp add: map_update)

lemma peer_table_ok_nth:
  assumes "peer_table_ok C t" and "i < length (pt_peers t)"
  shows "rx_key_ok C (p_rx (pt_peers t ! i))"
    and "rx_lk (p_rx (pt_peers t ! i)) = p_rx_link_key (pt_peers t ! i)"
    and "pt_by_id t (p_id (pt_peers t ! i)) = Some i"
  using assms by (auto simp: peer_table_ok_def)

lemma rx_moved_ok:
  assumes "peer_table_ok C t" and "i < length (pt_peers t)"
    and "accept C (p_rx (pt_peers t ! i)) h body = (out, rx)"
  shows "peer_table_ok C (rx_moved i rx t)" and "peer_table_ok C (learned i rx src t)"
proof -
  note p = peer_table_ok_nth [OF assms(1,2)]
  have rx: "rx_key_ok C rx" "rx_lk rx = p_rx_link_key (pt_peers t ! i)"
    using accept_authentic(1) [OF p(1) assms(3)] accept_rx_lk [of C "p_rx (pt_peers t ! i)" h body] p(2) assms(3)
    by simp_all
  show "peer_table_ok C (rx_moved i rx t)"
    unfolding rx_moved_def by (rule peer_table_ok_upd [OF assms(1,2)]) (simp_all add: rx)
  show "peer_table_ok C (learned i rx src t)"
    unfolding learned_def by (rule peer_table_ok_upd [OF assms(1,2)]) (simp_all add: rx)
qed

lemma ingest_ok:
  assumes "peer_table_ok C t" and "ingest C N t dg src = (out, t')"
  shows "peer_table_ok C t'"
  using assms
proof (cases rule: ingest_cases)
  case unseen
  with assms(1) show ?thesis by simp
qed (use rx_moved_ok [OF assms(1)] in auto)

lemma seal_for_cases:
  assumes "peer_table_ok C t" and "seal_for C t q fl inner = (out, t')"
  obtains "out = None" "t' = t"
  | i ep where "i < length (pt_peers t)" "p_id (pt_peers t ! i) = q" "p_endpoint (pt_peers t ! i) = Some ep"
      "out = Some (fst (seal C (p_tx (pt_peers t ! i)) fl inner), ep)"
      "t' = upd_peer i (\<lambda>p. p\<lparr>p_tx := snd (seal C (p_tx (pt_peers t ! i)) fl inner)\<rparr>) t"
proof (cases "pt_by_id t q")
  case None
  with assms(2) that(1) show thesis by (simp add: seal_for_def)
next
  case (Some i)
  then have i: "i < length (pt_peers t)" "p_id (pt_peers t ! i) = q"
    using assms(1) by (simp_all add: peer_table_ok_def)
  show thesis
  proof (cases "p_endpoint (pt_peers t ! i)")
    case None
    with assms(2) Some that(1) show thesis by (simp add: seal_for_def)
  next
    case (Some ep)
    with assms(2) \<open>pt_by_id t q = Some i\<close> i that(2) show thesis
      by (simp add: seal_for_def case_prod_beta)
  qed
qed

lemma seal_for_ok:
  assumes "peer_table_ok C t" and "seal_for C t q fl inner = (out, t')"
  shows "peer_table_ok C t'"
  using assms
proof (cases rule: seal_for_cases)
  case (2 i ep)
  show ?thesis
    unfolding 2(5)
    by (rule peer_table_ok_upd [OF assms(1) 2(1)]) (simp_all add: peer_table_ok_nth [OF assms(1) 2(1)])
qed (simp add: assms(1))

lemma by_id_fold:
  assumes "distinct (map rp_id ps)"
  shows "foldl (\<lambda>m (i, p). m(rp_id p \<mapsto> i)) m (enumerate k ps) q = Some i \<longleftrightarrow>
    (k \<le> i \<and> i < k + length ps \<and> rp_id (ps ! (i - k)) = q) \<or> (q \<notin> rp_id ` set ps \<and> m q = Some i)"
  using assms
proof (induction ps arbitrary: k m)
  case (Cons p ps)
  have pos: "k \<le> i \<and> i < k + length (p # ps) \<and> rp_id ((p # ps) ! (i - k)) = q \<longleftrightarrow>
      (i = k \<and> rp_id p = q) \<or> (Suc k \<le> i \<and> i < Suc k + length ps \<and> rp_id (ps ! (i - Suc k)) = q)"
    by (auto simp: nth_Cons' not_less_eq_eq Suc_le_eq)
  have mem: "q \<in> rp_id ` set ps" if "Suc k \<le> i" "i < Suc k + length ps" "rp_id (ps ! (i - Suc k)) = q"
    using that by (auto simp: image_iff intro!: bexI [of _ "ps ! (i - Suc k)"])
  show ?case
    unfolding pos using Cons.IH [of "m(rp_id p \<mapsto> k)" "Suc k"] Cons.prems mem
    by (auto simp: enumerate_simps split: if_splits)
qed auto

lemma peer_table_new_ok:
  assumes "runtime_ok cfg"
  shows "peer_table_ok C (peer_table_new C cfg ep)"
proof -
  have ids: "map p_id (map (peer_new C l ob e) ps) = map rp_id ps" for l ob e and ps :: "'a runtime_peer list"
    by (simp add: peer_new_def Let_def comp_def)
  have dist: "distinct (map rp_id (rc_peers cfg))"
    using assms by (simp add: runtime_ok_def)
  show ?thesis
    using dist by (auto simp: peer_table_ok_def peer_table_new_def ids [simplified] by_id_fold [OF dist]
        peer_new_def Let_def rx_key_ok_def rx_new_def comp_def)
qed

section \<open>Runs of the table\<close>

text \<open>Everything that can happen to a table after it was built: datagrams in, packets out.\<close>

inductive table_step :: "crypto \<Rightarrow> 'n ipv4net \<Rightarrow> 'n peer_table \<Rightarrow> 'n peer_table \<Rightarrow> bool"
  for C N where
  received: "ingest C N t dg src = (out, t') \<Longrightarrow> table_step C N t t'"
| sent: "seal_for C t q fl inner = (res, t') \<Longrightarrow> table_step C N t t'"

lemma table_steps_ok: "(table_step C N)\<^sup>*\<^sup>* t t' \<Longrightarrow> peer_table_ok C t \<Longrightarrow> peer_table_ok C t'"
proof (induction rule: rtranclp_induct)
  case (step t1 t2)
  from step.hyps(2) step.IH [OF step.prems] show ?case
    by (cases rule: table_step.cases) (auto intro: ingest_ok seal_for_ok)
qed

section \<open>Routing\<close>

lemma max_by_key_None [simp]: "max_by_key k xs = None \<longleftrightarrow> xs = []"
  by (cases xs) (auto split: option.splits)

lemma max_by_key_Some:
  "max_by_key k xs = Some y \<Longrightarrow> y \<in> set xs \<and> (\<forall>x \<in> set xs. k x \<le> k y)"
proof (induction xs arbitrary: y)
  case (Cons x xs)
  then show ?case
    by (cases "max_by_key k xs") (auto split: if_splits)
qed simp

section \<open>Delivery between two nodes\<close>

text \<open>The link between two configured nodes: each lists the other under the same key.\<close>

definition linked :: "'n runtime_config \<Rightarrow> 'n runtime_config \<Rightarrow> nat \<Rightarrow> nat \<Rightarrow> bool" where
  "linked a b i j \<longleftrightarrow>
     runtime_ok a \<and> runtime_ok b \<and> rc_obfuscate a = rc_obfuscate b \<and>
     i < length (rc_peers a) \<and> rp_id (rc_peers a ! i) = rc_local_id b \<and>
     j < length (rc_peers b) \<and> rp_id (rc_peers b ! j) = rc_local_id a \<and>
     rp_psk (rc_peers a ! i) = rp_psk (rc_peers b ! j)"

text \<open>
  Under obfuscation the receiver tries its peers in order. A peer claims a datagram when the
  header recovered under that peer's key looks like one of the peer's.
\<close>

definition mask_claims :: "crypto \<Rightarrow> bytes \<Rightarrow> 'n peer \<Rightarrow> bool" where
  "mask_claims C dg p =
     (case header_parse (demask_header (take HEADER_LEN dg) (obfuscation_pad C (p_rx_link_key p) (the (datagram_tag dg)))) of
        None \<Rightarrow> False
      | Some h \<Rightarrow> h_version h = WIRE_VERSION \<and> h_key_id h = p_id p \<and> header_is_valid h)"

lemma select_trial_unclaimed:
  "\<not> list_ex (mask_claims C dg) ps \<Longrightarrow> select_trial C dg (the (datagram_tag dg)) k ps = None"
  by (induction ps arbitrary: k) (auto simp: mask_claims_def Let_def split: option.splits if_splits)

lemma header_parse_total: "length bs = HEADER_LEN \<Longrightarrow> header_parse bs \<noteq> None"
  by (simp add: header_parse_def)

lemma length_demask [simp]: "length (demask_header m pad) = HEADER_LEN"
  by (simp add: demask_header_def)

lemma select_trial_append:
  "select_trial C dg tag k ps = None \<Longrightarrow>
     select_trial C dg tag k (ps @ qs) = select_trial C dg tag (k + length ps) qs"
proof (induction ps arbitrary: k)
  case (Cons p ps)
  then show ?case
    using header_parse_total [of "demask_header (take HEADER_LEN dg) (obfuscation_pad C (p_rx_link_key p) tag)"]
    by (auto simp: Let_def split: option.splits if_splits)
qed simp

lemma select_sealed:
  fixes t :: "'n peer_table"
  assumes "crypto_ok C" and "peer_table_ok C t" and "j < length (pt_peers t)"
    and "p_rx_link_key (pt_peers t ! j) = lk" and "p_id (pt_peers t ! j) = lid"
    and "fl AND NOT KEEPALIVE = 0" and "ep \<noteq> 0"
    and dg: "dg = seal_datagram C lk k lid ep sq fl p (pt_obfuscate t)"
    and "pt_obfuscate t \<longrightarrow> \<not> list_ex (mask_claims C dg) (take j (pt_peers t))"
  shows "select C t dg (the (datagram_tag dg)) =
    Some (j, \<lparr>h_version = WIRE_VERSION, h_flags = fl, h_key_id = lid, h_epoch = ep, h_seq = sq\<rparr>)"
proof -
  let ?h = "\<lparr>h_version = WIRE_VERSION, h_flags = fl, h_key_id = lid, h_epoch = ep, h_seq = sq\<rparr>"
  have valid: "header_is_valid ?h" using assms(6,7) by (simp add: header_is_valid_def)
  have tag: "the (datagram_tag dg) = drop (length p) (aead_seal C k sq p)"
    by (simp add: dg datagram_tag_seal [OF assms(1)])
  note hdr = seal_datagram_header [OF assms(1), of "pt_obfuscate t" lk k lid ep sq fl p, folded dg]
  show ?thesis
  proof (cases "pt_obfuscate t")
    case False
    with hdr peer_table_ok_nth(3) [OF assms(2,3)] assms(5) valid show ?thesis
      by (simp add: select_def)
  next
    case True
    let ?tag = "the (datagram_tag dg)" and ?rest = "pt_peers t ! j # drop (Suc j) (pt_peers t)"
    have "pt_peers t = take j (pt_peers t) @ ?rest"
      using assms(3) by (rule id_take_nth_drop)
    then have "select_trial C dg ?tag 0 (pt_peers t) = select_trial C dg ?tag 0 (take j (pt_peers t) @ ?rest)"
      by (rule arg_cong)
    also have "\<dots> = select_trial C dg ?tag j ?rest"
      using select_trial_append [OF select_trial_unclaimed [of C dg "take j (pt_peers t)"], of 0 ?rest] assms(3,9) True by simp
    finally have "select_trial C dg ?tag 0 (pt_peers t) = select_trial C dg ?tag j ?rest" .
    with True hdr valid assms(4,5) tag show ?thesis
      by (simp add: select_def)
  qed
qed

section \<open>Two nodes for concrete evaluation\<close>

definition demo_node :: "u16 \<Rightarrow> u16 \<Rightarrow> u32 \<Rightarrow> socket_addr option \<Rightarrow> bool \<Rightarrow> u32 runtime_config" where
  "demo_node me other other_ip endpoint obf =
     \<lparr>rc_mode = Hub, rc_local_id = me, rc_listen = SockV4 0 0, rc_overlay = 0, rc_obfuscate = obf,
      rc_keepalive_secs = 25, rc_mtu = 1452, rc_device = Tun ''rove0'' True,
      rc_peers = [\<lparr>rp_id = other, rp_psk = replicate 32 0x5a, rp_allowed_src = other_ip,
                   rp_endpoint = endpoint, rp_name = ''peer''\<rparr>]\<rparr>"

definition demo_packet :: "u8 \<Rightarrow> u8 \<Rightarrow> bytes" where
  "demo_packet src dst = 0x45 # replicate 11 0 @ [10, 0, 0, src] @ [10, 0, 0, dst]"

definition demo_hub :: "bool \<Rightarrow> u32 peer_table" where
  "demo_hub obf = peer_table_new demo_crypto (demo_node 1 2 0x0A000002 None obf) 7"

definition demo_spoke :: "bool \<Rightarrow> u32 peer_table" where
  "demo_spoke obf = peer_table_new demo_crypto (demo_node 2 1 0x0A000001 (Some (SockV4 9 18020)) obf) 5"

definition demo_datagram :: "bool \<Rightarrow> bytes" where
  "demo_datagram obf = fst (the (fst (seal_for demo_crypto (demo_spoke obf) 1 0 (demo_packet 2 1))))"

lemma demo_node_ok: "me \<noteq> 0 \<Longrightarrow> other \<noteq> 0 \<Longrightarrow> me \<noteq> other \<Longrightarrow> runtime_ok (demo_node me other ip ep obf)"
  by (simp add: runtime_ok_def demo_node_def peer_ok_def device_ok_def KEY_LEN_def INNER_MTU_def
      MIN_INNER_MTU_def)

lemma demo_hub_ok: "peer_table_ok demo_crypto (demo_hub obf)"
  unfolding demo_hub_def by (rule peer_table_new_ok, rule demo_node_ok) simp_all

lemma demo_hub_ingest:
  "fst (ingest demo_crypto demo_net (demo_hub True) (demo_datagram True) (SockV4 3 4)) =
     Data 2 (demo_packet 2 1)"
  by code_simp

section \<open>Properties\<close>

text \<open>
  C27: the index of a peer table stays consistent: in every table reached from a validated
  configuration by receiving and sending, ids are unique, the id index points exactly at the
  peer with that id, and every cached receive key belongs to its link and epoch.
\<close>

theorem peer_table_invariant:
  assumes "runtime_ok cfg" and "(table_step C N)\<^sup>*\<^sup>* (peer_table_new C cfg ep) t"
  shows "peer_table_ok C t"
  using table_steps_ok [OF assms(2)] peer_table_new_ok [OF assms(1)] by blast

theorem peer_table_invariant_witness:
  "peer_table_ok demo_crypto
     (snd (ingest demo_crypto demo_net (demo_hub True) (demo_datagram True) (SockV4 3 4)))"
proof (rule peer_table_invariant)
  show "runtime_ok (demo_node 1 2 0x0A000002 None True)" by (simp add: demo_node_ok)
  show "(table_step demo_crypto demo_net)\<^sup>*\<^sup>*
      (peer_table_new demo_crypto (demo_node 1 2 0x0A000002 None True) 7)
      (snd (ingest demo_crypto demo_net (demo_hub True) (demo_datagram True) (SockV4 3 4)))"
    unfolding demo_hub_def by (rule r_into_rtranclp, rule table_step.received, rule prod.collapse [symmetric])
qed

text \<open>
  C15: endpoints move only for authenticated traffic. A dropped datagram leaves every endpoint and
  every transmit session as it was. A datagram taken up opened under the receive key of the peer
  it is attributed to; only that peer's endpoint changes, to the datagram's source; and a data
  packet's inner source lies in that peer's own prefix.
\<close>

theorem ingest_learns_only_authenticated:
  assumes "peer_table_ok C t" and "ingest C N t dg src = (out, t')"
  shows "map p_tx (pt_peers t') = map p_tx (pt_peers t) \<and>
    (out = IDrop \<and> map p_endpoint (pt_peers t') = map p_endpoint (pt_peers t) \<or>
     (\<exists>i h pt. i < length (pt_peers t) \<and> h_key_id h = p_id (pt_peers t ! i) \<and> header_is_valid h \<and>
       aead_open C (AeadKey (session_key C (p_rx_link_key (pt_peers t ! i)) (h_epoch h))) (h_seq h)
         (drop HEADER_LEN dg) = Some pt \<and>
       map p_endpoint (pt_peers t') = (map p_endpoint (pt_peers t))[i := Some src] \<and>
       (out = Keepalive (p_id (pt_peers t ! i)) \<or>
        out = Data (p_id (pt_peers t ! i)) pt \<and>
        (\<exists>a. ipv4_src pt = Some a \<and> net_contains N (p_allowed_src (pt_peers t ! i)) a))))"
proof -
  have auth: "h_key_id h = p_id (pt_peers t ! i) \<and> header_is_valid h \<and>
      aead_open C (AeadKey (session_key C (p_rx_link_key (pt_peers t ! i)) (h_epoch h))) (h_seq h)
        (drop HEADER_LEN dg) = Some pt"
    if "select C t dg tag = Some (i, h)"
      "accept C (p_rx (pt_peers t ! i)) h (drop HEADER_LEN dg) = (Accept pt, rx)" for i h tag pt rx
    using select_Some [OF assms(1) that(1)] that(2)
      accept_authentic(2) [OF peer_table_ok_nth(1) [OF assms(1)] that(2) refl]
      peer_table_ok_nth(2) [OF assms(1), of i] by simp
  from assms show ?thesis
  proof (cases rule: ingest_cases)
    case unseen
    then show ?thesis by simp
  next
    case (spoofed i h rx pt)
    then show ?thesis by simp
  next
    case (keepalive i h rx pt)
    with auth [OF keepalive(1,3)] show ?thesis
      by (auto intro!: exI [of _ i] exI [of _ h])
  next
    case (data i h rx pt a)
    with auth [OF data(1,3)] show ?thesis
      by (auto intro!: exI [of _ i] exI [of _ h])
  qed
qed

theorem ingest_learns_only_authenticated_witness:
  "\<exists>t'. ingest demo_crypto demo_net (demo_hub True) (demo_datagram True) (SockV4 3 4) =
      (Data 2 (demo_packet 2 1), t') \<and>
    (\<exists>a. ipv4_src (demo_packet 2 1) = Some a \<and> net_contains demo_net 0x0A000002 a) \<and>
    map p_endpoint (pt_peers t') = [Some (SockV4 3 4)]"
proof -
  obtain t' where t': "ingest demo_crypto demo_net (demo_hub True) (demo_datagram True) (SockV4 3 4) =
      (Data 2 (demo_packet 2 1), t')"
    using demo_hub_ingest by (cases "ingest demo_crypto demo_net (demo_hub True) (demo_datagram True) (SockV4 3 4)") auto
  have one: "pt_peers (demo_hub True) = [pt_peers (demo_hub True) ! 0]"
    "p_allowed_src (pt_peers (demo_hub True) ! 0) = 0x0A000002"
    by (simp_all add: demo_hub_def peer_table_new_def demo_node_def peer_new_def Let_def)
  have "length (pt_peers (demo_hub True)) = 1" by (subst one(1)) simp
  then have "map p_endpoint (pt_peers (demo_hub True)) = [p_endpoint (pt_peers (demo_hub True) ! 0)]"
    by (subst one(1)) simp
  with ingest_learns_only_authenticated [OF demo_hub_ok t'] t' one(2)
    \<open>length (pt_peers (demo_hub True)) = 1\<close> show ?thesis
    by auto
qed

text \<open>
  C31: an inner destination is routed to a peer whose prefix contains it, with no longer
  matching prefix in the table, and there is no route exactly when no prefix contains it.
\<close>

theorem route_longest_prefix:
  "case route N t dst of
     None \<Rightarrow> list_all (\<lambda>p. \<not> net_contains N (p_allowed_src p) dst) (pt_peers t)
   | Some q \<Rightarrow> list_ex (\<lambda>p. p_id p = q \<and> net_contains N (p_allowed_src p) dst \<and>
         list_all (\<lambda>p'. net_prefix_len N (p_allowed_src p') \<le> net_prefix_len N (p_allowed_src p))
           (filter (\<lambda>p'. net_contains N (p_allowed_src p') dst) (pt_peers t))) (pt_peers t)"
proof (cases "max_by_key (\<lambda>p. net_prefix_len N (p_allowed_src p))
    (filter (\<lambda>p. net_contains N (p_allowed_src p) dst) (pt_peers t))")
  case None
  then show ?thesis by (auto simp: route_def list_all_iff filter_empty_conv)
next
  case (Some p)
  from max_by_key_Some [OF this] Some show ?thesis
    by (auto simp: route_def list_all_iff list_ex_iff)
qed

text \<open>
  C25: two nodes that list each other under one key, with the same obfuscation setting, can talk.
  When the sender knows an endpoint of the receiver and its boot epoch is not zero, the first
  packet it seals for the receiver, with a source address in the prefix the receiver allows the
  sender, arrives there as data attributed to the sender. The one exception is under obfuscation:
  a peer listed before the sender at the receiver may claim the datagram, when the header
  unmasked with that peer's key happens to look like one of that peer's.
\<close>

theorem mesh_delivery:
  assumes "crypto_ok C" and "linked a b i j" and "rp_endpoint (rc_peers a ! i) = Some dst" and "ep \<noteq> 0"
    and "ipv4_src inner = Some ip" and "net_contains N (rp_allowed_src (rc_peers b ! j)) ip"
  shows "\<exists>dg. fst (seal_for C (peer_table_new C a ep) (rc_local_id b) 0 inner) = Some (dg, dst) \<and>
    (fst (ingest C N (peer_table_new C b ep') dg src) = Data (rc_local_id a) inner \<or>
     rc_obfuscate b \<and> list_ex (mask_claims C dg) (take j (pt_peers (peer_table_new C b ep'))))"
proof -
  let ?ta = "peer_table_new C a ep" and ?tb = "peer_table_new C b ep'"
  define lk where "lk = link_key C (rp_psk (rc_peers a ! i)) (rc_local_id a) (rc_local_id b)"
  define dg where "dg = seal_datagram C lk (AeadKey (session_key C lk ep)) (rc_local_id a) ep 1 0 inner (rc_obfuscate b)"
  have okb: "peer_table_ok C ?tb"
    using assms(2) by (simp add: linked_def peer_table_new_ok)
  have i: "i < length (pt_peers ?ta)" "pt_by_id ?ta (rc_local_id b) = Some i"
    using assms(2) peer_table_ok_nth(3) [OF peer_table_new_ok, of a i C ep]
    by (simp_all add: linked_def peer_table_new_def peer_new_def Let_def)
  have j: "j < length (pt_peers ?tb)" "p_rx_link_key (pt_peers ?tb ! j) = lk"
    "p_id (pt_peers ?tb ! j) = rc_local_id a" "p_rx (pt_peers ?tb ! j) = rx_new lk"
    "p_allowed_src (pt_peers ?tb ! j) = rp_allowed_src (rc_peers b ! j)" "pt_obfuscate ?tb = rc_obfuscate b"
    using assms(2) by (simp_all add: linked_def peer_table_new_def peer_new_def Let_def lk_def)
  have sent: "fst (seal_for C ?ta (rc_local_id b) 0 inner) = Some (dg, dst)"
    using assms(2,3) i
    by (simp add: seal_for_def seal_def Let_def linked_def peer_table_new_def peer_new_def tx_new_def
        dg_def lk_def)
  have "fst (ingest C N ?tb dg src) = Data (rc_local_id a) inner"
    if unclaimed: "rc_obfuscate b \<longrightarrow> \<not> list_ex (mask_claims C dg) (take j (pt_peers ?tb))"
  proof -
    have sel: "select C ?tb dg (the (datagram_tag dg)) = Some (j, \<lparr>h_version = WIRE_VERSION, h_flags = 0,
        h_key_id = rc_local_id a, h_epoch = ep, h_seq = 1\<rparr>)"
      using assms(4) unclaimed j by (intro select_sealed [OF assms(1) okb]) (simp_all add: dg_def)
    have "cur_epoch (rx_new lk) < ep" using assms(4) by (simp add: rx_new_def word_gt_0)
    from accept_newer_epoch [of "rx_new lk" "\<lparr>h_version = WIRE_VERSION, h_flags = 0,
        h_key_id = rc_local_id a, h_epoch = ep, h_seq = 1\<rparr>" C "drop HEADER_LEN dg"] this
    have "\<exists>rx. accept C (rx_new lk) \<lparr>h_version = WIRE_VERSION, h_flags = 0, h_key_id = rc_local_id a,
        h_epoch = ep, h_seq = 1\<rparr> (drop HEADER_LEN dg) = (Accept inner, rx)"
      by (auto simp: dg_def drop_HEADER_seal_datagram aead_open_seal [OF assms(1)] rx_new_def)
    then show ?thesis
      using sel j assms(5,6) datagram_tag_seal [OF assms(1)]
      by (auto simp: ingest_def dg_def header_is_keepalive_def)
  qed
  with sent show ?thesis by blast
qed

text \<open>A hub that lists another spoke before the sender.\<close>

definition demo_hub_config :: "u32 runtime_config" where
  "demo_hub_config = (demo_node 1 2 0x0A000002 None True)\<lparr>rc_peers :=
     [\<lparr>rp_id = 3, rp_psk = replicate 32 0x11, rp_allowed_src = 0x0A000003, rp_endpoint = None, rp_name = ''other''\<rparr>,
      \<lparr>rp_id = 2, rp_psk = replicate 32 0x5a, rp_allowed_src = 0x0A000002, rp_endpoint = None, rp_name = ''peer''\<rparr>]\<rparr>"

lemma demo_hub_config_ok: "runtime_ok demo_hub_config"
  by (simp add: runtime_ok_def demo_hub_config_def demo_node_def peer_ok_def device_ok_def KEY_LEN_def INNER_MTU_def
      MIN_INNER_MTU_def)

theorem mesh_delivery_witness:
  "\<exists>dg. fst (seal_for demo_crypto (demo_spoke True) 1 0 (demo_packet 2 1)) = Some (dg, SockV4 9 18020) \<and>
    fst (ingest demo_crypto demo_net (peer_table_new demo_crypto demo_hub_config 7) dg (SockV4 3 4)) = Data 2 (demo_packet 2 1)"
proof -
  let ?a = "demo_node 2 1 0x0A000001 (Some (SockV4 9 18020)) True"
  have "linked ?a demo_hub_config 0 1"
    using demo_hub_config_ok by (simp add: linked_def demo_node_ok) (simp add: demo_node_def demo_hub_config_def)
  moreover have "ipv4_src (demo_packet 2 1) = Some 0x0A000002" by code_simp
  ultimately obtain dg where dg: "fst (seal_for demo_crypto (demo_spoke True) 1 0 (demo_packet 2 1)) = Some (dg, SockV4 9 18020)"
    "fst (ingest demo_crypto demo_net (peer_table_new demo_crypto demo_hub_config 7) dg (SockV4 3 4)) = Data 2 (demo_packet 2 1) \<or>
     list_ex (mask_claims demo_crypto dg) (take 1 (pt_peers (peer_table_new demo_crypto demo_hub_config 7)))"
    using mesh_delivery [OF demo_crypto_ok, of ?a demo_hub_config 0 1 "SockV4 9 18020" 5 "demo_packet 2 1" "0x0A000002" demo_net 7 "SockV4 3 4"]
    unfolding demo_spoke_def by (auto simp: demo_node_def demo_net_def demo_hub_config_def)
  have "\<not> list_ex (mask_claims demo_crypto (fst (the (fst (seal_for demo_crypto (demo_spoke True) 1 0 (demo_packet 2 1))))))
      (take 1 (pt_peers (peer_table_new demo_crypto demo_hub_config 7)))" by code_simp
  then show ?thesis using dg by auto
qed

end
