(* ===== verification/Subnetra_Reactor.thy ===== *)
theory Subnetra_Reactor
  imports Subnetra_Peer
begin

text \<open>
  The data-plane reactor (\<open>src/subnetra/reactor.rs\<close>): one task that owns the socket and the
  peer table. A handler returns the datagrams it puts on the socket, in order; the local
  delivery queue is a bounded list. A failed socket send is only logged, so it is not a branch.
\<close>

section \<open>State\<close>

definition CHANNEL_DEPTH :: nat where "CHANNEL_DEPTH = 1024"

record 'n reactor =
  r_table :: "'n peer_table"
  r_mode :: mode
  r_overlay_ip :: u32
  r_keepalive_secs :: u64
  r_obfuscate :: bool
  r_to_local :: "bytes list"

type_synonym sends = "(bytes \<times> socket_addr) list"

definition reactor_new :: "crypto \<Rightarrow> 'n ipv4net \<Rightarrow> 'n runtime_config \<Rightarrow> u64 \<Rightarrow> 'n reactor" where
  "reactor_new C N cfg epoch =
     \<lparr>r_table = peer_table_new C cfg epoch, r_mode = rc_mode cfg, r_overlay_ip = overlay_ip N cfg,
      r_keepalive_secs = rc_keepalive_secs cfg, r_obfuscate = rc_obfuscate cfg, r_to_local = []\<rparr>"

text \<open>A full queue refuses; the packet is then dropped.\<close>

definition try_send_local :: "bytes \<Rightarrow> 'n reactor \<Rightarrow> 'n reactor" where
  "try_send_local pkt r =
     (if length (r_to_local r) < CHANNEL_DEPTH then r\<lparr>r_to_local := r_to_local r @ [pkt]\<rparr> else r)"

section \<open>Handlers\<close>

definition relay ::
  "crypto \<Rightarrow> 'n ipv4net \<Rightarrow> 'n reactor \<Rightarrow> u16 \<Rightarrow> u32 \<Rightarrow> bytes \<Rightarrow> sends \<times> 'n reactor" where
  "relay C N r from_peer dst inner =
     (case route N (r_table r) dst of None \<Rightarrow> ([], r) | Some to_peer \<Rightarrow>
      if to_peer = from_peer then ([], r)
      else case seal_for C (r_table r) to_peer 0 inner of
             (Some out, t) \<Rightarrow> ([out], r\<lparr>r_table := t\<rparr>)
           | (None, t) \<Rightarrow> ([], r\<lparr>r_table := t\<rparr>))"

definition handle_inbound ::
  "crypto \<Rightarrow> 'n ipv4net \<Rightarrow> 'n reactor \<Rightarrow> bytes \<Rightarrow> socket_addr \<Rightarrow> sends \<times> 'n reactor" where
  "handle_inbound C N r datagram src =
     (case ingest C N (r_table r) datagram src of
        (Data peer_id inner, t) \<Rightarrow>
          (let r1 = r\<lparr>r_table := t\<rparr>
           in case ipv4_dst inner of
                None \<Rightarrow> ([], r1)
              | Some dst \<Rightarrow>
                  if dst = r_overlay_ip r1 then ([], try_send_local inner r1)
                  else if r_mode r1 = Hub then relay C N r1 peer_id dst inner
                  else ([], r1))
      | (Keepalive peer_id, t) \<Rightarrow> ([], r\<lparr>r_table := t\<rparr>)
      | (IDrop, t) \<Rightarrow> ([], r\<lparr>r_table := t\<rparr>))"

definition handle_outbound :: "crypto \<Rightarrow> 'n ipv4net \<Rightarrow> 'n reactor \<Rightarrow> bytes \<Rightarrow> sends \<times> 'n reactor" where
  "handle_outbound C N r packet =
     (case ipv4_dst packet of None \<Rightarrow> ([], r) | Some dst \<Rightarrow>
      (case route N (r_table r) dst of None \<Rightarrow> ([], r) | Some to_peer \<Rightarrow>
       (case seal_for C (r_table r) to_peer 0 packet of
          (Some out, t) \<Rightarrow> ([out], r\<lparr>r_table := t\<rparr>)
        | (None, t) \<Rightarrow> ([], r\<lparr>r_table := t\<rparr>))))"

fun keepalive_to :: "crypto \<Rightarrow> 'n reactor \<Rightarrow> u16 list \<Rightarrow> sends \<times> 'n reactor" where
  "keepalive_to C r [] = ([], r)"
| "keepalive_to C r (q # qs) =
     (let (out, t) = seal_for C (r_table r) q KEEPALIVE [];
          (outs, r') = keepalive_to C (r\<lparr>r_table := t\<rparr>) qs
      in (case out of Some s \<Rightarrow> s # outs | None \<Rightarrow> outs, r'))"

definition send_keepalives :: "crypto \<Rightarrow> 'n reactor \<Rightarrow> sends \<times> 'n reactor" where
  "send_keepalives C r = keepalive_to C r (peers_with_endpoint (r_table r))"

text \<open>The next timer period in seconds, given the random word drawn for the jitter.\<close>

definition keepalive_interval :: "'n reactor \<Rightarrow> u64 \<Rightarrow> u64" where
  "keepalive_interval r random_u64 =
     (let k = max (r_keepalive_secs r) 1
      in if r_obfuscate r then
           let half = k div 2;
               jitter = (if 0 < half then random_u64 mod (k - half + 1) else 0)
           in half + jitter
         else k)"

section \<open>The event loop\<close>

text \<open>
  What \<open>select!\<close> can pick: a datagram, a socket error, a packet from the local stack, or (on a
  spoke) the keepalive timer; and the local stack taking a packet off the delivery queue.
\<close>

datatype event = Received bytes socket_addr | RecvError | LocalPacket bytes | KeepaliveTick | LocalTake

definition reactor_step :: "crypto \<Rightarrow> 'n ipv4net \<Rightarrow> 'n reactor \<Rightarrow> event \<Rightarrow> sends \<times> 'n reactor" where
  "reactor_step C N r ev =
     (case ev of
        Received dg src \<Rightarrow> handle_inbound C N r dg src
      | RecvError \<Rightarrow> ([], r)
      | LocalPacket pkt \<Rightarrow> handle_outbound C N r pkt
      | KeepaliveTick \<Rightarrow> if r_mode r = Spoke then send_keepalives C r else ([], r)
      | LocalTake \<Rightarrow> ([], r\<lparr>r_to_local := tl (r_to_local r)\<rparr>))"

fun reactor_run :: "crypto \<Rightarrow> 'n ipv4net \<Rightarrow> 'n reactor \<Rightarrow> event list \<Rightarrow> sends \<times> 'n reactor" where
  "reactor_run C N r [] = ([], r)"
| "reactor_run C N r (ev # evs) =
     (let (out, r') = reactor_step C N r ev; (outs, r'') = reactor_run C N r' evs in (out @ outs, r''))"

section \<open>Invariant\<close>

definition reactor_ok :: "crypto \<Rightarrow> 'n reactor \<Rightarrow> bool" where
  "reactor_ok C r \<longleftrightarrow> peer_table_ok C (r_table r) \<and> length (r_to_local r) \<le> CHANNEL_DEPTH"

lemma reactor_new_ok: "runtime_ok cfg \<Longrightarrow> reactor_ok C (reactor_new C N cfg ep)"
  by (simp add: reactor_ok_def reactor_new_def peer_table_new_ok)

lemma try_send_local_ok [simp]:
  "reactor_ok C r \<Longrightarrow> reactor_ok C (try_send_local pkt r)"
  "r_table (try_send_local pkt r) = r_table r" "r_overlay_ip (try_send_local pkt r) = r_overlay_ip r"
  "r_mode (try_send_local pkt r) = r_mode r"
  by (auto simp: reactor_ok_def try_send_local_def)

lemma relay_ok: "reactor_ok C r \<Longrightarrow> reactor_ok C (snd (relay C N r q dst inner))"
  by (auto simp: relay_def reactor_ok_def split: option.splits prod.splits dest: seal_for_ok)

lemma handle_inbound_ok:
  assumes "reactor_ok C r"
  shows "reactor_ok C (snd (handle_inbound C N r dg src))"
proof -
  obtain out t where step: "ingest C N (r_table r) dg src = (out, t)" by fastforce
  have "reactor_ok C (r\<lparr>r_table := t\<rparr>)"
    using assms ingest_ok [OF _ step, of] by (simp add: reactor_ok_def)
  then show ?thesis
    by (auto simp: handle_inbound_def step Let_def relay_ok split: ingest_result.splits option.splits)
qed

lemma handle_outbound_ok: "reactor_ok C r \<Longrightarrow> reactor_ok C (snd (handle_outbound C N r pkt))"
  by (auto simp: handle_outbound_def reactor_ok_def split: option.splits prod.splits dest: seal_for_ok)

lemma keepalive_to_ok: "reactor_ok C r \<Longrightarrow> reactor_ok C (snd (keepalive_to C r qs))"
proof (induction qs arbitrary: r)
  case (Cons q qs)
  obtain out t where step: "seal_for C (r_table r) q KEEPALIVE [] = (out, t)" by fastforce
  have "reactor_ok C (r\<lparr>r_table := t\<rparr>)"
    using Cons.prems seal_for_ok [OF _ step] by (simp add: reactor_ok_def)
  from Cons.IH [OF this] show ?case by (simp add: step case_prod_beta)
qed simp

lemma reactor_step_ok: "reactor_ok C r \<Longrightarrow> reactor_ok C (snd (reactor_step C N r ev))"
  by (cases ev)
    (auto simp: reactor_step_def send_keepalives_def handle_inbound_ok handle_outbound_ok keepalive_to_ok,
     auto simp: reactor_ok_def)

lemma reactor_run_ok: "reactor_ok C r \<Longrightarrow> reactor_ok C (snd (reactor_run C N r evs))"
proof (induction evs arbitrary: r)
  case (Cons ev evs)
  from Cons.IH [OF reactor_step_ok [OF Cons.prems]] show ?case by (simp add: case_prod_beta)
qed simp

section \<open>Keepalives\<close>

definition endpoint_of :: "'n peer_table \<Rightarrow> u16 \<Rightarrow> socket_addr option" where
  "endpoint_of t q = (case pt_by_id t q of None \<Rightarrow> None | Some i \<Rightarrow> p_endpoint (pt_peers t ! i))"

lemma endpoint_of_seal_for:
  assumes "peer_table_ok C t" and "seal_for C t q fl inner = (out, t')"
  shows "endpoint_of t' q' = endpoint_of t q'" and "map_option snd out = endpoint_of t q"
proof -
  have nth: "p_endpoint (((pt_peers t)[i := (pt_peers t ! i)\<lparr>p_tx := x\<rparr>]) ! j) = p_endpoint (pt_peers t ! j)"
    if "pt_by_id t q' = Some j" for i j x
  proof -
    have "j < length (pt_peers t)" using assms(1) that by (simp add: peer_table_ok_def)
    then show ?thesis by (cases "i = j") simp_all
  qed
  from assms show "endpoint_of t' q' = endpoint_of t q'"
    by (cases rule: seal_for_cases) (auto simp: endpoint_of_def nth split: option.splits)
  show "map_option snd out = endpoint_of t q"
    using assms(2) by (auto simp: seal_for_def endpoint_of_def split: option.splits prod.splits)
qed

lemma keepalive_to_endpoints:
  assumes "peer_table_ok C (r_table r)" and "\<forall>q \<in> set qs. endpoint_of (r_table r) q \<noteq> None"
  shows "map (\<lambda>s. Some (snd s)) (fst (keepalive_to C r qs)) = map (endpoint_of (r_table r)) qs"
  using assms
proof (induction qs arbitrary: r)
  case (Cons q qs)
  obtain out t where step: "seal_for C (r_table r) q KEEPALIVE [] = (out, t)" by fastforce
  note ep = endpoint_of_seal_for [OF Cons.prems(1) step]
  have "map (\<lambda>s. Some (snd s)) (fst (keepalive_to C (r\<lparr>r_table := t\<rparr>) qs)) = map (endpoint_of t) qs"
    using Cons.IH [of "r\<lparr>r_table := t\<rparr>"] Cons.prems seal_for_ok [OF Cons.prems(1) step] ep(1) by simp
  then show ?case
    using ep Cons.prems(2) by (auto simp: step case_prod_beta)
qed simp

lemma endpoints_listed:
  assumes "peer_table_ok C t"
  shows "map (endpoint_of t) (peers_with_endpoint t) =
    filter (\<lambda>e. e \<noteq> None) (map p_endpoint (pt_peers t))"
proof -
  have "endpoint_of t (p_id p) = p_endpoint p" if "p \<in> set (pt_peers t)" for p
    using that peer_table_ok_nth(3) [OF assms] by (auto simp: endpoint_of_def in_set_conv_nth)
  then show ?thesis
    by (simp add: peers_with_endpoint_def filter_map comp_def)
qed

section \<open>Jitter\<close>

definition jittered :: "u64 \<Rightarrow> u64 \<Rightarrow> u64" where
  "jittered k rnd = k div 2 + (if 0 < k div 2 then rnd mod (k - k div 2 + 1) else 0)"

lemma jitter_range: "k div 2 \<le> jittered k rnd \<and> jittered k rnd \<le> k"
proof (cases "0 < k div 2")
  case False
  then show ?thesis by (simp add: jittered_def word_le_nat_alt unat_div_distrib)
next
  case True
  define n where "n = unat k"
  have lt: "n < 2 ^ 64" using unsigned_less [of k] by (simp add: n_def)
  have half: "unat (k div 2) = n div 2" by (simp add: n_def unat_div_distrib)
  have pos: "0 < n div 2" using True half by (simp add: word_less_nat_alt)
  have diff: "unat (k - k div 2) = n - n div 2"
    using half n_def by (subst unat_sub) (simp_all add: word_le_nat_alt)
  have step: "unat (k - k div 2 + 1) = n - n div 2 + 1"
    using diff lt pos by (subst unat_add_lem [THEN iffD1]) auto
  have j: "unat (rnd mod (k - k div 2 + 1)) \<le> n - n div 2"
    using mod_less_divisor [of "n - n div 2 + 1" "unat rnd"] by (simp add: unat_mod_distrib step)
  have "unat (jittered k rnd) = n div 2 + unat (rnd mod (k - k div 2 + 1))"
    using True half j lt by (simp add: jittered_def) (subst unat_add_lem [THEN iffD1], auto)
  then show ?thesis
    using half j by (simp add: word_le_nat_alt n_def)
qed

section \<open>Properties\<close>

text \<open>
  Whatever a reactor started from a validated configuration receives, sends and delivers, the
  peer table stays well formed and the local delivery queue never exceeds its depth.
\<close>

lemma reactor_invariant:
  assumes "runtime_ok cfg"
  shows "reactor_ok C (snd (reactor_run C N (reactor_new C N cfg ep) evs))"
  by (rule reactor_run_ok, rule reactor_new_ok, rule assms)

lemma reactor_invariant_witness:
  "reactor_ok demo_crypto (snd (reactor_run demo_crypto demo_net
     (reactor_new demo_crypto demo_net (demo_node 1 2 0x0A000002 None True) 7)
     [Received (demo_datagram True) (SockV4 3 4), LocalPacket (demo_packet 1 2)]))"
  by (rule reactor_invariant) (simp add: demo_node_ok)

text \<open>
  C26: forwarding. A received datagram makes the reactor send at most one datagram, and only on a
  hub, for an authenticated data packet addressed elsewhere, to the peer that owns the
  destination and never back to the peer it came from. It makes it deliver at most one packet
  locally, and only a data packet addressed to the node's own overlay address.
\<close>

theorem handle_inbound_forwarding:
  "case handle_inbound C N r dg src of (outs, r') \<Rightarrow>
     (outs = [] \<or>
      (\<exists>q inner t dst q' out. ingest C N (r_table r) dg src = (Data q inner, t) \<and>
         ipv4_dst inner = Some dst \<and> dst \<noteq> r_overlay_ip r \<and> r_mode r = Hub \<and>
         route N t dst = Some q' \<and> q' \<noteq> q \<and> fst (seal_for C t q' 0 inner) = Some out \<and> outs = [out])) \<and>
     (r_to_local r' = r_to_local r \<or>
      (\<exists>q inner t. ingest C N (r_table r) dg src = (Data q inner, t) \<and>
         ipv4_dst inner = Some (r_overlay_ip r) \<and> r_to_local r' = r_to_local r @ [inner] \<and> outs = []))"
proof (cases "ingest C N (r_table r) dg src")
  case (Pair out t)
  then show ?thesis
    by (cases out)
      (auto simp: handle_inbound_def relay_def try_send_local_def Let_def split: option.splits prod.splits)
qed

text \<open>
  On a keepalive tick a spoke sends exactly one datagram to every peer whose endpoint is
  known, in table order, and none to any other address.
\<close>

lemma send_keepalives_reaches_all:
  assumes "reactor_ok C r"
  shows "map (\<lambda>s. Some (snd s)) (fst (send_keepalives C r)) =
    filter (\<lambda>e. e \<noteq> None) (map p_endpoint (pt_peers (r_table r)))"
proof -
  have ok: "peer_table_ok C (r_table r)" using assms by (simp add: reactor_ok_def)
  have "\<forall>q \<in> set (peers_with_endpoint (r_table r)). endpoint_of (r_table r) q \<noteq> None"
  proof
    fix q
    assume "q \<in> set (peers_with_endpoint (r_table r))"
    then have "endpoint_of (r_table r) q \<in> set (map (endpoint_of (r_table r)) (peers_with_endpoint (r_table r)))"
      by simp
    then show "endpoint_of (r_table r) q \<noteq> None"
      unfolding endpoints_listed [OF ok] by simp
  qed
  from keepalive_to_endpoints [OF ok this] show ?thesis
    by (simp add: send_keepalives_def endpoints_listed [OF ok])
qed

lemma send_keepalives_reaches_all_witness:
  "map (\<lambda>s. Some (snd s)) (fst (send_keepalives demo_crypto
     (reactor_new demo_crypto demo_net (demo_node 2 1 0x0A000001 (Some (SockV4 9 18020)) True) 5))) =
   [Some (SockV4 9 18020)]"
proof -
  have "reactor_ok demo_crypto
      (reactor_new demo_crypto demo_net (demo_node 2 1 0x0A000001 (Some (SockV4 9 18020)) True) 5)"
    by (rule reactor_new_ok) (simp add: demo_node_ok)
  from send_keepalives_reaches_all [OF this] show ?thesis
    by (simp add: reactor_new_def peer_table_new_def demo_node_def peer_new_def Let_def)
qed

text \<open>
  The jittered keepalive period of a mesh with obfuscation lies between half of the
  configured period and the whole of it, and is the configured period exactly without
  obfuscation (a configured 0 counts as 1).
\<close>

lemma keepalive_interval_range:
  "let k = max (r_keepalive_secs r) 1; i = keepalive_interval r rnd in
   if r_obfuscate r then k div 2 \<le> i \<and> i \<le> k else i = k"
  using jitter_range [of "max (r_keepalive_secs r) 1" rnd, unfolded jittered_def]
  by (simp add: keepalive_interval_def Let_def)

text \<open>
  C32: the period is zero seconds exactly when obfuscation is on and the configured period is
  at most one second. Validation lets that pass, and a zero period makes the timer panic, on a
  hub as well as on a spoke.
\<close>

theorem keepalive_interval_zero:
  "keepalive_interval r rnd = 0 \<longleftrightarrow> r_obfuscate r \<and> r_keepalive_secs r \<le> 1"
proof -
  let ?k = "max (r_keepalive_secs r) 1"
  have k: "1 \<le> ?k" "?k = 1 \<longleftrightarrow> r_keepalive_secs r \<le> 1"
    by (auto simp: max_def)
  have "jittered ?k rnd = 0 \<longleftrightarrow> ?k = 1"
  proof
    assume "jittered ?k rnd = 0"
    with jitter_range [of ?k rnd] have "unat (?k div 2) = 0" by (simp add: word_le_nat_alt)
    then have "unat ?k div 2 = 0" by (simp add: unat_div_distrib)
    moreover have "unat ?k \<noteq> 0" using k(1) by (metis unat_eq_0 word_not_simps(1) zero_neq_one word_le_0_iff)
    ultimately have "unat ?k = 1" by linarith
    then show "?k = 1" by (simp add: word_unat_eq_iff)
  qed (simp add: jittered_def)
  with k show ?thesis by (auto simp: keepalive_interval_def Let_def jittered_def)
qed

end
