(* ===== verification/Rust_Slice.thy ===== *)
theory Rust_Slice
  imports Rust_Str "HOL-Library.List_Lexorder" "HOL-Library.Char_ord"
begin

text \<open>
  Binary search on slices, as Rust's standard library runs it, and what it finds on sorted
  input. Strings are compared byte by byte, which is the lexicographic order on character codes.
\<close>

section \<open>Binary search\<close>

datatype ordering = Less | Equal | Greater

definition cmp :: "'a :: linorder \<Rightarrow> 'a \<Rightarrow> ordering" where
  "cmp a b = (if a < b then Less else if a = b then Equal else Greater)"

text \<open>The halving loop: the base moves up unless the probed element compares greater.\<close>

function bsearch_base :: "('a \<Rightarrow> ordering) \<Rightarrow> 'a list \<Rightarrow> nat \<Rightarrow> nat \<Rightarrow> nat" where
  "bsearch_base f xs base sz =
     (if sz \<le> 1 then base
      else let half = sz div 2; mid = base + half
           in bsearch_base f xs (if f (xs ! mid) = Greater then base else mid) (sz - half))"
  by auto
termination by (relation "measure (\<lambda>(f, xs, base, sz). sz)") auto

declare bsearch_base.simps [simp del]

definition binary_search_by :: "('a \<Rightarrow> ordering) \<Rightarrow> 'a list \<Rightarrow> nat + nat" where
  "binary_search_by f xs =
     (if xs = [] then Inl 0
      else let base = bsearch_base f xs 0 (length xs)
           in case f (xs ! base) of
                Equal \<Rightarrow> Inr base
              | Less \<Rightarrow> Inl (base + 1)
              | Greater \<Rightarrow> Inl base)"

definition partition_point :: "('a \<Rightarrow> bool) \<Rightarrow> 'a list \<Rightarrow> nat" where
  "partition_point p xs =
     (case binary_search_by (\<lambda>x. if p x then Less else Greater) xs of Inl i \<Rightarrow> i | Inr i \<Rightarrow> i)"

section \<open>What the search finds\<close>

text \<open>The loop ends at the last element that does not compare greater, if there is one.\<close>

lemma bsearch_base_le: "bsearch_base f xs base sz < base + max 1 sz"
proof (induction f xs base sz rule: bsearch_base.induct)
  case (1 f xs base sz)
  show ?case
  proof (cases "sz \<le> 1")
    case False
    let ?half = "sz div 2"
    let ?b = "if f (xs ! (base + ?half)) = Greater then base else base + ?half"
    have "bsearch_base f xs base sz = bsearch_base f xs ?b (sz - ?half)"
      using False by (subst bsearch_base.simps) (simp add: Let_def)
    also have "\<dots> < ?b + max 1 (sz - ?half)"
      using 1 [OF False refl refl] .
    also have "\<dots> \<le> base + max 1 sz" using False by auto
    finally show ?thesis .
  qed (simp add: bsearch_base.simps)
qed

lemma bsearch_base_last:
  assumes "\<And>i j. i < j \<Longrightarrow> j < length xs \<Longrightarrow> f (xs ! i) = Greater \<Longrightarrow> f (xs ! j) = Greater"
    and "0 < sz" and "base + sz \<le> length xs"
    and "f (xs ! base) \<noteq> Greater \<or> base = 0"
    and "\<And>i. base + sz \<le> i \<Longrightarrow> i < length xs \<Longrightarrow> f (xs ! i) = Greater"
  shows "(f (xs ! bsearch_base f xs base sz) \<noteq> Greater \<or> bsearch_base f xs base sz = 0) \<and>
    (\<forall>i. bsearch_base f xs base sz < i \<and> i < length xs \<longrightarrow> f (xs ! i) = Greater)"
  using assms
proof (induction f xs base sz rule: bsearch_base.induct)
  case (1 f xs base sz)
  show ?case
  proof (cases "sz \<le> 1")
    case True
    with "1.prems" have "sz = 1" by simp
    with "1.prems" show ?thesis by (auto simp: bsearch_base.simps)
  next
    case False
    let ?half = "sz div 2"
    let ?b = "if f (xs ! (base + ?half)) = Greater then base else base + ?half"
    have eq: "bsearch_base f xs base sz = bsearch_base f xs ?b (sz - ?half)"
      using False by (subst bsearch_base.simps) (simp add: Let_def)
    have upper: "f (xs ! i) = Greater" if "?b + (sz - ?half) \<le> i" "i < length xs" for i
    proof (cases "f (xs ! (base + ?half)) = Greater")
      case True
      have "base + ?half \<le> i" using that True False by auto
      with "1.prems"(1) [of "base + ?half" i] True that show ?thesis
        by (cases "base + ?half = i") auto
    next
      case ng: False
      with that False have "base + sz \<le> i" by auto
      with "1.prems"(5) that show ?thesis by blast
    qed
    have pos: "0 < sz - ?half" using False by linarith
    have fits: "?b + (sz - ?half) \<le> length xs" using "1.prems"(3) by (cases "f (xs ! (base + ?half)) = Greater") auto
    have low: "f (xs ! ?b) \<noteq> Greater \<or> ?b = 0" using "1.prems"(4) by (cases "f (xs ! (base + ?half)) = Greater") auto
    show ?thesis
      unfolding eq by (rule "1.IH" [OF False refl refl "1.prems"(1) pos fits low upper])
  qed
qed

lemma binary_search_by_base:
  assumes "\<forall>i j. i < j \<and> j < length xs \<and> f (xs ! i) = Greater \<longrightarrow> f (xs ! j) = Greater" and "xs \<noteq> []"
  defines "b \<equiv> bsearch_base f xs 0 (length xs)"
  shows "b < length xs" and "f (xs ! b) \<noteq> Greater \<or> b = 0"
    and "\<And>i. b < i \<Longrightarrow> i < length xs \<Longrightarrow> f (xs ! i) = Greater"
proof -
  show "b < length xs"
    using bsearch_base_le [of f xs 0 "length xs"] assms(2) by (cases xs) (auto simp: b_def)
  have "(f (xs ! b) \<noteq> Greater \<or> b = 0) \<and> (\<forall>i. b < i \<and> i < length xs \<longrightarrow> f (xs ! i) = Greater)"
    unfolding b_def by (rule bsearch_base_last) (use assms in auto)
  then show "f (xs ! b) \<noteq> Greater \<or> b = 0"
    and "\<And>i. b < i \<Longrightarrow> i < length xs \<Longrightarrow> f (xs ! i) = Greater" by blast+
qed

lemma partition_point_takeWhile:
  assumes "\<And>i j. i < j \<Longrightarrow> j < length xs \<Longrightarrow> p (xs ! j) \<Longrightarrow> p (xs ! i)"
  shows "partition_point p xs = length (takeWhile p xs)"
proof (cases "xs = []")
  case False
  let ?f = "\<lambda>x. if p x then Less else Greater" and ?b = "bsearch_base (\<lambda>x. if p x then Less else Greater) xs 0 (length xs)"
  have mono: "\<forall>i j. i < j \<and> j < length xs \<and> ?f (xs ! i) = Greater \<longrightarrow> ?f (xs ! j) = Greater"
    using assms by (auto split: if_splits)
  note b = binary_search_by_base [OF mono False]
  show ?thesis
  proof (cases "p (xs ! ?b)")
    case True
    have above: "\<not> p (xs ! Suc ?b)" if "Suc ?b < length xs"
      using b(3) [of "Suc ?b"] that by (auto split: if_splits)
    have "takeWhile p xs = take (Suc ?b) xs"
      by (rule takeWhile_eq_take_P_nth) (use b(1) True assms above in \<open>auto simp: less_Suc_eq\<close>)
    with True False b(1) show ?thesis
      by (simp add: partition_point_def binary_search_by_def Let_def)
  next
    case np: False
    with b have "?b = 0" by auto
    with np False have "takeWhile p xs = []" by (cases xs) auto
    with np False \<open>?b = 0\<close> show ?thesis
      by (simp add: partition_point_def binary_search_by_def Let_def)
  qed
qed (simp add: partition_point_def binary_search_by_def)

lemma partition_point_less:
  assumes "\<And>i j. i < j \<Longrightarrow> j < length xs \<Longrightarrow> p (xs ! j) \<Longrightarrow> p (xs ! i)"
  shows "i < partition_point p xs \<longleftrightarrow> i < length xs \<and> p (xs ! i)"
proof -
  let ?k = "length (takeWhile p xs)"
  have k: "partition_point p xs = ?k" by (rule partition_point_takeWhile) (rule assms)
  have "i < ?k" if "i < length xs" "p (xs ! i)"
  proof (rule ccontr)
    assume "\<not> i < ?k"
    then have "?k < length xs" "?k \<le> i" using that(1) by simp_all
    then have "\<not> p (xs ! ?k)" using nth_length_takeWhile [of p xs] by simp
    with \<open>?k \<le> i\<close> assms [of ?k i] that show False by (cases "?k = i") auto
  qed
  moreover have "i < length xs \<and> p (xs ! i)" if "i < ?k"
    using set_takeWhileD [OF nth_mem [OF that]] takeWhile_nth [OF that] length_takeWhile_le [of p xs] that
    by simp
  ultimately show ?thesis using k by auto
qed

text \<open>On a strictly sorted list the search returns the position of the key, if it is there.\<close>

lemma binary_search_sorted:
  fixes k :: "'a \<Rightarrow> 'b :: linorder"
  assumes "sorted_wrt (\<lambda>x y. k x < k y) xs"
  shows "binary_search_by (\<lambda>x. cmp (k x) key) xs = Inr i \<longleftrightarrow> i < length xs \<and> k (xs ! i) = key"
proof (cases "xs = []")
  case False
  let ?f = "\<lambda>x. cmp (k x) key" and ?b = "bsearch_base (\<lambda>x. cmp (k x) key) xs 0 (length xs)"
  have lt: "k (xs ! i) < k (xs ! j)" if "i < j" "j < length xs" for i j
    using assms that by (simp add: sorted_wrt_iff_nth_less)
  have mono: "\<forall>i j. i < j \<and> j < length xs \<and> ?f (xs ! i) = Greater \<longrightarrow> ?f (xs ! j) = Greater"
    using lt by (fastforce simp: cmp_def split: if_splits)
  note b = binary_search_by_base [OF mono False]
  have "i = ?b" if "i < length xs" "k (xs ! i) = key"
  proof (rule ccontr)
    assume "i \<noteq> ?b"
    then consider "i < ?b" | "?b < i" by linarith
    then show False
    proof cases
      case 1
      with lt [of i ?b] b(1,2) that show False by (auto simp: cmp_def split: if_splits)
    next
      case 2
      with b(3) [of i] that show False by (simp add: cmp_def)
    qed
  qed
  then show ?thesis
    using b(1) False
    by (auto simp: binary_search_by_def Let_def cmp_def split: if_splits)
qed (simp add: binary_search_by_def)

end
