(* ===== verification/Addrbook_Format.thy ===== *)
theory Addrbook_Format
  imports Rust_Slice Rust_Net
begin

text \<open>
  The decoded address book and its structural validation (\<open>src/addrbook/format.rs\<close>). Error
  messages are constructors; the two address families share their range check.
\<close>

section \<open>Decoded artifact\<close>

record category =
  c_name :: string
  c_parent :: u32

record str_entry =
  se_text :: string
  se_catset :: u32

record raw_book =
  build_epoch :: u64
  categories :: "category list"
  catset_words :: u32
  catsets :: "u64 list"
  ip4 :: "(u32 \<times> u32 \<times> u32) list"
  ip6 :: "(u128 \<times> u128 \<times> u32) list"
  domain_exact :: "str_entry list"
  domain_suffix :: "str_entry list"
  rb_keywords :: "str_entry list"

definition MAX_CATEGORIES :: nat where "MAX_CATEGORIES = 100000"
definition MAX_ENTRIES :: nat where "MAX_ENTRIES = 8000000"

definition IPV4_MAPPED_START :: u128 where "IPV4_MAPPED_START = push_bit 32 0xffff"
definition IPV4_MAPPED_END :: u128 where "IPV4_MAPPED_END = IPV4_MAPPED_START OR 0xffffffff"

datatype format_error =
  TooManyCategories | WordsMismatch | CatsetsWithoutWords | CatsetsRagged | CategoriesUnsorted
| CategoryEmpty | CategorySyntax | ParentMissing | ParentDangling | ParentMismatch | RootWithParent
| CatsetStrayBits | DanglingCatset | RangeReversed | RangeMapped | RangeUnsorted
| EntriesUnsorted | EntryEmpty | EntryNoncanonical

section \<open>Validation\<close>

definition valid_segment :: "string \<Rightarrow> bool" where
  "valid_segment seg \<longleftrightarrow>
     seg \<noteq> [] \<and>
     list_all (\<lambda>ch. is_ascii_lowercase ch \<or> is_ascii_digit ch \<or> ch \<in> set ''-_.@!'') seg"

definition check_category :: "category list \<Rightarrow> category \<Rightarrow> format_error option" where
  "check_category cats c =
     (if c_name c = [] then Some CategoryEmpty
      else if \<not> list_all valid_segment (split_on (CHR ''/'') (c_name c)) then Some CategorySyntax
      else case rsplit_once (CHR ''/'') (c_name c) of
             Some (expected_parent, _) \<Rightarrow>
               if c_parent c = - 1 then Some ParentMissing
               else if length cats \<le> unat (c_parent c) then Some ParentDangling
               else if c_name (cats ! unat (c_parent c)) \<noteq> expected_parent then Some ParentMismatch
               else None
           | None \<Rightarrow> if c_parent c \<noteq> - 1 then Some RootWithParent else None)"

fun first_error :: "('a \<Rightarrow> 'e option) \<Rightarrow> 'a list \<Rightarrow> 'e option" where
  "first_error f [] = None"
| "first_error f (x # xs) = (case f x of Some e \<Rightarrow> Some e | None \<Rightarrow> first_error f xs)"

definition check_stray :: "nat \<Rightarrow> nat \<Rightarrow> nat \<Rightarrow> u64 list \<Rightarrow> format_error option" where
  "check_stray n_cats words n_sets sets =
     (let remainder = n_cats mod 64
      in if remainder \<noteq> 0 then
           let valid_last_word = push_bit remainder 1 - 1
           in first_error (\<lambda>i. if sets ! (i * words + (words - 1)) AND NOT valid_last_word \<noteq> 0
                               then Some CatsetStrayBits else None) [0..<n_sets]
         else None)"

definition check_catset :: "nat \<Rightarrow> u32 \<Rightarrow> format_error option" where
  "check_catset n_sets cs = (if n_sets \<le> unat cs then Some DanglingCatset else None)"

fun check_ranges ::
  "('a :: linorder \<Rightarrow> 'a \<Rightarrow> bool) \<Rightarrow> nat \<Rightarrow> 'a option \<Rightarrow> ('a \<times> 'a \<times> u32) list \<Rightarrow> format_error option" where
  "check_ranges mapped n_sets prev_end [] = None"
| "check_ranges mapped n_sets prev_end ((s, e, c) # rs) =
     (if e < s then Some RangeReversed
      else if mapped s e then Some RangeMapped
      else if (case prev_end of Some pe \<Rightarrow> s \<le> pe | None \<Rightarrow> False) then Some RangeUnsorted
      else case check_catset n_sets c of
             Some err \<Rightarrow> Some err
           | None \<Rightarrow> check_ranges mapped n_sets (Some e) rs)"

definition is_normalized_match_text :: "string \<Rightarrow> bool" where
  "is_normalized_match_text text \<longleftrightarrow>
     text = trim_matches (CHR ''.'') (trim text) \<and> \<not> list_ex (char_in 65 90) text"

definition check_entry :: "nat \<Rightarrow> str_entry \<Rightarrow> format_error option" where
  "check_entry n_sets e =
     (if se_text e = [] then Some EntryEmpty
      else if \<not> is_normalized_match_text (se_text e) then Some EntryNoncanonical
      else check_catset n_sets (se_catset e))"

definition check_entries :: "nat \<Rightarrow> str_entry list \<Rightarrow> format_error option" where
  "check_entries n_sets es =
     (if \<not> successively (\<lambda>a b. se_text a < se_text b) es then Some EntriesUnsorted
      else first_error (check_entry n_sets) es)"

text \<open>The first error of a list of checks, in order.\<close>

fun first_failure :: "'e option list \<Rightarrow> 'e option" where
  "first_failure [] = None"
| "first_failure (r # rs) = (case r of Some e \<Rightarrow> Some e | None \<Rightarrow> first_failure rs)"

definition set_count :: "raw_book \<Rightarrow> nat" where
  "set_count b = (if unat (catset_words b) = 0 then 0 else length (catsets b) div unat (catset_words b))"

definition validate :: "raw_book \<Rightarrow> format_error option" where
  "validate b =
     (let n_cats = length (categories b); words = unat (catset_words b); n_sets = set_count b
      in if MAX_CATEGORIES < n_cats then Some TooManyCategories
         else if words \<noteq> (n_cats + 63) div 64 then Some WordsMismatch
         else if words = 0 \<and> catsets b \<noteq> [] then Some CatsetsWithoutWords
         else if words \<noteq> 0 \<and> length (catsets b) mod words \<noteq> 0 then Some CatsetsRagged
         else if \<not> successively (\<lambda>x y. c_name x < c_name y) (categories b) then Some CategoriesUnsorted
         else first_failure
           [first_error (check_category (categories b)) (categories b),
            check_stray n_cats words n_sets (catsets b),
            check_ranges (\<lambda>s e. False) n_sets None (ip4 b),
            check_ranges (\<lambda>s e. s \<le> IPV4_MAPPED_END \<and> IPV4_MAPPED_START \<le> e) n_sets None (ip6 b),
            check_entries n_sets (domain_exact b),
            check_entries n_sets (domain_suffix b),
            check_entries n_sets (rb_keywords b)])"

lemma mapped_bounds [code]:
  "IPV4_MAPPED_START = 0xffff00000000" "IPV4_MAPPED_END = 0xffffffffffff"
  by (simp_all add: IPV4_MAPPED_START_def IPV4_MAPPED_END_def push_bit_eq_mult)

section \<open>What validation gives the query layer\<close>

definition ranges_ok :: "nat \<Rightarrow> ('a :: linorder \<times> 'a \<times> u32) list \<Rightarrow> bool" where
  "ranges_ok n_sets rs \<longleftrightarrow>
     (\<forall>(s, e, c) \<in> set rs. s \<le> e \<and> unat c < n_sets) \<and>
     sorted_wrt (\<lambda>(s, e, c) (s', e', c'). e < s') rs"

definition entries_ok :: "nat \<Rightarrow> str_entry list \<Rightarrow> bool" where
  "entries_ok n_sets es \<longleftrightarrow>
     sorted_wrt (\<lambda>a b. se_text a < se_text b) es \<and>
     (\<forall>e \<in> set es. se_text e \<noteq> [] \<and> is_normalized_match_text (se_text e) \<and> unat (se_catset e) < n_sets)"

lemma first_error_None [simp]: "first_error f xs = None \<longleftrightarrow> (\<forall>x \<in> set xs. f x = None)"
  by (induction xs) (auto split: option.splits)

lemma first_failure_None [simp]: "first_failure rs = None \<longleftrightarrow> (\<forall>r \<in> set rs. r = None)"
  by (induction rs) (auto split: option.splits)

declare first_error.simps [simp del] first_failure.simps [simp del]

lemma check_catset_None [simp]: "check_catset n c = None \<longleftrightarrow> unat c < n"
  by (auto simp: check_catset_def)

lemma check_ranges_ok:
  "check_ranges mapped n prev rs = None \<Longrightarrow>
     ranges_ok n rs \<and> (\<forall>(s, e, c) \<in> set rs. \<not> mapped s e) \<and>
     (\<forall>pe. prev = Some pe \<longrightarrow> (\<forall>(s, e, c) \<in> set rs. pe < s))"
proof (induction rs arbitrary: prev)
  case Nil
  then show ?case by (simp add: ranges_ok_def)
next
  case (Cons r rs)
  obtain s e c where r: "r = (s, e, c)" by (cases r)
  have le: "s \<le> e" "\<not> mapped s e" "unat c < n" "check_ranges mapped n (Some e) rs = None"
    and prev: "\<And>pe. prev = Some pe \<Longrightarrow> pe < s"
    using Cons.prems by (auto simp: r split: if_splits option.splits)
  from Cons.IH [OF le(4)] have ok: "ranges_ok n rs" "\<forall>(s', e', c') \<in> set rs. \<not> mapped s' e'"
    and later: "\<forall>(s', e', c') \<in> set rs. e < s'" by auto
  show ?case
    using le ok later prev by (fastforce simp: r ranges_ok_def)
qed

lemma successively_less:
  fixes k :: "'a \<Rightarrow> 'b :: linorder"
  shows "successively (\<lambda>x y. k x < k y) xs \<longleftrightarrow> sorted_wrt (\<lambda>x y. k x < k y) xs"
  by (rule successively_iff_sorted_wrt_strong) auto

lemma check_entries_ok: "check_entries n es = None \<Longrightarrow> entries_ok n es"
  by (auto simp: check_entries_def entries_ok_def check_entry_def successively_less split: if_splits)

definition book_ok :: "raw_book \<Rightarrow> bool" where
  "book_ok b \<longleftrightarrow>
     length (categories b) \<le> MAX_CATEGORIES \<and>
     unat (catset_words b) = (length (categories b) + 63) div 64 \<and>
     length (catsets b) = set_count b * unat (catset_words b) \<and>
     sorted_wrt (\<lambda>x y. c_name x < c_name y) (categories b) \<and>
     (\<forall>c \<in> set (categories b). check_category (categories b) c = None) \<and>
     ranges_ok (set_count b) (ip4 b) \<and> ranges_ok (set_count b) (ip6 b) \<and>
     (\<forall>(s, e, c) \<in> set (ip6 b). \<not> (s \<le> IPV4_MAPPED_END \<and> IPV4_MAPPED_START \<le> e)) \<and>
     entries_ok (set_count b) (domain_exact b) \<and> entries_ok (set_count b) (domain_suffix b) \<and>
     entries_ok (set_count b) (rb_keywords b)"

lemma validate_ok:
  assumes "validate b = None"
  shows "book_ok b"
proof -
  have size: "length (categories b) \<le> MAX_CATEGORIES"
    "unat (catset_words b) = (length (categories b) + 63) div 64"
    "unat (catset_words b) = 0 \<Longrightarrow> catsets b = []"
    "unat (catset_words b) \<noteq> 0 \<Longrightarrow> length (catsets b) mod unat (catset_words b) = 0"
    and cats: "sorted_wrt (\<lambda>x y. c_name x < c_name y) (categories b)"
    "\<forall>c \<in> set (categories b). check_category (categories b) c = None"
    and r4: "check_ranges (\<lambda>s e. False) (set_count b) None (ip4 b) = None"
    and r6: "check_ranges (\<lambda>s e. s \<le> IPV4_MAPPED_END \<and> IPV4_MAPPED_START \<le> e) (set_count b) None (ip6 b) = None"
    and es: "check_entries (set_count b) (domain_exact b) = None"
    "check_entries (set_count b) (domain_suffix b) = None" "check_entries (set_count b) (rb_keywords b) = None"
    using assms
    by (simp_all add: validate_def Let_def successively_less split: if_splits)
  have "length (catsets b) = set_count b * unat (catset_words b)"
    using size(3,4) by (auto simp: set_count_def)
  then show ?thesis
    using size cats check_ranges_ok [OF r4] check_ranges_ok [OF r6] es [THEN check_entries_ok]
    by (simp add: book_ok_def)
qed

end
