(* ===== verification/Rust_Cursor.thy ===== *)
theory Rust_Cursor
  imports Rust_Str
begin

text \<open>
  Bounds-checked reading of byte strings, as the address-book decoder and the frame decoders do it
  (\<open>src/addrbook/format.rs\<close>, \<open>Cursor\<close>), the UTF-8 check of \<open>std::str::from_utf8\<close>, and a small
  calculus of readers: \<open>reads R bs x\<close> says that \<open>R\<close> consumes exactly \<open>bs\<close> wherever they stand
  and yields \<open>x\<close>.
\<close>

section \<open>Cursor\<close>

record cursor =
  cu_buf :: bytes
  cu_pos :: nat

datatype cursor_error = Truncated | TrailingBytes

definition cursor_new :: "bytes \<Rightarrow> cursor" where
  "cursor_new bs = \<lparr>cu_buf = bs, cu_pos = 0\<rparr>"

text \<open>An end position beyond the address space lies beyond every buffer, so one test covers both.\<close>

definition cur_take :: "nat \<Rightarrow> cursor \<Rightarrow> cursor_error + bytes \<times> cursor" where
  "cur_take n c =
     (let stop = cu_pos c + n
      in if stop \<le> length (cu_buf c) then Inr (slice (cu_pos c) stop (cu_buf c), c\<lparr>cu_pos := stop\<rparr>)
         else Inl Truncated)"

definition cur_word :: "nat \<Rightarrow> cursor \<Rightarrow> cursor_error + 'a::len word \<times> cursor" where
  "cur_word k c = and_then (cur_take k c) (\<lambda>(bs, c'). Inr (from_le_bytes bs, c'))"

definition cur_u16 :: "cursor \<Rightarrow> cursor_error + u16 \<times> cursor" where "cur_u16 = cur_word 2"
definition cur_u32 :: "cursor \<Rightarrow> cursor_error + u32 \<times> cursor" where "cur_u32 = cur_word 4"
definition cur_u64 :: "cursor \<Rightarrow> cursor_error + u64 \<times> cursor" where "cur_u64 = cur_word 8"
definition cur_u128 :: "cursor \<Rightarrow> cursor_error + u128 \<times> cursor" where "cur_u128 = cur_word 16"

definition cur_done :: "cursor \<Rightarrow> cursor_error + unit" where
  "cur_done c = ensure (cu_pos c = length (cu_buf c)) TrailingBytes"

fun repeat_read :: "nat \<Rightarrow> (cursor \<Rightarrow> 'e + 'a \<times> cursor) \<Rightarrow> cursor \<Rightarrow> 'e + 'a list \<times> cursor" where
  "repeat_read 0 R c = Inr ([], c)"
| "repeat_read (Suc n) R c =
     and_then (R c) (\<lambda>(x, c1). and_then (repeat_read n R c1) (\<lambda>(xs, c2). Inr (x # xs, c2)))"

section \<open>UTF-8\<close>

definition utf8_cont :: "u8 \<Rightarrow> bool" where
  "utf8_cont b \<longleftrightarrow> 0x80 \<le> b \<and> b \<le> 0xBF"

definition second_ok :: "u8 \<Rightarrow> u8 \<Rightarrow> bool" where
  "second_ok b c \<longleftrightarrow>
     (if b = 0xE0 then 0xA0 \<le> c \<and> c \<le> 0xBF
      else if b = 0xED then 0x80 \<le> c \<and> c \<le> 0x9F
      else if b = 0xF0 then 0x90 \<le> c \<and> c \<le> 0xBF
      else if b = 0xF4 then 0x80 \<le> c \<and> c \<le> 0x8F
      else utf8_cont c)"

text \<open>
  The number of bytes of the first character, or of the ill-formed sequence a decoder skips, and
  whether it is well formed; a byte beyond the end reads as zero.
\<close>

definition utf8_lead :: "nat \<Rightarrow> u8 \<Rightarrow> bool" where
  "utf8_lead k b \<longleftrightarrow>
     (if k = 1 then b < 0x80
      else if k = 2 then 0xC2 \<le> b \<and> b \<le> 0xDF
      else if k = 3 then 0xE0 \<le> b \<and> b \<le> 0xEF
      else 0xF0 \<le> b \<and> b \<le> 0xF4)"

definition utf8_step :: "bytes \<Rightarrow> nat \<times> bool" where
  "utf8_step bs =
     (let b = bs ! 0; at = (\<lambda>i. if i < length bs then bs ! i else 0)
      in if utf8_lead 1 b then (1, True)
         else if utf8_lead 2 b then (if utf8_cont (at 1) then (2, True) else (1, False))
         else if utf8_lead 3 b then
           (if \<not> second_ok b (at 1) then (1, False)
            else if \<not> utf8_cont (at 2) then (2, False) else (3, True))
         else if utf8_lead 4 b then
           (if \<not> second_ok b (at 1) then (1, False)
            else if \<not> utf8_cont (at 2) then (2, False)
            else if \<not> utf8_cont (at 3) then (3, False) else (4, True))
         else (1, False))"

lemma utf8_step_pos: "0 < fst (utf8_step bs)"
  by (simp add: utf8_step_def Let_def)

lemma utf8_step_shorter: "bs \<noteq> [] \<Longrightarrow> length (drop (fst (utf8_step bs)) bs) < length bs"
  using utf8_step_pos [of bs] by (cases bs) simp_all

function utf8_valid :: "bytes \<Rightarrow> bool" where
  "utf8_valid bs \<longleftrightarrow>
     (if bs = [] then True else snd (utf8_step bs) \<and> utf8_valid (drop (fst (utf8_step bs)) bs))"
  by auto
termination by (relation "measure length") (use utf8_step_shorter in auto)

declare utf8_valid.simps [simp del]

text \<open>Every ASCII string is valid.\<close>

lemma utf8_valid_ascii: "\<forall>b \<in> set bs. b < 0x80 \<Longrightarrow> utf8_valid bs"
proof (induction bs)
  case (Cons b bs)
  then have "utf8_step (b # bs) = (1, True)" by (simp add: utf8_step_def utf8_lead_def)
  with Cons show ?case by (subst utf8_valid.simps) simp
qed (simp add: utf8_valid.simps)

text \<open>
  \<open>String::from_utf8_lossy\<close>: every maximal well-formed start of an ill-formed sequence, or else
  the offending byte, becomes one replacement character.
\<close>

definition REPLACEMENT :: bytes where "REPLACEMENT = [0xEF, 0xBF, 0xBD]"

function from_utf8_lossy :: "bytes \<Rightarrow> bytes" where
  "from_utf8_lossy bs =
     (if bs = [] then []
      else (if snd (utf8_step bs) then take (fst (utf8_step bs)) bs else REPLACEMENT) @
           from_utf8_lossy (drop (fst (utf8_step bs)) bs))"
  by auto
termination by (relation "measure length") (use utf8_step_shorter in auto)

declare from_utf8_lossy.simps [simp del]

text \<open>Valid text is kept.\<close>

lemma from_utf8_lossy_valid: "utf8_valid bs \<Longrightarrow> from_utf8_lossy bs = bs"
proof (induction bs rule: length_induct)
  case (1 bs)
  show ?case
  proof (cases "bs = []")
    case False
    with 1(2) have "snd (utf8_step bs)" "utf8_valid (drop (fst (utf8_step bs)) bs)"
      using utf8_valid.simps [of bs] by simp_all
    with 1(1) False utf8_step_shorter [OF False] show ?thesis
      by (subst from_utf8_lossy.simps) simp
  qed (simp add: from_utf8_lossy.simps)
qed

section \<open>Readers\<close>

definition reads :: "(cursor \<Rightarrow> 'e + 'a \<times> cursor) \<Rightarrow> bytes \<Rightarrow> 'a \<Rightarrow> bool" where
  "reads R bs x \<longleftrightarrow>
     (\<forall>pre post. R \<lparr>cu_buf = pre @ bs @ post, cu_pos = length pre\<rparr> =
        Inr (x, \<lparr>cu_buf = pre @ bs @ post, cu_pos = length pre + length bs\<rparr>))"

lemma readsD:
  "reads R bs x \<Longrightarrow> R \<lparr>cu_buf = pre @ bs @ post, cu_pos = length pre\<rparr> =
     Inr (x, \<lparr>cu_buf = pre @ bs @ post, cu_pos = length pre + length bs\<rparr>)"
  by (simp add: reads_def)

lemma reads_start: "reads R bs x \<Longrightarrow> R (cursor_new (bs @ post)) = Inr (x, \<lparr>cu_buf = bs @ post, cu_pos = length bs\<rparr>)"
  using readsD [of R bs x "[]" post] by (simp add: cursor_new_def)

lemma reads_return: "reads (\<lambda>c. Inr (x, c)) [] x"
  by (simp add: reads_def)

lemma reads_bind:
  assumes "reads R a x" and "reads (S x) b y"
  shows "reads (\<lambda>c. and_then (R c) (\<lambda>(x, c'). S x c')) (a @ b) y"
  unfolding reads_def
proof (intro allI)
  fix pre post
  have "S x \<lparr>cu_buf = (pre @ a) @ b @ post, cu_pos = length (pre @ a)\<rparr> =
      Inr (y, \<lparr>cu_buf = (pre @ a) @ b @ post, cu_pos = length (pre @ a) + length b\<rparr>)"
    by (rule readsD) (rule assms(2))
  then show "and_then (R \<lparr>cu_buf = pre @ (a @ b) @ post, cu_pos = length pre\<rparr>) (\<lambda>(x, c'). S x c') =
      Inr (y, \<lparr>cu_buf = pre @ (a @ b) @ post, cu_pos = length pre + length (a @ b)\<rparr>)"
    using readsD [OF assms(1), of pre "b @ post"] by (simp add: add.assoc)
qed

lemma reads_map: "reads R a x \<Longrightarrow> reads (\<lambda>c. and_then (R c) (\<lambda>(x, c'). Inr (f x, c'))) a (f x)"
  by (simp add: reads_def)

lemma reads_take: "reads (cur_take (length bs)) bs bs"
  by (simp add: reads_def cur_take_def slice_def)

lemma reads_word:
  assumes "from_le_bytes (to_le_bytes k w) = w"
  shows "reads (cur_word k) (to_le_bytes k w) w"
  using reads_take [of "to_le_bytes k w"] assms by (simp add: reads_def cur_word_def)

lemma le_bytes_u128 [simp]: "from_le_bytes (to_le_bytes 16 w) = (w :: u128)"
  by (rule from_to_le_bytes) simp

lemma reads_ints:
  "reads cur_u16 (to_le_bytes 2 w16) w16" "reads cur_u32 (to_le_bytes 4 w32) w32"
  "reads cur_u64 (to_le_bytes 8 w64) w64" "reads cur_u128 (to_le_bytes 16 w128) w128"
  by (simp_all add: cur_u16_def cur_u32_def cur_u64_def cur_u128_def reads_word)

lemma reads_repeat:
  "\<forall>x \<in> set xs. reads R (enc x) x \<Longrightarrow> reads (repeat_read (length xs) R) (concat (map enc xs)) xs"
proof (induction xs)
  case Nil
  then show ?case by (simp add: reads_def)
next
  case (Cons x xs)
  have "reads (\<lambda>c. and_then (repeat_read (length xs) R c) (\<lambda>(ys, c'). Inr (x # ys, c'))) (concat (map enc xs)) (x # xs)"
    using Cons by (intro reads_map [where f = "(#) x"]) simp
  from reads_bind [where R = R and S = "\<lambda>x c. and_then (repeat_read (length xs) R c) (\<lambda>(ys, c'). Inr (x # ys, c'))",
      OF _ this, of "enc x"] Cons.prems
  show ?case by simp
qed

end
