(* ===== verification/Addrbook_Codec.thy ===== *)
theory Addrbook_Codec
  imports Addrbook_Format Rust_Cursor
begin

text \<open>
  The binary form of an address book (\<open>src/addrbook/format.rs\<close>, \<open>encode\<close> and \<open>decode\<close>): seven
  sections behind a header and a section table, closed by a SHA-256 digest. The digest function
  is the \<open>ring\<close> package's and a parameter. The category table and the three string tables have
  one layout, a list of (offset, length, tag) heads and a string pool, written out once here.
  Products of a 32-bit count and a record size fit the 64-bit address space, so the overflow
  checks of the decoder on them never fire and are left out.
\<close>

section \<open>Constants and errors\<close>

definition MAGIC :: bytes where "MAGIC = as_bytes ''RAB1''"
definition FORMAT_VERSION :: u16 where "FORMAT_VERSION = 1"
definition CHECKSUM_LEN :: nat where "CHECKSUM_LEN = 32"
definition SEC_CATEGORIES :: u32 where "SEC_CATEGORIES = 1"
definition SEC_CATSETS :: u32 where "SEC_CATSETS = 2"
definition SEC_IP4 :: u32 where "SEC_IP4 = 3"
definition SEC_IP6 :: u32 where "SEC_IP6 = 4"
definition SEC_DOMAIN_EXACT :: u32 where "SEC_DOMAIN_EXACT = 5"
definition SEC_DOMAIN_SUFFIX :: u32 where "SEC_DOMAIN_SUFFIX = 6"
definition SEC_KEYWORD :: u32 where "SEC_KEYWORD = 7"
definition SECTION_COUNT :: nat where "SECTION_COUNT = 7"
definition MAX_DECODED_HEAP_BYTES :: nat where "MAX_DECODED_HEAP_BYTES = 256 * 1024 * 1024"
definition PER_STRING_ALLOCATION_OVERHEAD :: nat where "PER_STRING_ALLOCATION_OVERHEAD = 16"

datatype codec_error =
  Invalid format_error | Cursor cursor_error
| CountTooLong | PoolTooLong | EntryTooLong
| TooSmall | ChecksumMismatch | BadMagic | BadVersion | ReservedNonzero | SectionCountWrong
| SectionOutOfBounds | SectionOverlapsHeader | SectionOverlap | UnreferencedGap | UnreferencedTail
| DuplicateSection u32 | UnknownSection u32
| CountLimit | CountVsLength | HeapOverflow | HeapBudget
| PoolNoncanonical | PoolOutOfBounds | PoolBadUtf8 | PoolUnreferenced

definition lift_cur :: "(cursor \<Rightarrow> cursor_error + 'a \<times> cursor) \<Rightarrow> cursor \<Rightarrow> codec_error + 'a \<times> cursor" where
  "lift_cur R c = map_sum Cursor id (R c)"

section \<open>Encoding\<close>

fun encode_heads :: "(string \<times> u32) list \<Rightarrow> nat \<Rightarrow> codec_error + bytes" where
  "encode_heads [] off = Inr []"
| "encode_heads ((s, tag) # es) off =
     (if 2 ^ 32 \<le> off then Inl PoolTooLong
      else if 2 ^ 16 \<le> length s then Inl EntryTooLong
      else and_then (encode_heads es (off + length s)) (\<lambda>rest.
        Inr (to_le_bytes 4 (word_of_nat off :: u32) @ to_le_bytes 2 (word_of_nat (length s) :: u16) @
             to_le_bytes 4 tag @ rest)))"

definition encode_pool :: "(string \<times> u32) list \<Rightarrow> codec_error + bytes" where
  "encode_pool es =
     (let pool = concat (map (\<lambda>e. as_bytes (fst e)) es)
      in and_then (ensure (length es < 2 ^ 32) CountTooLong) (\<lambda>_.
         and_then (encode_heads es 0) (\<lambda>heads.
         and_then (ensure (length pool < 2 ^ 32) PoolTooLong) (\<lambda>_.
         Inr (to_le_bytes 4 (word_of_nat (length es) :: u32) @ heads @
              to_le_bytes 4 (word_of_nat (length pool) :: u32) @ pool)))))"

definition encode_str_section :: "str_entry list \<Rightarrow> codec_error + bytes" where
  "encode_str_section es = encode_pool (map (\<lambda>e. (se_text e, se_catset e)) es)"

definition encode_categories :: "category list \<Rightarrow> codec_error + bytes" where
  "encode_categories cs = encode_pool (map (\<lambda>c. (c_name c, c_parent c)) cs)"

definition encode_catsets :: "raw_book \<Rightarrow> codec_error + bytes" where
  "encode_catsets b =
     (let n = (if unat (catset_words b) = 0 then 0 else length (catsets b) div unat (catset_words b))
      in and_then (ensure (n < 2 ^ 32) CountTooLong) (\<lambda>_.
         Inr (to_le_bytes 4 (catset_words b) @ to_le_bytes 4 (word_of_nat n :: u32) @
              concat (map (to_le_bytes 8) (catsets b)))))"

definition encode_range4 :: "u32 \<times> u32 \<times> u32 \<Rightarrow> bytes" where
  "encode_range4 = (\<lambda>(s, e, c). to_le_bytes 4 s @ to_le_bytes 4 e @ to_le_bytes 4 c)"

definition encode_range6 :: "u128 \<times> u128 \<times> u32 \<Rightarrow> bytes" where
  "encode_range6 = (\<lambda>(s, e, c). to_le_bytes 16 s @ to_le_bytes 16 e @ to_le_bytes 4 c)"

definition encode_ranges :: "('a \<Rightarrow> bytes) \<Rightarrow> 'a list \<Rightarrow> codec_error + bytes" where
  "encode_ranges enc rs =
     and_then (ensure (length rs < 2 ^ 32) CountTooLong) (\<lambda>_.
       Inr (to_le_bytes 4 (word_of_nat (length rs) :: u32) @ concat (map enc rs)))"

fun section_table :: "(u32 \<times> bytes) list \<Rightarrow> nat \<Rightarrow> bytes" where
  "section_table [] off = []"
| "section_table ((kind, payload) # secs) off =
     to_le_bytes 4 kind @ to_le_bytes 8 (word_of_nat off :: u64) @
     to_le_bytes 8 (word_of_nat (length payload) :: u64) @ section_table secs (off + length payload)"

definition assemble :: "u64 \<Rightarrow> (u32 \<times> bytes) list \<Rightarrow> bytes" where
  "assemble epoch secs =
     MAGIC @ to_le_bytes 2 FORMAT_VERSION @ to_le_bytes 2 (0 :: u16) @ to_le_bytes 8 epoch @
     to_le_bytes 4 (word_of_nat (length secs) :: u32) @
     section_table secs (20 + 20 * length secs) @ concat (map snd secs)"

definition encode :: "(bytes \<Rightarrow> bytes) \<Rightarrow> raw_book \<Rightarrow> codec_error + bytes" where
  "encode sha256 b =
     (case validate b of Some e \<Rightarrow> Inl (Invalid e) | None \<Rightarrow>
      and_then (encode_categories (categories b)) (\<lambda>cats.
      and_then (encode_catsets b) (\<lambda>sets.
      and_then (encode_ranges encode_range4 (ip4 b)) (\<lambda>r4.
      and_then (encode_ranges encode_range6 (ip6 b)) (\<lambda>r6.
      and_then (encode_str_section (domain_exact b)) (\<lambda>ex.
      and_then (encode_str_section (domain_suffix b)) (\<lambda>su.
      and_then (encode_str_section (rb_keywords b)) (\<lambda>kw.
      let out = assemble (build_epoch b)
            [(SEC_CATEGORIES, cats), (SEC_CATSETS, sets), (SEC_IP4, r4), (SEC_IP6, r6),
             (SEC_DOMAIN_EXACT, ex), (SEC_DOMAIN_SUFFIX, su), (SEC_KEYWORD, kw)]
      in Inr (out @ sha256 out)))))))))"

section \<open>Decoding\<close>

definition charge_decoded_heap :: "nat \<Rightarrow> nat \<Rightarrow> codec_error + nat" where
  "charge_decoded_heap used n =
     (let t = used + n
      in if 2 ^ 64 \<le> t then Inl HeapOverflow
         else if MAX_DECODED_HEAP_BYTES < t then Inl HeapBudget
         else Inr t)"

text \<open>The sizes of a decoded head, of an entry with its string header, and of the allocator's overhead.\<close>

definition per_entry :: nat where
  "per_entry = 24 + 32 + PER_STRING_ALLOCATION_OVERHEAD"

definition read_head :: "cursor \<Rightarrow> codec_error + (nat \<times> nat \<times> u32) \<times> cursor" where
  "read_head c =
     and_then (lift_cur cur_u32 c) (\<lambda>(off, c).
     and_then (lift_cur cur_u16 c) (\<lambda>(len, c).
     and_then (lift_cur cur_u32 c) (\<lambda>(tag, c).
     Inr ((unat off, unat len, tag), c))))"

fun pool_strings :: "bytes \<Rightarrow> nat \<Rightarrow> (nat \<times> nat \<times> u32) list \<Rightarrow> codec_error + (string \<times> u32) list" where
  "pool_strings pool next [] = (if next \<noteq> length pool then Inl PoolUnreferenced else Inr [])"
| "pool_strings pool next ((off, len, tag) # heads) =
     (if off \<noteq> next then Inl PoolNoncanonical
      else if length pool < off + len then Inl PoolOutOfBounds
      else if \<not> utf8_valid (slice off (off + len) pool) then Inl PoolBadUtf8
      else and_then (pool_strings pool (off + len) heads) (\<lambda>rest.
        Inr ((of_bytes (slice off (off + len) pool), tag) # rest)))"

definition decode_pool :: "nat \<Rightarrow> bytes \<Rightarrow> nat \<Rightarrow> codec_error + (string \<times> u32) list \<times> nat" where
  "decode_pool limit payload heap =
     and_then (lift_cur cur_u32 (cursor_new payload)) (\<lambda>(n32, c).
     let n = unat n32
     in if limit < n then Inl CountLimit
        else if length payload < 8 + n * 10 then Inl CountVsLength
        else
     and_then (charge_decoded_heap heap (n * per_entry + length payload)) (\<lambda>heap'.
     and_then (repeat_read n read_head c) (\<lambda>(heads, c).
     and_then (lift_cur cur_u32 c) (\<lambda>(pool_len, c).
     and_then (lift_cur (cur_take (unat pool_len)) c) (\<lambda>(pool, c).
     and_then (map_sum Cursor id (cur_done c)) (\<lambda>_.
     and_then (pool_strings pool 0 heads) (\<lambda>es.
     Inr (es, heap'))))))))"

definition decode_str_section :: "bytes \<Rightarrow> nat \<Rightarrow> codec_error + str_entry list \<times> nat" where
  "decode_str_section payload heap =
     and_then (decode_pool MAX_ENTRIES payload heap) (\<lambda>(es, heap').
       Inr (map (\<lambda>(s, cs). \<lparr>se_text = s, se_catset = cs\<rparr>) es, heap'))"

definition decode_categories :: "bytes \<Rightarrow> nat \<Rightarrow> codec_error + category list \<times> nat" where
  "decode_categories payload heap =
     and_then (decode_pool MAX_CATEGORIES payload heap) (\<lambda>(es, heap').
       Inr (map (\<lambda>(s, p). \<lparr>c_name = s, c_parent = p\<rparr>) es, heap'))"

definition decode_catsets :: "bytes \<Rightarrow> nat \<Rightarrow> codec_error + (u32 \<times> u64 list) \<times> nat" where
  "decode_catsets payload heap =
     and_then (lift_cur cur_u32 (cursor_new payload)) (\<lambda>(words, c).
     and_then (lift_cur cur_u32 c) (\<lambda>(n, c).
     let cells = unat words * unat n
     in if MAX_ENTRIES < cells then Inl CountLimit
        else if length payload \<noteq> 8 + cells * 8 then Inl CountVsLength
        else
     and_then (charge_decoded_heap heap (cells * 8)) (\<lambda>heap'.
     and_then (repeat_read cells (lift_cur cur_u64) c) (\<lambda>(sets, c).
     and_then (map_sum Cursor id (cur_done c)) (\<lambda>_.
     Inr ((words, sets), heap'))))))"

definition read_range :: "(cursor \<Rightarrow> cursor_error + 'a \<times> cursor) \<Rightarrow> cursor \<Rightarrow> codec_error + ('a \<times> 'a \<times> u32) \<times> cursor" where
  "read_range R c =
     and_then (lift_cur R c) (\<lambda>(s, c).
     and_then (lift_cur R c) (\<lambda>(e, c).
     and_then (lift_cur cur_u32 c) (\<lambda>(cs, c).
     Inr ((s, e, cs), c))))"

definition decode_ranges ::
  "(cursor \<Rightarrow> cursor_error + 'a \<times> cursor) \<Rightarrow> nat \<Rightarrow> nat \<Rightarrow> bytes \<Rightarrow> nat \<Rightarrow>
   codec_error + ('a \<times> 'a \<times> u32) list \<times> nat" where
  "decode_ranges R wire_size mem_size payload heap =
     and_then (lift_cur cur_u32 (cursor_new payload)) (\<lambda>(n32, c).
     let n = unat n32
     in if MAX_ENTRIES < n then Inl CountLimit
        else if length payload \<noteq> 4 + n * wire_size then Inl CountVsLength
        else
     and_then (charge_decoded_heap heap (n * mem_size)) (\<lambda>heap'.
     and_then (repeat_read n (read_range R) c) (\<lambda>(rs, c).
     and_then (map_sum Cursor id (cur_done c)) (\<lambda>_.
     Inr (rs, heap')))))"

definition decode_section :: "u32 \<Rightarrow> bytes \<Rightarrow> raw_book \<Rightarrow> nat \<Rightarrow> codec_error + raw_book \<times> nat" where
  "decode_section kind payload b heap =
     (if kind = SEC_CATEGORIES then
        and_then (decode_categories payload heap) (\<lambda>(cs, h). Inr (b\<lparr>categories := categories b @ cs\<rparr>, h))
      else if kind = SEC_CATSETS then
        and_then (decode_catsets payload heap) (\<lambda>((w, ss), h). Inr (b\<lparr>catset_words := w, catsets := catsets b @ ss\<rparr>, h))
      else if kind = SEC_IP4 then
        and_then (decode_ranges cur_u32 12 12 payload heap) (\<lambda>(rs, h). Inr (b\<lparr>ip4 := ip4 b @ rs\<rparr>, h))
      else if kind = SEC_IP6 then
        and_then (decode_ranges cur_u128 36 48 payload heap) (\<lambda>(rs, h). Inr (b\<lparr>ip6 := ip6 b @ rs\<rparr>, h))
      else if kind = SEC_DOMAIN_EXACT then
        and_then (decode_str_section payload heap) (\<lambda>(es, h). Inr (b\<lparr>domain_exact := es\<rparr>, h))
      else if kind = SEC_DOMAIN_SUFFIX then
        and_then (decode_str_section payload heap) (\<lambda>(es, h). Inr (b\<lparr>domain_suffix := es\<rparr>, h))
      else if kind = SEC_KEYWORD then
        and_then (decode_str_section payload heap) (\<lambda>(es, h). Inr (b\<lparr>rb_keywords := es\<rparr>, h))
      else Inl (UnknownSection kind))"

fun decode_sections :: "(u32 \<times> bytes) list \<Rightarrow> u32 list \<Rightarrow> raw_book \<Rightarrow> nat \<Rightarrow> codec_error + raw_book \<times> nat" where
  "decode_sections [] seen b heap = Inr (b, heap)"
| "decode_sections ((kind, payload) # secs) seen b heap =
     (if kind \<in> set seen then Inl (DuplicateSection kind)
      else and_then (decode_section kind payload b heap) (\<lambda>(b', heap').
        decode_sections secs (kind # seen) b' heap'))"

definition read_entry :: "cursor \<Rightarrow> codec_error + (u32 \<times> nat \<times> nat) \<times> cursor" where
  "read_entry c =
     and_then (lift_cur cur_u32 c) (\<lambda>(kind, c).
     and_then (lift_cur cur_u64 c) (\<lambda>(off, c).
     and_then (lift_cur cur_u64 c) (\<lambda>(len, c).
     Inr ((kind, unat off, unat len), c))))"

fun check_bounds :: "nat \<Rightarrow> nat \<Rightarrow> (u32 \<times> nat \<times> nat) list \<Rightarrow> codec_error + (nat \<times> nat) list" where
  "check_bounds body_len start [] = Inr []"
| "check_bounds body_len start ((kind, off, len) # es) =
     (if body_len < off + len then Inl SectionOutOfBounds
      else if off < start then Inl SectionOverlapsHeader
      else and_then (check_bounds body_len start es) (\<lambda>rest. Inr ((off, off + len) # rest)))"

fun check_coverage :: "nat \<Rightarrow> nat \<Rightarrow> (nat \<times> nat) list \<Rightarrow> codec_error + unit" where
  "check_coverage body_len next [] = ensure (next = body_len) UnreferencedTail"
| "check_coverage body_len next ((off, stop) # cs) =
     (if off < next then Inl SectionOverlap
      else if next < off then Inl UnreferencedGap
      else check_coverage body_len stop cs)"

text \<open>
  The code sorts with an unstable sort; only sections with the same offset could come in another
  order, and of two such sections one is empty, which no section decoder accepts.
\<close>

definition raw_book_default :: raw_book where
  "raw_book_default = \<lparr>build_epoch = 0, categories = [], catset_words = 0, catsets = [], ip4 = [], ip6 = [],
     domain_exact = [], domain_suffix = [], rb_keywords = []\<rparr>"

definition decode_body :: "bytes \<Rightarrow> codec_error + raw_book \<times> nat" where
  "decode_body body =
     and_then (lift_cur (cur_take 4) (cursor_new body)) (\<lambda>(magic, c).
     and_then (ensure (magic = MAGIC) BadMagic) (\<lambda>_.
     and_then (lift_cur cur_u16 c) (\<lambda>(version, c).
     and_then (ensure (version = FORMAT_VERSION) BadVersion) (\<lambda>_.
     and_then (lift_cur cur_u16 c) (\<lambda>(reserved, c).
     and_then (ensure (reserved = 0) ReservedNonzero) (\<lambda>_.
     and_then (lift_cur cur_u64 c) (\<lambda>(epoch, c).
     and_then (lift_cur cur_u32 c) (\<lambda>(n_sections, c).
     and_then (ensure (unat n_sections = SECTION_COUNT) SectionCountWrong) (\<lambda>_.
     and_then (repeat_read (unat n_sections) read_entry c) (\<lambda>(table, c).
     and_then (check_bounds (length body) (cu_pos c) table) (\<lambda>coverage.
     and_then (check_coverage (length body) (cu_pos c) (sort_key fst coverage)) (\<lambda>_.
     decode_sections (map (\<lambda>(kind, off, len). (kind, slice off (off + len) body)) table) []
       (raw_book_default\<lparr>build_epoch := epoch\<rparr>) 0))))))))))))"

definition decode :: "(bytes \<Rightarrow> bytes) \<Rightarrow> bytes \<Rightarrow> codec_error + raw_book" where
  "decode sha256 bs =
     (if length bs < 4 + 2 + 2 + 8 + 4 + CHECKSUM_LEN then Inl TooSmall
      else let body = take (length bs - CHECKSUM_LEN) bs; digest = drop (length bs - CHECKSUM_LEN) bs
           in if sha256 body \<noteq> digest then Inl ChecksumMismatch
              else and_then (decode_body body) (\<lambda>(b, _).
                case validate b of Some e \<Rightarrow> Inl (Invalid e) | None \<Rightarrow> Inr b))"

section \<open>Each section decoder inverts its encoder\<close>

lemma reads_lift: "reads R bs x \<Longrightarrow> reads (lift_cur R) bs x"
  by (simp add: reads_def lift_cur_def)

lemmas reads_lift_ints = reads_ints [THEN reads_lift]

lemma unat_of_nat_small:
  "n < 2 ^ 16 \<Longrightarrow> unat (word_of_nat n :: u16) = n" "n < 2 ^ 32 \<Longrightarrow> unat (word_of_nat n :: u32) = n"
  "n < 2 ^ 64 \<Longrightarrow> unat (word_of_nat n :: u64) = n"
  by (simp_all add: of_nat_inverse)

definition head_bytes :: "nat \<times> nat \<times> u32 \<Rightarrow> bytes" where
  "head_bytes = (\<lambda>(off, len, tag). to_le_bytes 4 (word_of_nat off :: u32) @
     to_le_bytes 2 (word_of_nat len :: u16) @ to_le_bytes 4 tag)"

lemma reads_triple:
  assumes "reads A a x" and "reads B b y" and "reads C c z"
  shows "reads (\<lambda>cu. and_then (A cu) (\<lambda>(x, cu). and_then (B cu) (\<lambda>(y, cu). and_then (C cu) (\<lambda>(z, cu).
    Inr (f x y z, cu))))) (a @ b @ c) (f x y z)"
proof -
  have "reads (\<lambda>cu. and_then (C cu) (\<lambda>(z, cu). Inr (f x y z, cu))) c (f x y z)"
    by (rule reads_map [OF assms(3)])
  from reads_bind [where S = "\<lambda>y cu. and_then (C cu) (\<lambda>(z, cu). Inr (f x y z, cu))", OF assms(2) this]
  have "reads (\<lambda>cu. and_then (B cu) (\<lambda>(y, cu). and_then (C cu) (\<lambda>(z, cu). Inr (f x y z, cu)))) (b @ c) (f x y z)" .
  from reads_bind [where S = "\<lambda>x cu. and_then (B cu) (\<lambda>(y, cu). and_then (C cu) (\<lambda>(z, cu). Inr (f x y z, cu)))",
      OF assms(1) this]
  show ?thesis .
qed

lemma reads_head:
  assumes "off < 2 ^ 32" and "len < 2 ^ 16"
  shows "reads read_head (head_bytes (off, len, tag)) (off, len, tag)"
  using reads_triple [where f = "\<lambda>x y z. (unat x, unat y, z)",
      OF reads_lift_ints(2) reads_lift_ints(1) reads_lift_ints(2),
      of "word_of_nat off" "word_of_nat len" tag] assms
  by (simp add: read_head_def [abs_def] head_bytes_def unat_of_nat_small)

fun pool_heads :: "(string \<times> u32) list \<Rightarrow> nat \<Rightarrow> (nat \<times> nat \<times> u32) list" where
  "pool_heads [] off = []"
| "pool_heads ((s, tag) # es) off = (off, length s, tag) # pool_heads es (off + length s)"

lemma length_pool_heads [simp]: "length (pool_heads es off) = length es"
  by (induction es off rule: pool_heads.induct) auto

lemma encode_heads_bytes:
  "encode_heads es off = Inr hs \<Longrightarrow>
     hs = concat (map head_bytes (pool_heads es off)) \<and>
     (\<forall>(o', l, t) \<in> set (pool_heads es off). o' < 2 ^ 32 \<and> l < 2 ^ 16)"
proof (induction es off arbitrary: hs rule: pool_heads.induct)
  case (2 s tag es off)
  from 2(2) obtain rest where rest: "encode_heads es (off + length s) = Inr rest"
    and hs: "hs = to_le_bytes 4 (word_of_nat off :: u32) @ to_le_bytes 2 (word_of_nat (length s) :: u16) @
      to_le_bytes 4 tag @ rest" and small: "off < 2 ^ 32" "length s < 2 ^ 16"
    by (auto split: if_splits)
  from 2(1) [OF rest] small show ?case by (simp add: hs head_bytes_def)
qed simp

lemma pool_strings_inverse:
  "length pre = off \<Longrightarrow> \<forall>(s, _) \<in> set es. utf8_valid (as_bytes s) \<Longrightarrow>
     pool_strings (pre @ concat (map (\<lambda>e. as_bytes (fst e)) es)) off (pool_heads es off) = Inr es"
proof (induction es off arbitrary: pre rule: pool_heads.induct)
  case (2 s tag es off)
  have "slice off (off + length s) (pre @ as_bytes s @ concat (map (\<lambda>e. as_bytes (fst e)) es)) = as_bytes s"
    using 2(2) by (simp add: slice_def)
  with 2(1) [of "pre @ as_bytes s"] 2(2,3) show ?case by simp
qed simp

definition pool_size :: "(string \<times> u32) list \<Rightarrow> nat" where
  "pool_size es = 8 + 10 * length es + sum_list (map (\<lambda>e. length (fst e)) es)"

definition pool_cost :: "(string \<times> u32) list \<Rightarrow> nat" where
  "pool_cost es = length es * per_entry + pool_size es"

lemma length_head_bytes [simp]: "length (head_bytes h) = 10"
  by (simp add: head_bytes_def split: prod.split)

lemma encode_pool_size: "encode_pool es = Inr bs \<Longrightarrow> length bs = pool_size es"
  by (auto simp: encode_pool_def Let_def pool_size_def length_concat comp_def sum_list_triv dest!: encode_heads_bytes)

lemma charge_ok: "used + n \<le> MAX_DECODED_HEAP_BYTES \<Longrightarrow> charge_decoded_heap used n = Inr (used + n)"
  by (simp add: charge_decoded_heap_def MAX_DECODED_HEAP_BYTES_def)

lemma decode_pool_inverse:
  assumes "encode_pool es = Inr bs" and "\<forall>(s, _) \<in> set es. utf8_valid (as_bytes s)"
    and "length es \<le> limit" and "heap + pool_cost es \<le> MAX_DECODED_HEAP_BYTES"
  shows "decode_pool limit bs heap = Inr (es, heap + pool_cost es)"
proof -
  let ?pool = "concat (map (\<lambda>e. as_bytes (fst e)) es)" and ?heads = "pool_heads es 0"
  from assms(1) obtain hs where small: "length es < 2 ^ 32" "length ?pool < 2 ^ 32"
    and hs: "encode_heads es 0 = Inr hs"
    and bs: "bs = to_le_bytes 4 (word_of_nat (length es) :: u32) @ hs @
      to_le_bytes 4 (word_of_nat (length ?pool) :: u32) @ ?pool"
    by (auto simp: encode_pool_def Let_def)
  note heads = encode_heads_bytes [OF hs]
  let ?a = "to_le_bytes 4 (word_of_nat (length es) :: u32)" and ?b = "to_le_bytes 4 (word_of_nat (length ?pool) :: u32)"
  have hd: "reads (repeat_read (length es) read_head) hs ?heads"
    using heads reads_repeat [of ?heads read_head head_bytes] reads_head by fastforce
  have r1: "lift_cur cur_u32 (cursor_new bs) = Inr (word_of_nat (length es), \<lparr>cu_buf = bs, cu_pos = length ?a\<rparr>)"
    unfolding bs by (rule reads_start) (rule reads_lift_ints)
  have r2: "repeat_read (length es) read_head \<lparr>cu_buf = bs, cu_pos = length ?a\<rparr> =
      Inr (?heads, \<lparr>cu_buf = bs, cu_pos = length ?a + length hs\<rparr>)"
    unfolding bs by (rule readsD [OF hd])
  have r3: "lift_cur cur_u32 \<lparr>cu_buf = bs, cu_pos = length ?a + length hs\<rparr> =
      Inr (word_of_nat (length ?pool), \<lparr>cu_buf = bs, cu_pos = length ?a + length hs + length ?b\<rparr>)"
    using readsD [OF reads_lift_ints(2), of "?a @ hs" "word_of_nat (length ?pool)" ?pool] by (simp add: bs)
  have r4: "lift_cur (cur_take (length ?pool)) \<lparr>cu_buf = bs, cu_pos = length ?a + length hs + length ?b\<rparr> =
      Inr (?pool, \<lparr>cu_buf = bs, cu_pos = length bs\<rparr>)"
    using readsD [OF reads_take [of ?pool, THEN reads_lift], of "?a @ hs @ ?b" "[]"] by (simp add: bs)
  have len: "length bs = pool_size es" by (rule encode_pool_size [OF assms(1)])
  have strings: "pool_strings ?pool 0 ?heads = Inr es"
    using pool_strings_inverse [of "[]" 0 es] assms(2) by simp
  have cost: "charge_decoded_heap heap (length es * per_entry + length bs) = Inr (heap + pool_cost es)"
    using assms(4) charge_ok [of heap "pool_cost es"] by (simp add: len pool_cost_def)
  have "\<not> length bs < 8 + length es * 10" by (simp add: len pool_size_def)
  then show ?thesis
    using assms(3) small
    by (simp add: decode_pool_def r1 r2 [simplified] r3 [simplified] r4 [simplified] cost strings
        unat_of_nat_small cur_done_def ensure_def del: and_then_Inr)
qed

lemma record_eta [simp]:
  "\<lparr>se_text = se_text e, se_catset = se_catset e\<rparr> = (e :: str_entry)"
  "\<lparr>c_name = c_name c, c_parent = c_parent c\<rparr> = (c :: category)"
  by simp_all

lemma decode_categories_inverse:
  assumes "encode_categories cs = Inr bs" and "\<forall>c \<in> set cs. utf8_valid (as_bytes (c_name c))"
    and "length cs \<le> MAX_CATEGORIES"
    and "heap + pool_cost (map (\<lambda>c. (c_name c, c_parent c)) cs) \<le> MAX_DECODED_HEAP_BYTES"
  shows "decode_categories bs heap = Inr (cs, heap + pool_cost (map (\<lambda>c. (c_name c, c_parent c)) cs))"
  using decode_pool_inverse [OF assms(1) [unfolded encode_categories_def], of MAX_CATEGORIES heap] assms(2-4)
  by (simp add: decode_categories_def comp_def)

lemma decode_str_section_inverse:
  assumes "encode_str_section es = Inr bs" and "\<forall>e \<in> set es. utf8_valid (as_bytes (se_text e))"
    and "length es \<le> MAX_ENTRIES"
    and "heap + pool_cost (map (\<lambda>e. (se_text e, se_catset e)) es) \<le> MAX_DECODED_HEAP_BYTES"
  shows "decode_str_section bs heap = Inr (es, heap + pool_cost (map (\<lambda>e. (se_text e, se_catset e)) es))"
  using decode_pool_inverse [OF assms(1) [unfolded encode_str_section_def], of MAX_ENTRIES heap] assms(2-4)
  by (simp add: decode_str_section_def comp_def)

lemma length_concat_words: "length (concat (map (to_le_bytes k) ws)) = k * length ws"
  by (simp add: length_concat comp_def sum_list_triv)

lemma decode_catsets_inverse:
  assumes "encode_catsets b = Inr bs" and "book_ok b" and "length (catsets b) \<le> MAX_ENTRIES"
    and "heap + length (catsets b) * 8 \<le> MAX_DECODED_HEAP_BYTES"
  shows "decode_catsets bs heap = Inr ((catset_words b, catsets b), heap + length (catsets b) * 8)"
proof -
  let ?n = "set_count b" and ?ws = "concat (map (to_le_bytes 8) (catsets b))"
  let ?a = "to_le_bytes 4 (catset_words b)" and ?b = "to_le_bytes 4 (word_of_nat (set_count b) :: u32)"
  have n: "?n < 2 ^ 32" and bs: "bs = ?a @ ?b @ ?ws"
    using assms(1) by (auto simp: encode_catsets_def Let_def set_count_def split: if_splits)
  then have un: "unat (word_of_nat ?n :: u32) = ?n" by (simp add: unat_of_nat_small)
  have cells: "unat (catset_words b) * ?n = length (catsets b)"
    using assms(2) by (simp add: book_ok_def mult.commute)
  have ws: "reads (repeat_read (length (catsets b)) (lift_cur cur_u64)) ?ws (catsets b)"
    by (rule reads_repeat) (simp add: reads_lift_ints)
  have r1: "lift_cur cur_u32 (cursor_new bs) = Inr (catset_words b, \<lparr>cu_buf = bs, cu_pos = 4\<rparr>)"
    using reads_start [OF reads_lift_ints(2), of "catset_words b" "?b @ ?ws"] by (simp add: bs)
  have r2: "lift_cur cur_u32 \<lparr>cu_buf = bs, cu_pos = 4\<rparr> = Inr (word_of_nat ?n, \<lparr>cu_buf = bs, cu_pos = 8\<rparr>)"
    using readsD [OF reads_lift_ints(2), of ?a "word_of_nat ?n" ?ws] by (simp add: bs)
  have r3: "repeat_read (length (catsets b)) (lift_cur cur_u64) \<lparr>cu_buf = bs, cu_pos = 8\<rparr> =
      Inr (catsets b, \<lparr>cu_buf = bs, cu_pos = length bs\<rparr>)"
    using readsD [OF ws, of "?a @ ?b" "[]"] by (simp add: bs)
  have len: "length bs = 8 + length (catsets b) * 8"
    by (simp add: bs length_concat_words)
  show ?thesis
    using assms(3,4) charge_ok [of heap "length (catsets b) * 8"]
    by (simp add: decode_catsets_def Let_def r1 r2 r3 cells un cur_done_def ensure_def len del: and_then_Inr)
qed

lemma decode_ranges_inverse:
  assumes "encode_ranges enc rs = Inr bs" and "\<forall>r. reads (read_range R) (enc r) r"
    and "\<forall>r. length (enc r) = wire" and "length rs \<le> MAX_ENTRIES"
    and "heap + length rs * mem \<le> MAX_DECODED_HEAP_BYTES"
  shows "decode_ranges R wire mem bs heap = Inr (rs, heap + length rs * mem)"
proof -
  let ?a = "to_le_bytes 4 (word_of_nat (length rs) :: u32)" and ?ws = "concat (map enc rs)"
  have n: "length rs < 2 ^ 32" and bs: "bs = ?a @ ?ws"
    using assms(1) by (auto simp: encode_ranges_def)
  then have un: "unat (word_of_nat (length rs) :: u32) = length rs" by (simp add: unat_of_nat_small)
  have ws: "reads (repeat_read (length rs) (read_range R)) ?ws rs"
    by (rule reads_repeat) (simp add: assms(2))
  have r1: "lift_cur cur_u32 (cursor_new bs) = Inr (word_of_nat (length rs), \<lparr>cu_buf = bs, cu_pos = 4\<rparr>)"
    using reads_start [OF reads_lift_ints(2), of "word_of_nat (length rs)" ?ws] by (simp add: bs)
  have r2: "repeat_read (length rs) (read_range R) \<lparr>cu_buf = bs, cu_pos = 4\<rparr> =
      Inr (rs, \<lparr>cu_buf = bs, cu_pos = length bs\<rparr>)"
    using readsD [OF ws, of ?a "[]"] by (simp add: bs)
  have len: "length bs = 4 + length rs * wire"
    by (simp add: bs length_concat comp_def assms(3) sum_list_triv)
  show ?thesis
    using assms(4,5) charge_ok [of heap "length rs * mem"]
    by (simp add: decode_ranges_def Let_def r1 r2 un cur_done_def ensure_def len del: and_then_Inr)
qed

lemma reads_range4: "reads (read_range cur_u32) (encode_range4 r) r"
  using reads_triple [where f = "\<lambda>s e c. (s, e, c)", OF reads_lift_ints(2) reads_lift_ints(2) reads_lift_ints(2)]
  by (simp add: read_range_def [abs_def] encode_range4_def split: prod.split)

lemma reads_range6: "reads (read_range cur_u128) (encode_range6 r) r"
  using reads_triple [where f = "\<lambda>s e c. (s, e, c)", OF reads_lift_ints(4) reads_lift_ints(4) reads_lift_ints(2)]
  by (simp add: read_range_def [abs_def] encode_range6_def split: prod.split)

section \<open>The section table\<close>

definition entry_bytes :: "u32 \<times> nat \<times> nat \<Rightarrow> bytes" where
  "entry_bytes = (\<lambda>(kind, off, len). to_le_bytes 4 kind @ to_le_bytes 8 (word_of_nat off :: u64) @
     to_le_bytes 8 (word_of_nat len :: u64))"

fun entries :: "(u32 \<times> bytes) list \<Rightarrow> nat \<Rightarrow> (u32 \<times> nat \<times> nat) list" where
  "entries [] off = []"
| "entries ((kind, p) # secs) off = (kind, off, length p) # entries secs (off + length p)"

lemma length_entries [simp]: "length (entries secs off) = length secs"
  by (induction secs off rule: entries.induct) auto

lemma section_table_entries: "section_table secs off = concat (map entry_bytes (entries secs off))"
  by (induction secs off rule: entries.induct) (auto simp: entry_bytes_def)

lemma length_section_table: "length (section_table secs off) = 20 * length secs"
  by (induction secs off rule: section_table.induct) auto

lemma entries_bounded:
  "(k, o', l) \<in> set (entries secs off) \<Longrightarrow> off \<le> o' \<and> o' + l \<le> off + length (concat (map snd secs))"
  by (induction secs off rule: entries.induct) (auto dest!: meta_spec)

lemma reads_entry:
  assumes "off < 2 ^ 64" and "len < 2 ^ 64"
  shows "reads read_entry (entry_bytes (kind, off, len)) (kind, off, len)"
  using reads_triple [where f = "\<lambda>x y z. (x, unat y, unat z)",
      OF reads_lift_ints(2) reads_lift_ints(3) reads_lift_ints(3),
      of kind "word_of_nat off" "word_of_nat len"] assms
  by (simp add: read_entry_def [abs_def] entry_bytes_def unat_of_nat_small)

lemma check_bounds_entries:
  "start \<le> off \<Longrightarrow> off + length (concat (map snd secs)) \<le> body_len \<Longrightarrow>
     check_bounds body_len start (entries secs off) = Inr (map (\<lambda>(k, o', l). (o', o' + l)) (entries secs off))"
  by (induction secs off rule: entries.induct) auto

lemma check_coverage_entries:
  "off + length (concat (map snd secs)) = body_len \<Longrightarrow>
     check_coverage body_len off (map (\<lambda>(k, o', l). (o', o' + l)) (entries secs off)) = Inr ()"
  by (induction secs off rule: entries.induct) (auto simp: ensure_def)

lemma sorted_entries: "sorted (map fst (map (\<lambda>(k, o', l). (o', o' + l)) (entries secs off)))"
proof (induction secs off rule: entries.induct)
  case (2 kind p secs off)
  have "off \<le> o'" if "(k, o', l) \<in> set (entries secs (off + length p))" for k o' l
    using entries_bounded [OF that] by simp
  with 2 show ?case by force
qed simp

lemma sort_key_sorted: "sorted (map f xs) \<Longrightarrow> sort_key f xs = xs"
  by (induction xs) (auto simp: insort_is_Cons)

lemma entries_slices:
  "length pre = off \<Longrightarrow>
     map (\<lambda>(kind, o', l). (kind, slice o' (o' + l) (pre @ concat (map snd secs)))) (entries secs off) = secs"
proof (induction secs off arbitrary: pre rule: entries.induct)
  case (2 kind p secs off)
  from 2(1) [of "pre @ p"] 2(2) show ?case by (simp add: slice_def)
qed simp

lemma decode_body_assemble:
  assumes "length secs = SECTION_COUNT" and "length (assemble epoch secs) < 2 ^ 64"
  shows "decode_body (assemble epoch secs) = decode_sections secs [] (raw_book_default\<lparr>build_epoch := epoch\<rparr>) 0"
proof -
  let ?body = "assemble epoch secs" and ?es = "entries secs 160"
  let ?h1 = "MAGIC" and ?h2 = "to_le_bytes 2 FORMAT_VERSION" and ?h3 = "to_le_bytes 2 (0 :: u16)"
    and ?h4 = "to_le_bytes 8 epoch" and ?h5 = "to_le_bytes 4 (7 :: u32)"
    and ?t = "section_table secs 160" and ?p = "concat (map snd secs)"
  let ?c = "\<lambda>n. \<lparr>cu_buf = assemble epoch secs, cu_pos = n\<rparr>"
  have seven: "length secs = 7" using assms(1) by (simp add: SECTION_COUNT_def)
  have body: "?body = ?h1 @ ?h2 @ ?h3 @ ?h4 @ ?h5 @ ?t @ ?p"
    by (simp add: assemble_def seven)
  have magic: "length MAGIC = 4" by (simp add: MAGIC_def)
  have total: "length ?body = 160 + length ?p"
    by (simp add: body magic length_section_table seven)
  have r1: "lift_cur (cur_take 4) (cursor_new ?body) = Inr (MAGIC, ?c 4)"
    using reads_start [OF reads_take [of MAGIC, THEN reads_lift], of "?h2 @ ?h3 @ ?h4 @ ?h5 @ ?t @ ?p"]
    by (simp add: body magic)
  have r2: "lift_cur cur_u16 (?c 4) = Inr (FORMAT_VERSION, ?c 6)"
    using readsD [OF reads_lift_ints(1), of ?h1 FORMAT_VERSION "?h3 @ ?h4 @ ?h5 @ ?t @ ?p"] by (simp add: body magic)
  have r3: "lift_cur cur_u16 (?c 6) = Inr (0, ?c 8)"
    using readsD [OF reads_lift_ints(1), of "?h1 @ ?h2" 0 "?h4 @ ?h5 @ ?t @ ?p"] by (simp add: body magic)
  have r4: "lift_cur cur_u64 (?c 8) = Inr (epoch, ?c 16)"
    using readsD [OF reads_lift_ints(3), of "?h1 @ ?h2 @ ?h3" epoch "?h5 @ ?t @ ?p"] by (simp add: body magic)
  have r5: "lift_cur cur_u32 (?c 16) = Inr (7, ?c 20)"
    using readsD [OF reads_lift_ints(2), of "?h1 @ ?h2 @ ?h3 @ ?h4" 7 "?t @ ?p"] by (simp add: body magic)
  have "reads read_entry (entry_bytes e) e" if "e \<in> set ?es" for e
  proof -
    obtain k o' l where e: "e = (k, o', l)" by (cases e)
    from entries_bounded [of k o' l secs 160] that e have "o' + l \<le> length ?body" by (simp add: total)
    with assms(2) show ?thesis unfolding e by (intro reads_entry) simp_all
  qed
  then have "reads (repeat_read 7 read_entry) ?t ?es"
    using reads_repeat [of ?es read_entry entry_bytes] by (simp add: section_table_entries seven)
  then have r6: "repeat_read 7 read_entry (?c 20) = Inr (?es, ?c 160)"
    using readsD [of "repeat_read 7 read_entry" ?t ?es "?h1 @ ?h2 @ ?h3 @ ?h4 @ ?h5" ?p]
    by (simp add: body magic length_section_table seven)
  have r7: "check_bounds (length ?body) 160 ?es = Inr (map (\<lambda>(k, o', l). (o', o' + l)) ?es)"
    by (rule check_bounds_entries) (simp_all add: total)
  have r8: "check_coverage (length ?body) 160 (map (\<lambda>(k, o', l). (o', o' + l)) ?es) = Inr ()"
    by (rule check_coverage_entries) (simp add: total)
  have r9: "map (\<lambda>(kind, o', l). (kind, slice o' (o' + l) ?body)) ?es = secs"
    using entries_slices [of "?h1 @ ?h2 @ ?h3 @ ?h4 @ ?h5 @ ?t" 160 secs]
    by (simp add: body magic length_section_table seven)
  show ?thesis
    unfolding decode_body_def r1 and_then.simps prod.case
    by (simp add: r2 r3 r4 r5 r6 r7 r8 r9 ensure_def SECTION_COUNT_def sort_key_sorted [OF sorted_entries]
        del: and_then_Inr)
qed

text \<open>What the decoder's limits ask of a book beyond its validity.\<close>

definition decode_cost :: "raw_book \<Rightarrow> nat" where
  "decode_cost b =
     pool_cost (map (\<lambda>c. (c_name c, c_parent c)) (categories b)) + length (catsets b) * 8 +
     length (ip4 b) * 12 + length (ip6 b) * 48 +
     pool_cost (map (\<lambda>e. (se_text e, se_catset e)) (domain_exact b)) +
     pool_cost (map (\<lambda>e. (se_text e, se_catset e)) (domain_suffix b)) +
     pool_cost (map (\<lambda>e. (se_text e, se_catset e)) (rb_keywords b))"

definition book_text :: "raw_book \<Rightarrow> string list" where
  "book_text b = map c_name (categories b) @ map se_text (domain_exact b @ domain_suffix b @ rb_keywords b)"

definition decodable :: "raw_book \<Rightarrow> bool" where
  "decodable b \<longleftrightarrow>
     decode_cost b \<le> MAX_DECODED_HEAP_BYTES \<and>
     length (catsets b) \<le> MAX_ENTRIES \<and> length (ip4 b) \<le> MAX_ENTRIES \<and> length (ip6 b) \<le> MAX_ENTRIES \<and>
     list_all (\<lambda>s. utf8_valid (as_bytes s)) (book_text b)"

lemma pool_cost_entries: "n + pool_cost es \<le> MAX_DECODED_HEAP_BYTES \<Longrightarrow> length es \<le> MAX_ENTRIES"
  by (simp add: pool_cost_def per_entry_def PER_STRING_ALLOCATION_OVERHEAD_def MAX_DECODED_HEAP_BYTES_def MAX_ENTRIES_def)

lemma encode_pool_le: "encode_pool es = Inr bs \<Longrightarrow> length bs \<le> pool_cost es"
  by (simp add: encode_pool_size pool_cost_def)

lemma length_encode_range [simp]: "length (encode_range4 r) = 12" "length (encode_range6 r6) = 36"
  by (simp_all add: encode_range4_def encode_range6_def split: prod.split)

lemma encode_ranges_size:
  "encode_ranges enc rs = Inr bs \<Longrightarrow> \<forall>r. length (enc r) = w \<Longrightarrow> length bs = 4 + length rs * w"
  by (auto simp: encode_ranges_def length_concat comp_def sum_list_triv)

lemma encode_catsets_size: "encode_catsets b = Inr bs \<Longrightarrow> length bs = 8 + length (catsets b) * 8"
  by (auto simp: encode_catsets_def Let_def length_concat_words)

lemmas section_kinds =
  SEC_CATEGORIES_def SEC_CATSETS_def SEC_IP4_def SEC_IP6_def SEC_DOMAIN_EXACT_def SEC_DOMAIN_SUFFIX_def SEC_KEYWORD_def

lemma decode_encode:
  assumes "encode sha256 b = Inr bs" and "decodable b" and "\<forall>x. length (sha256 x) = CHECKSUM_LEN"
  shows "decode sha256 bs = Inr b"
proof -
  let ?str = "\<lambda>es. map (\<lambda>e. (se_text e, se_catset e)) es"
  from assms(1) obtain cats sets r4 r6 ex su kw where valid: "validate b = None"
    and cats: "encode_categories (categories b) = Inr cats" and sets: "encode_catsets b = Inr sets"
    and r4: "encode_ranges encode_range4 (ip4 b) = Inr r4" and r6: "encode_ranges encode_range6 (ip6 b) = Inr r6"
    and ex: "encode_str_section (domain_exact b) = Inr ex" and su: "encode_str_section (domain_suffix b) = Inr su"
    and kw: "encode_str_section (rb_keywords b) = Inr kw"
    and bs: "bs = assemble (build_epoch b)
            [(SEC_CATEGORIES, cats), (SEC_CATSETS, sets), (SEC_IP4, r4), (SEC_IP6, r6),
             (SEC_DOMAIN_EXACT, ex), (SEC_DOMAIN_SUFFIX, su), (SEC_KEYWORD, kw)] @
          sha256 (assemble (build_epoch b)
            [(SEC_CATEGORIES, cats), (SEC_CATSETS, sets), (SEC_IP4, r4), (SEC_IP6, r6),
             (SEC_DOMAIN_EXACT, ex), (SEC_DOMAIN_SUFFIX, su), (SEC_KEYWORD, kw)])"
    by (auto simp: encode_def Let_def split: option.splits)
  define secs where "secs = [(SEC_CATEGORIES, cats), (SEC_CATSETS, sets), (SEC_IP4, r4), (SEC_IP6, r6),
    (SEC_DOMAIN_EXACT, ex), (SEC_DOMAIN_SUFFIX, su), (SEC_KEYWORD, kw)]"
  note ok = validate_ok [OF valid]
  note cost = assms(2) [unfolded decodable_def decode_cost_def]
  have cat_limit: "length (categories b) \<le> MAX_CATEGORIES" using ok by (simp add: book_ok_def)
  have entry_limits: "length (domain_exact b) \<le> MAX_ENTRIES" "length (domain_suffix b) \<le> MAX_ENTRIES"
    "length (rb_keywords b) \<le> MAX_ENTRIES"
    using cost pool_cost_entries [of 0 "?str (domain_exact b)"] pool_cost_entries [of 0 "?str (domain_suffix b)"]
      pool_cost_entries [of 0 "?str (rb_keywords b)"] by simp_all
  have utf8: "utf8_valid (as_bytes s)" if "s \<in> set (book_text b)" for s
    using that assms(2) by (simp add: decodable_def list_all_iff)
  have "length (assemble (build_epoch b) secs) \<le> 160 + 16 + decode_cost b"
    using encode_pool_le [OF cats [unfolded encode_categories_def]] encode_catsets_size [OF sets]
      encode_ranges_size [OF r4, of 12] encode_ranges_size [OF r6, of 36]
      encode_pool_le [OF ex [unfolded encode_str_section_def]] encode_pool_le [OF su [unfolded encode_str_section_def]]
      encode_pool_le [OF kw [unfolded encode_str_section_def]]
    by (simp add: assemble_def secs_def length_section_table MAGIC_def decode_cost_def)
  then have small: "length (assemble (build_epoch b) secs) < 2 ^ 64"
    using assms(2) by (simp add: decodable_def MAX_DECODED_HEAP_BYTES_def)
  have "decode_sections secs [] (raw_book_default\<lparr>build_epoch := build_epoch b\<rparr>) 0 = Inr (b, decode_cost b)"
    unfolding secs_def decode_cost_def
    using cost cat_limit entry_limits utf8
      decode_categories_inverse [OF cats, of 0] decode_catsets_inverse [OF sets ok]
      decode_ranges_inverse [OF r4, of cur_u32 12] decode_ranges_inverse [OF r6, of cur_u128 36]
      decode_str_section_inverse [OF ex] decode_str_section_inverse [OF su] decode_str_section_inverse [OF kw]
    by (simp add: decode_section_def section_kinds reads_range4 reads_range6 raw_book_default_def book_text_def
        del: and_then_Inr)
  moreover have "decode_body (assemble (build_epoch b) secs) =
      decode_sections secs [] (raw_book_default\<lparr>build_epoch := build_epoch b\<rparr>) 0"
    by (rule decode_body_assemble [OF _ small]) (simp add: secs_def SECTION_COUNT_def)
  moreover have "20 \<le> length (assemble (build_epoch b) secs)" by (simp add: assemble_def MAGIC_def)
  ultimately show ?thesis
    using assms(3) valid unfolding bs secs_def [symmetric]
    by (simp add: decode_def Let_def CHECKSUM_LEN_def del: and_then_Inr)
qed

lemma charge_bound: "charge_decoded_heap used n = Inr t \<Longrightarrow> t \<le> MAX_DECODED_HEAP_BYTES"
  by (auto simp: charge_decoded_heap_def Let_def split: if_splits)

lemma decode_pool_bound: "decode_pool limit payload heap = Inr (es, h) \<Longrightarrow> h \<le> MAX_DECODED_HEAP_BYTES"
  by (auto simp: decode_pool_def Let_def dest: charge_bound split: if_splits prod.splits)

lemma decode_section_bound: "decode_section kind payload b heap = Inr (b', h) \<Longrightarrow> h \<le> MAX_DECODED_HEAP_BYTES"
  by (auto simp: decode_section_def decode_categories_def decode_catsets_def decode_ranges_def
      decode_str_section_def Let_def dest: charge_bound decode_pool_bound split: if_splits prod.splits)

lemma decode_sections_bound:
  "decode_sections secs seen b heap = Inr (b', h) \<Longrightarrow> heap \<le> MAX_DECODED_HEAP_BYTES \<Longrightarrow>
     h \<le> MAX_DECODED_HEAP_BYTES"
  by (induction secs seen b heap rule: decode_sections.induct)
    (auto dest: decode_section_bound split: if_splits prod.splits)

lemma decode_body_bound: "decode_body body = Inr (b, h) \<Longrightarrow> h \<le> MAX_DECODED_HEAP_BYTES"
  by (auto simp: decode_body_def dest: decode_sections_bound split: prod.splits)

section \<open>Properties\<close>

definition demo_artifact :: raw_book where
  "demo_artifact = raw_book_default\<lparr>build_epoch := 5,
     categories := [\<lparr>c_name = ''a'', c_parent = - 1\<rparr>], catset_words := 1, catsets := [1],
     ip4 := [(1, 2, 0)], ip6 := [(3, 4, 0)], domain_exact := [\<lparr>se_text = ''x.y'', se_catset = 0\<rparr>]\<rparr>"

text \<open>Only a string of 65536 bytes or more keeps a valid book that the decoder's limits allow from being encoded.\<close>

lemma encode_heads_fits:
  "list_all (\<lambda>e. length (fst e) < 2 ^ 16) es \<Longrightarrow> off + sum_list (map (\<lambda>e. length (fst e)) es) < 2 ^ 32 \<Longrightarrow>
     \<exists>bs. encode_heads es off = Inr bs"
proof (induction es arbitrary: off)
  case (Cons e es)
  obtain t tag where e: "e = (t, tag)" by force
  have "off < 2 ^ 32" "length t < 2 ^ 16" "off + length t + sum_list (map (\<lambda>e. length (fst e)) es) < 2 ^ 32"
    using Cons.prems by (auto simp: e)
  then show ?case using Cons.IH [of "off + length t"] Cons.prems(1) by (auto simp: e)
qed simp

lemma encode_pool_fits:
  assumes "list_all (\<lambda>e. length (fst e) < 2 ^ 16) es" and "pool_cost es \<le> MAX_DECODED_HEAP_BYTES"
  shows "\<exists>bs. encode_pool es = Inr bs"
proof -
  have len: "length (concat (map (\<lambda>e. as_bytes (fst e)) es)) = sum_list (map (\<lambda>e. length (fst e)) es)"
    by (simp add: length_concat comp_def)
  have "length es < 2 ^ 32" "sum_list (map (\<lambda>e. length (fst e)) es) < 2 ^ 32"
    using assms(2) by (simp_all add: pool_cost_def pool_size_def MAX_DECODED_HEAP_BYTES_def per_entry_def PER_STRING_ALLOCATION_OVERHEAD_def)
  then show ?thesis using encode_heads_fits [OF assms(1), of 0] len by (auto simp: encode_pool_def Let_def)
qed

lemma encode_fits:
  assumes "validate b = None" and "decodable b" and "\<forall>s \<in> set (book_text b). length s < 2 ^ 16"
  shows "\<exists>bs. encode sha256 b = Inr bs"
proof -
  let ?strs = "map (\<lambda>e. (se_text e, se_catset e))"
  note cost = assms(2) [unfolded decodable_def decode_cost_def]
  have pool: "\<exists>bs. encode_pool (?strs es) = Inr bs"
    if "set es \<subseteq> set (domain_exact b @ domain_suffix b @ rb_keywords b)" "pool_cost (?strs es) \<le> MAX_DECODED_HEAP_BYTES" for es
    using that assms(3) by (intro encode_pool_fits) (auto simp: list_all_iff book_text_def)
  have "\<exists>bs. encode_categories (categories b) = Inr bs"
    unfolding encode_categories_def
    using assms(3) cost by (intro encode_pool_fits) (auto simp: list_all_iff book_text_def)
  moreover have "\<exists>bs. encode_str_section (domain_exact b) = Inr bs" "\<exists>bs. encode_str_section (domain_suffix b) = Inr bs"
      "\<exists>bs. encode_str_section (rb_keywords b) = Inr bs"
    unfolding encode_str_section_def using cost by (intro pool; auto)+
  moreover have "\<exists>bs. encode_catsets b = Inr bs"
  proof -
    have "length (catsets b) div unat (catset_words b) \<le> length (catsets b)" by (rule div_le_dividend)
    also have "\<dots> < 2 ^ 32" using cost by (simp add: MAX_ENTRIES_def)
    finally have "length (catsets b) div unat (catset_words b) < 2 ^ 32" .
    then show ?thesis by (simp add: encode_catsets_def Let_def)
  qed
  moreover have "\<exists>bs. encode_ranges encode_range4 (ip4 b) = Inr bs" "\<exists>bs. encode_ranges encode_range6 (ip6 b) = Inr bs"
    using cost by (simp_all add: encode_ranges_def MAX_ENTRIES_def)
  ultimately show ?thesis using assms(1) by (auto simp: encode_def Let_def)
qed

text \<open>
  C12: a book written as an artifact is read back unchanged. A valid book of UTF-8 strings within the
  decoder's entry and memory limits, which the encoder does not check, is encoded, and decoding the
  bytes returns the same book; the one exception is a book with a string of 65536 bytes or more,
  which the encoder may refuse.
\<close>

theorem artifact_round_trip:
  assumes "validate b = None" and "decodable b" and "\<forall>x. length (sha256 x) = CHECKSUM_LEN"
  shows "case encode sha256 b of
     Inr bs \<Rightarrow> decode sha256 bs = Inr b
   | Inl e \<Rightarrow> \<exists>s \<in> set (book_text b). 2 ^ 16 \<le> length s"
proof (cases "encode sha256 b")
  case (Inl e)
  then show ?thesis using encode_fits [OF assms(1,2), of sha256] by (fastforce simp: not_less)
next
  case (Inr bs)
  then show ?thesis using decode_encode [OF Inr assms(2,3)] by simp
qed

theorem artifact_round_trip_witness:
  "\<exists>bs. encode (\<lambda>_. replicate CHECKSUM_LEN 7) demo_artifact = Inr bs \<and>
     decode (\<lambda>_. replicate CHECKSUM_LEN 7) bs = Inr demo_artifact"
proof -
  have "validate demo_artifact = None" "decodable demo_artifact" by code_simp+
  moreover have "\<not> (\<exists>s \<in> set (book_text demo_artifact). 2 ^ 16 \<le> length s)"
    by (simp add: book_text_def demo_artifact_def raw_book_default_def)
  ultimately show ?thesis
    using artifact_round_trip [of demo_artifact "\<lambda>_. replicate CHECKSUM_LEN 7"] by (auto split: sum.splits)
qed

text \<open>
  C19: decoding fails closed: bytes are accepted only when they end in the digest of everything
  before them, the decoded book passes every structural check, and the memory charged for it
  stays within the budget.
\<close>

theorem decode_fails_closed:
  assumes "decode sha256 bs = Inr b"
  shows "\<exists>body h. bs = body @ sha256 body \<and> decode_body body = Inr (b, h) \<and> h \<le> MAX_DECODED_HEAP_BYTES \<and> book_ok b"
proof -
  let ?body = "take (length bs - CHECKSUM_LEN) bs"
  from assms obtain h where "sha256 ?body = drop (length bs - CHECKSUM_LEN) bs"
    and h: "decode_body ?body = Inr (b, h)" and valid: "validate b = None"
    by (auto simp: decode_def Let_def split: if_splits option.splits prod.splits)
  then have "bs = ?body @ sha256 ?body" by simp
  with h decode_body_bound [OF h] validate_ok [OF valid] show ?thesis by blast
qed

theorem decode_fails_closed_witness:
  "\<exists>bs. decode (\<lambda>_. replicate CHECKSUM_LEN 7) bs = Inr demo_artifact \<and>
     (\<exists>body. bs = body @ replicate CHECKSUM_LEN 7) \<and> book_ok demo_artifact"
proof -
  let ?sha = "\<lambda>_. replicate CHECKSUM_LEN 7 :: bytes"
  have "\<not> isl (encode ?sha demo_artifact)" by code_simp
  then obtain bs where bs: "encode ?sha demo_artifact = Inr bs" by (auto simp: isl_False_Inr)
  moreover have "decodable demo_artifact" by code_simp
  ultimately have "decode ?sha bs = Inr demo_artifact" by (intro decode_encode) simp_all
  with decode_fails_closed [OF this] show ?thesis by blast
qed

end
