(* ===== verification/Addrbook_Book.thy ===== *)
theory Addrbook_Book
  imports Addrbook_Codec "HOL-Library.AList"
begin

text \<open>
  Queries on the address book (\<open>src/addrbook/book.rs\<close>): category selectors as bit masks, range
  lookup by binary search, and domain lookup over label boundaries. The selector cache holds
  weak references; an entry whose selector has been dropped is \<open>None\<close>.
\<close>

section \<open>State\<close>

definition MAX_SELECTOR_CACHE_ENTRIES :: nat where "MAX_SELECTOR_CACHE_ENTRIES = 20000"

record selector =
  sel_mask :: "u64 list"

type_synonym selector_cache = "(string list \<times> u64 list option) list"

record addr_book =
  ab_raw :: raw_book
  name_index :: "string \<rightharpoonup> u32"
  checksum :: bytes
  cache :: selector_cache

datatype book_error = EmptyPattern | UnknownCategory string

definition selector_is_empty :: "selector \<Rightarrow> bool" where
  "selector_is_empty sel \<longleftrightarrow> list_all (\<lambda>w. w = 0) (sel_mask sel)"

definition normalize_domain :: "string \<Rightarrow> string" where
  "normalize_domain s = to_ascii_lowercase (trim_matches (CHR ''.'') (trim s))"

definition reverse_labels :: "string \<Rightarrow> string" where
  "reverse_labels domain = join ''.'' (rev (split_on (CHR ''.'') domain))"

definition normalize_category :: "string \<Rightarrow> string" where
  "normalize_category s = to_ascii_lowercase (trim_matches (CHR ''/'') (trim s))"

definition from_raw :: "raw_book \<Rightarrow> bytes \<Rightarrow> addr_book" where
  "from_raw raw digest =
     \<lparr>ab_raw = raw,
      name_index = map_of (rev (map (\<lambda>(i, c). (c_name c, word_of_nat i)) (enumerate 0 (categories raw)))),
      checksum = digest, cache = []\<rparr>"

definition from_bytes :: "(bytes \<Rightarrow> bytes) \<Rightarrow> bytes \<Rightarrow> codec_error + addr_book" where
  "from_bytes sha256 bs = and_then (decode sha256 bs) (\<lambda>raw. Inr (from_raw raw (sha256 bs)))"

record entry_counts =
  ec_catsets :: nat
  ec_ip4 :: nat
  ec_ip6 :: nat
  ec_domain_exact :: nat
  ec_domain_suffix :: nat
  ec_keywords :: nat

definition book_epoch :: "addr_book \<Rightarrow> u64" where
  "book_epoch b = build_epoch (ab_raw b)"

definition category_count :: "addr_book \<Rightarrow> nat" where
  "category_count b = length (categories (ab_raw b))"

definition category_names :: "addr_book \<Rightarrow> string list" where
  "category_names b = map c_name (categories (ab_raw b))"

definition entry_counts_of :: "addr_book \<Rightarrow> entry_counts" where
  "entry_counts_of b =
     \<lparr>ec_catsets = set_count (ab_raw b), ec_ip4 = length (ip4 (ab_raw b)), ec_ip6 = length (ip6 (ab_raw b)),
      ec_domain_exact = length (domain_exact (ab_raw b)), ec_domain_suffix = length (domain_suffix (ab_raw b)),
      ec_keywords = length (rb_keywords (ab_raw b))\<rparr>"

section \<open>Bit masks\<close>

definition set_mask_bit :: "u64 list \<Rightarrow> u32 \<Rightarrow> u64 list" where
  "set_mask_bit m i =
     (let w = unat (i div 64)
      in if w < length m then m[w := m ! w OR push_bit (unat (i mod 64)) 1] else m)"

definition get_mask_bit :: "u64 list \<Rightarrow> u32 \<Rightarrow> bool" where
  "get_mask_bit m i =
     (let w = unat (i div 64)
      in w < length m \<and> m ! w AND push_bit (unat (i mod 64)) 1 \<noteq> 0)"

definition catset_of :: "raw_book \<Rightarrow> u32 \<Rightarrow> u64 list" where
  "catset_of raw cs =
     (let w = unat (catset_words raw); base = unat cs * w in slice base (base + w) (catsets raw))"

definition catset_intersects :: "raw_book \<Rightarrow> u32 \<Rightarrow> selector \<Rightarrow> bool" where
  "catset_intersects raw cs sel \<longleftrightarrow>
     unat (catset_words raw) \<noteq> 0 \<and>
     list_ex (\<lambda>(a, b). a AND b \<noteq> 0) (zip (catset_of raw cs) (sel_mask sel))"

section \<open>Resolving categories\<close>

definition normalized_names :: "string list \<Rightarrow> book_error + string list" where
  "normalized_names patterns =
     (let names = map normalize_category patterns
      in if [] \<in> set names then Inl EmptyPattern else Inr (remdups_adj (sort names)))"

definition select_name :: "addr_book \<Rightarrow> string \<Rightarrow> u64 list \<Rightarrow> book_error + u64 list" where
  "select_name b name m0 =
     (let cats = categories (ab_raw b);
          (m1, hit1) = (case name_index b name of Some i \<Rightarrow> (set_mask_bit m0 i, True) | None \<Rightarrow> (m0, False));
          start = partition_point (\<lambda>c. c_name c < name @ ''/'') cats;
          stop = partition_point (\<lambda>c. c_name c < name @ ''0'') cats;
          m2 = fold (\<lambda>i m. set_mask_bit m (word_of_nat i)) [start..<stop] m1
      in if hit1 \<or> start < stop then Inr m2 else Inl (UnknownCategory name))"

fun select_names :: "addr_book \<Rightarrow> string list \<Rightarrow> u64 list \<Rightarrow> book_error + u64 list" where
  "select_names b [] m = Inr m"
| "select_names b (n # ns) m =
     (case select_name b n m of Inl e \<Rightarrow> Inl e | Inr m' \<Rightarrow> select_names b ns m')"

definition upgraded :: "selector_cache \<Rightarrow> string list \<Rightarrow> u64 list option" where
  "upgraded c names = (case map_of c names of Some (Some m) \<Rightarrow> Some m | _ \<Rightarrow> None)"

text \<open>
  \<open>resolve\<close> takes the cache lock twice; \<open>between\<close> is what other threads did to the cache while the
  mask was computed.
\<close>

definition resolve ::
  "(selector_cache \<Rightarrow> selector_cache) \<Rightarrow> addr_book \<Rightarrow> string list \<Rightarrow> (book_error + selector) \<times> addr_book" where
  "resolve between b patterns =
     (case normalized_names patterns of Inl e \<Rightarrow> (Inl e, b) | Inr names \<Rightarrow>
      if names = [] then (Inr \<lparr>sel_mask = []\<rparr>, b)
      else case upgraded (cache b) names of
             Some m \<Rightarrow> (Inr \<lparr>sel_mask = m\<rparr>, b)
           | None \<Rightarrow>
               (case select_names b names (replicate (unat (catset_words (ab_raw b))) 0) of
                  Inl e \<Rightarrow> (Inl e, b\<lparr>cache := between (cache b)\<rparr>)
                | Inr m \<Rightarrow>
                    let c = between (cache b)
                    in case upgraded c names of
                         Some existing \<Rightarrow> (Inr \<lparr>sel_mask = existing\<rparr>, b\<lparr>cache := c\<rparr>)
                       | None \<Rightarrow>
                           (Inr \<lparr>sel_mask = m\<rparr>,
                            b\<lparr>cache := if length c < MAX_SELECTOR_CACHE_ENTRIES
                                      then AList.update names (Some m) c else c\<rparr>)))"

definition prune_selector_cache :: "addr_book \<Rightarrow> addr_book" where
  "prune_selector_cache b = b\<lparr>cache := filter (\<lambda>(k, v). v \<noteq> None) (cache b)\<rparr>"

section \<open>Matching\<close>

definition lookup_range :: "('a :: linorder \<times> 'a \<times> u32) list \<Rightarrow> 'a \<Rightarrow> u32 option" where
  "lookup_range rs key =
     (let idx = partition_point (\<lambda>(s, _, _). s \<le> key) rs
      in if idx = 0 then None
         else let (_, e, cs) = rs ! (idx - 1) in if key \<le> e then Some cs else None)"

definition lookup_range4 :: "raw_book \<Rightarrow> u32 \<Rightarrow> u32 option" where
  "lookup_range4 raw = lookup_range (ip4 raw)"

definition lookup_range6 :: "raw_book \<Rightarrow> u128 \<Rightarrow> u32 option" where
  "lookup_range6 raw = lookup_range (ip6 raw)"

definition lookup_ip :: "raw_book \<Rightarrow> ip_addr \<Rightarrow> u32 option" where
  "lookup_ip raw ip =
     (case ip of
        V4 a \<Rightarrow> lookup_range4 raw a
      | V6 a \<Rightarrow> (case to_ipv4_mapped a of Some v4 \<Rightarrow> lookup_range4 raw v4 | None \<Rightarrow> lookup_range6 raw a))"

definition matches_ip :: "addr_book \<Rightarrow> ip_addr \<Rightarrow> selector \<Rightarrow> bool" where
  "matches_ip b ip sel =
     (case lookup_ip (ab_raw b) ip of Some cs \<Rightarrow> catset_intersects (ab_raw b) cs sel | None \<Rightarrow> False)"

definition find_entry :: "str_entry list \<Rightarrow> string \<Rightarrow> u32 option" where
  "find_entry es name =
     (case binary_search_by (\<lambda>e. cmp (se_text e) name) es of
        Inr i \<Rightarrow> Some (se_catset (es ! i))
      | Inl _ \<Rightarrow> None)"

definition position :: "char \<Rightarrow> string \<Rightarrow> nat option" where
  "position c s = (if c \<in> set s then Some (length (takeWhile (\<lambda>x. x \<noteq> c) s)) else None)"

text \<open>The loop over label boundaries of the reversed name; it returns the candidates in order.\<close>

function boundary_prefixes :: "string \<Rightarrow> nat \<Rightarrow> string list" where
  "boundary_prefixes r boundary =
     (let stop = (case position (CHR ''.'') (drop boundary r) of
                    Some p \<Rightarrow> boundary + p
                  | None \<Rightarrow> length r)
      in take stop r # (if stop = length r then [] else boundary_prefixes r (stop + 1)))"
  by auto
termination
proof (relation "measure (\<lambda>(r, boundary). Suc (length r) - boundary)")
  fix r :: string and boundary stop
  assume stop: "stop = (case position (CHR ''.'') (drop boundary r) of Some p \<Rightarrow> boundary + p | None \<Rightarrow> length r)"
    and ne: "stop \<noteq> length r"
  then obtain p where p: "position (CHR ''.'') (drop boundary r) = Some p" "stop = boundary + p"
    by (cases "position (CHR ''.'') (drop boundary r)") auto
  then have "CHR ''.'' \<in> set (drop boundary r)" by (simp add: position_def split: if_splits)
  then have "boundary < length r" by (metis drop_eq_Nil empty_iff empty_set not_le)
  with p show "((r, stop + 1), r, boundary) \<in> measure (\<lambda>(r, boundary). Suc (length r) - boundary)"
    by simp
qed simp

declare boundary_prefixes.simps [simp del]

definition matches_domain :: "addr_book \<Rightarrow> string \<Rightarrow> selector \<Rightarrow> bool" where
  "matches_domain b host sel =
     (let name = normalize_domain host; raw = ab_raw b;
          hit = (\<lambda>r. case r of Some cs \<Rightarrow> catset_intersects raw cs sel | None \<Rightarrow> False)
      in if name = [] then False
         else hit (find_entry (domain_exact raw) name) \<or>
              list_ex (\<lambda>candidate. hit (find_entry (domain_suffix raw) candidate))
                (boundary_prefixes (reverse_labels name) 0) \<or>
              list_ex (\<lambda>k. contains_str name (se_text k) \<and> catset_intersects raw (se_catset k) sel)
                (rb_keywords raw))"

definition book_matches :: "addr_book \<Rightarrow> string \<Rightarrow> selector \<Rightarrow> bool" where
  "book_matches b host sel =
     (case parse_ip_addr host of Some ip \<Rightarrow> matches_ip b ip sel | None \<Rightarrow> matches_domain b host sel)"

definition add_set :: "raw_book \<Rightarrow> u32 \<Rightarrow> u64 list \<Rightarrow> u64 list" where
  "add_set raw cs acc =
     map2 (\<lambda>a w. a OR w) acc (catset_of raw cs) @ drop (length (catset_of raw cs)) acc"

definition add_found :: "raw_book \<Rightarrow> u32 option \<Rightarrow> u64 list \<Rightarrow> u64 list" where
  "add_found raw r acc = (case r of Some cs \<Rightarrow> add_set raw cs acc | None \<Rightarrow> acc)"

definition lookup_mask :: "addr_book \<Rightarrow> string \<Rightarrow> u64 list option" where
  "lookup_mask b host =
     (let raw = ab_raw b; acc = replicate (max (unat (catset_words raw)) 1) 0
      in case parse_ip_addr host of
           Some ip \<Rightarrow> Some (add_found raw (lookup_ip raw ip) acc)
         | None \<Rightarrow>
             let name = normalize_domain host
             in if name = [] then None
                else let acc1 = add_found raw (find_entry (domain_exact raw) name) acc;
                         acc2 = fold (\<lambda>c. add_found raw (find_entry (domain_suffix raw) c))
                                  (boundary_prefixes (reverse_labels name) 0) acc1
                     in Some (fold (\<lambda>k. if contains_str name (se_text k) then add_set raw (se_catset k) else id)
                          (rb_keywords raw) acc2))"

definition lookup_categories :: "addr_book \<Rightarrow> string \<Rightarrow> string list" where
  "lookup_categories b host =
     (case lookup_mask b host of
        None \<Rightarrow> []
      | Some acc \<Rightarrow>
          map (\<lambda>(i, c). c_name c)
            (filter (\<lambda>(i, c). get_mask_bit acc (word_of_nat i)) (enumerate 0 (categories (ab_raw b)))))"

section \<open>Lookup by range and by name\<close>

lemma ranges_ok_nth:
  assumes "ranges_ok n rs" and "i < j" and "j < length rs"
  shows "fst (rs ! i) \<le> fst (snd (rs ! i))" and "fst (snd (rs ! i)) < fst (rs ! j)"
proof -
  have "i < length rs" using assms(2,3) by simp
  then have "rs ! i \<in> set rs" by simp
  then show "fst (rs ! i) \<le> fst (snd (rs ! i))"
    using assms(1) by (auto simp: ranges_ok_def)
  show "fst (snd (rs ! i)) < fst (rs ! j)"
    using assms by (auto simp: ranges_ok_def sorted_wrt_iff_nth_less case_prod_unfold)
qed

lemma lookup_range_spec:
  assumes "ranges_ok n rs"
  shows "lookup_range rs key = Some c \<longleftrightarrow> (\<exists>s e. (s, e, c) \<in> set rs \<and> s \<le> key \<and> key \<le> e)"
proof -
  let ?p = "\<lambda>r. fst r \<le> key" and ?k = "length (takeWhile (\<lambda>r. fst r \<le> key) rs)"
  have down: "fst (rs ! i) \<le> key" if "i < j" "j < length rs" "fst (rs ! j) \<le> key" for i j
    using ranges_ok_nth [OF assms that(1,2)] that(3) by order
  have idx: "partition_point ?p rs = ?k"
    by (rule partition_point_takeWhile) (rule down)
  have below: "fst (rs ! i) \<le> key" if "i < ?k" for i
    using set_takeWhileD [OF nth_mem [OF that]] takeWhile_nth [OF that] by simp
  have le: "?k \<le> length rs" by (rule length_takeWhile_le)
  have lookup: "lookup_range rs key = Some c \<longleftrightarrow>
      0 < ?k \<and> key \<le> fst (snd (rs ! (?k - 1))) \<and> snd (snd (rs ! (?k - 1))) = c"
    by (simp add: lookup_range_def Let_def case_prod_unfold idx)
  show ?thesis
  proof
    assume "lookup_range rs key = Some c"
    then have c: "0 < ?k" "key \<le> fst (snd (rs ! (?k - 1)))" "snd (snd (rs ! (?k - 1))) = c"
      by (simp_all add: lookup)
    then have "rs ! (?k - 1) \<in> set rs" using le by (intro nth_mem) linarith
    moreover have "rs ! (?k - 1) = (fst (rs ! (?k - 1)), fst (snd (rs ! (?k - 1))), c)"
      using c(3) by (metis prod.collapse)
    ultimately show "\<exists>s e. (s, e, c) \<in> set rs \<and> s \<le> key \<and> key \<le> e"
      using c below [of "?k - 1"] by (metis diff_less less_numeral_extra(1))
  next
    assume "\<exists>s e. (s, e, c) \<in> set rs \<and> s \<le> key \<and> key \<le> e"
    then obtain i s e where i: "i < length rs" "rs ! i = (s, e, c)" "s \<le> key" "key \<le> e"
      by (auto simp: in_set_conv_nth)
    have "i < ?k"
    proof (rule ccontr)
      assume "\<not> i < ?k"
      then have k: "?k < length rs" "?k \<le> i" using i(1) by simp_all
      then have "\<not> fst (rs ! ?k) \<le> key" using nth_length_takeWhile [of ?p rs] by simp
      moreover have "fst (rs ! ?k) \<le> fst (rs ! i)"
        using ranges_ok_nth [OF assms, of ?k i] k i(1) by (cases "?k = i") (simp, fastforce)
      ultimately show False using i by simp
    qed
    moreover have "\<not> i < ?k - 1"
    proof
      assume "i < ?k - 1"
      with ranges_ok_nth(2) [OF assms this] le below [of "?k - 1"] i show False by force
    qed
    ultimately have "0 < ?k" and "i = ?k - 1" by linarith+
    with i show "lookup_range rs key = Some c" by (simp only: lookup) simp
  qed
qed

lemma find_entry_spec:
  assumes "entries_ok n es"
  shows "find_entry es name = Some c \<longleftrightarrow> (\<exists>e \<in> set es. se_text e = name \<and> se_catset e = c)"
proof -
  let ?bs = "binary_search_by (\<lambda>e. cmp (se_text e) name) es"
  have found: "?bs = Inr i \<longleftrightarrow> i < length es \<and> se_text (es ! i) = name" for i
    using binary_search_sorted [of se_text es name] assms by (simp add: entries_ok_def)
  have "find_entry es name = Some c \<longleftrightarrow> (\<exists>i. ?bs = Inr i \<and> se_catset (es ! i) = c)"
    by (auto simp: find_entry_def split: sum.splits)
  also have "\<dots> \<longleftrightarrow> (\<exists>i < length es. se_text (es ! i) = name \<and> se_catset (es ! i) = c)"
    by (auto simp: found)
  finally show ?thesis by (metis in_set_conv_nth)
qed

section \<open>Label boundaries\<close>

lemma position_notin: "c \<notin> set s \<Longrightarrow> position c s = None"
  by (simp add: position_def)

lemma position_append: "c \<notin> set a \<Longrightarrow> position c (a @ c # b) = Some (length a)"
  by (auto simp: position_def takeWhile_append)

lemma join_Cons: "ls \<noteq> [] \<Longrightarrow> join sep (l # ls) = l @ sep @ join sep ls"
  by (cases ls) auto

lemma join_append: "ls \<noteq> [] \<Longrightarrow> ms \<noteq> [] \<Longrightarrow> join sep (ls @ ms) = join sep ls @ sep @ join sep ms"
  by (induction sep ls rule: join.induct) (auto simp: join_Cons)

lemma boundary_prefixes_from:
  assumes "\<forall>l \<in> set (ps @ ls). CHR ''.'' \<notin> set l" and "ls \<noteq> []"
    and "pre = (if ps = [] then [] else join ''.'' ps @ ''.'')"
  shows "boundary_prefixes (pre @ join ''.'' ls) (length pre) =
    map (\<lambda>k. pre @ join ''.'' (take (Suc k) ls)) [0..<length ls]"
  using assms
proof (induction ls arbitrary: ps pre)
  case (Cons l ls)
  show ?case
  proof (cases "ls = []")
    case True
    then show ?thesis
      using Cons.prems by (subst boundary_prefixes.simps) (simp add: position_notin Let_def)
  next
    case False
    let ?pre = "pre @ l @ ''.''"
    have pre: "?pre = (if ps @ [l] = [] then [] else join ''.'' (ps @ [l]) @ ''.'')"
      using Cons.prems(3) by (cases "ps = []") (auto simp: join_append)
    have whole: "pre @ join ''.'' (l # ls) = ?pre @ join ''.'' ls"
      using False by (simp add: join_Cons)
    have "boundary_prefixes (?pre @ join ''.'' ls) (length ?pre) =
        map (\<lambda>k. ?pre @ join ''.'' (take (Suc k) ls)) [0..<length ls]"
      by (rule Cons.IH [of "ps @ [l]", OF _ False pre]) (use Cons.prems in auto)
    moreover have "position (CHR ''.'') (l @ CHR ''.'' # join ''.'' ls) = Some (length l)"
      using Cons.prems by (intro position_append) auto
    ultimately have "boundary_prefixes (pre @ join ''.'' (l # ls)) (length pre) =
        (pre @ l) # map (\<lambda>k. ?pre @ join ''.'' (take (Suc k) ls)) [0..<length ls]"
      unfolding whole by (subst boundary_prefixes.simps) (simp add: Let_def)
    also have "\<dots> = map (\<lambda>k. pre @ join ''.'' (take (Suc k) (l # ls))) [0..<length (l # ls)]"
      using False by (simp add: map_upt_Suc join_Cons del: upt_Suc)
    finally show ?thesis .
  qed
qed simp

lemma boundary_prefixes_join:
  assumes "\<forall>l \<in> set ls. CHR ''.'' \<notin> set l" and "ls \<noteq> []"
  shows "set (boundary_prefixes (join ''.'' ls) 0) = {join ''.'' ks | ks. ks \<noteq> [] \<and> prefix ks ls}"
proof -
  have "set (boundary_prefixes (join ''.'' ls) 0) = (\<lambda>k. join ''.'' (take (Suc k) ls)) ` {0..<length ls}"
    using boundary_prefixes_from [of "[]" ls "[]"] assms by simp
  also have "\<dots> = {join ''.'' ks | ks. ks \<noteq> [] \<and> prefix ks ls}"
  proof (safe, goal_cases)
    case (1 x k)
    then show ?case by (intro exI [of _ "take (Suc k) ls"]) (auto simp: take_is_prefix)
  next
    case (2 x ks)
    then obtain k where "length ks = Suc k" by (cases ks) auto
    moreover have "take (length ks) ls = ks" using 2 by (auto simp: prefix_def)
    moreover have "length ks \<le> length ls" using 2 by (simp add: prefix_length_le)
    ultimately show ?case by (intro image_eqI [of _ _ k]) auto
  qed
  finally show ?thesis .
qed

section \<open>Masks as sets of category numbers\<close>

definition mask_mem :: "u64 list \<Rightarrow> nat \<Rightarrow> bool" where
  "mask_mem m i \<longleftrightarrow> i div 64 < length m \<and> bit (m ! (i div 64)) (i mod 64)"

lemma and_bit_neq_0: "(x AND push_bit n 1 \<noteq> (0 :: u64)) \<longleftrightarrow> n < 64 \<and> bit x n"
proof -
  have "bit (x AND push_bit n 1) i \<longleftrightarrow> i = n \<and> i < 64 \<and> bit x i" for i
    by (auto simp: bit_and_iff bit_exp_iff)
  then have "(\<exists>i. bit (x AND push_bit n 1) i) \<longleftrightarrow> n < 64 \<and> bit x n"
    by auto
  then show ?thesis
    by (metis bit_0_eq bot_apply bot_bool_def bit_eqI)
qed

lemma unat_id_parts:
  assumes "j < 2 ^ 32"
  shows "unat ((word_of_nat j :: u32) div 64) = j div 64" "unat ((word_of_nat j :: u32) mod 64) = j mod 64"
  using assms by (simp_all add: unat_div_distrib unat_mod_distrib of_nat_inverse)

lemma get_mask_bit_mem: "j < 2 ^ 32 \<Longrightarrow> get_mask_bit m (word_of_nat j) \<longleftrightarrow> mask_mem m j"
  by (auto simp: get_mask_bit_def mask_mem_def Let_def unat_id_parts and_bit_neq_0 simp del: push_bit_of_1)

lemma length_set_mask_bit [simp]: "length (set_mask_bit m i) = length m"
  by (simp add: set_mask_bit_def Let_def)

lemma set_mask_bit_mem:
  assumes "j < 2 ^ 32"
  shows "mask_mem (set_mask_bit m (word_of_nat j)) i \<longleftrightarrow> mask_mem m i \<or> i = j \<and> j div 64 < length m"
proof (cases "j div 64 < length m")
  case True
  show ?thesis
  proof (cases "i div 64 = j div 64")
    case same: True
    have "i mod 64 = j mod 64 \<longleftrightarrow> i = j" using same by (metis div_mult_mod_eq)
    with True same assms show ?thesis
      by (auto simp: set_mask_bit_def mask_mem_def Let_def unat_id_parts bit_or_iff bit_exp_iff)
  next
    case False
    then have "i \<noteq> j" by auto
    with True False assms show ?thesis
      by (simp add: set_mask_bit_def mask_mem_def Let_def unat_id_parts)
  qed
next
  case False
  with assms show ?thesis by (simp add: set_mask_bit_def Let_def unat_id_parts)
qed

lemma fold_set_mask_bit:
  "\<forall>j \<in> set js. j < 2 ^ 32 \<Longrightarrow>
     mask_mem (fold (\<lambda>i m. set_mask_bit m (word_of_nat i)) js m) i \<longleftrightarrow>
       mask_mem m i \<or> i \<in> set js \<and> i div 64 < length m"
  by (induction js arbitrary: m) (auto simp: set_mask_bit_mem)

lemma length_fold_set_mask_bit [simp]:
  "length (fold (\<lambda>i m. set_mask_bit m (word_of_nat i)) js m) = length m"
  by (induction js arbitrary: m) auto

lemma masks_meet:
  "list_ex (\<lambda>(a, b). a AND b \<noteq> 0) (zip ms ns) \<longleftrightarrow> (\<exists>i. mask_mem ms i \<and> mask_mem ns i)"
proof -
  have word: "(a AND b \<noteq> 0) \<longleftrightarrow> (\<exists>k < 64. bit a k \<and> bit b k)" for a b :: u64
  proof -
    have "a AND b \<noteq> 0 \<longleftrightarrow> (\<exists>k. bit (a AND b) k)" by (metis bit_0_eq bot_apply bot_bool_def bit_eqI)
    also have "\<dots> \<longleftrightarrow> (\<exists>k < 64. bit a k \<and> bit b k)"
      using bit_imp_le_length [of a] by (fastforce simp: bit_and_iff)
    finally show ?thesis .
  qed
  have "list_ex (\<lambda>(a, b). a AND b \<noteq> 0) (zip ms ns) \<longleftrightarrow>
      (\<exists>w < min (length ms) (length ns). \<exists>k < 64. bit (ms ! w) k \<and> bit (ns ! w) k)"
    by (auto simp: list_ex_iff set_zip word; metis)
  also have "\<dots> \<longleftrightarrow> (\<exists>i. mask_mem ms i \<and> mask_mem ns i)"
  proof safe
    fix w k
    assume "w < min (length ms) (length ns)" "k < (64 :: nat)" "bit (ms ! w) k" "bit (ns ! w) k"
    then show "\<exists>i. mask_mem ms i \<and> mask_mem ns i"
      by (intro exI [of _ "w * 64 + k"]) (simp add: mask_mem_def)
  next
    fix i
    assume "mask_mem ms i" "mask_mem ns i"
    then show "\<exists>w < min (length ms) (length ns). \<exists>k < 64. bit (ms ! w) k \<and> bit (ns ! w) k"
      by (intro exI [of _ "i div 64"] conjI exI [of _ "i mod 64"]) (auto simp: mask_mem_def)
  qed
  finally show ?thesis .
qed

section \<open>Descendants of a category\<close>

lemma char_less_code: "(c :: char) < d \<longleftrightarrow> (of_char c :: nat) < of_char d"
  by (simp add: less_char_def)

lemma lex_append_same: "(xs @ ys < xs @ zs) \<longleftrightarrow> (ys < (zs :: string))"
  by (induction xs) auto

text \<open>Between \<open>name/\<close> and \<open>name0\<close> lie exactly the strings that start with \<open>name/\<close>.\<close>

lemma descendant_interval:
  "\<not> s < name @ ''/'' \<and> s < name @ ''0'' \<longleftrightarrow> prefix (name @ ''/'') s"
proof (induction name arbitrary: s)
  case Nil
  have eq: "c = CHR ''/'' \<longleftrightarrow> of_char c = (47 :: nat)" for c
    using of_char_eq_iff [of c "CHR ''/''", where 'a = nat] by simp
  show ?case
    by (cases s) (auto simp: char_less_code eq eq_commute [of "CHR ''/''"])
next
  case (Cons a name)
  then show ?case by (cases s) auto
qed

section \<open>What a selector selects\<close>

text \<open>A pattern covers the category it names and every category below it.\<close>

definition covers :: "string \<Rightarrow> string \<Rightarrow> bool" where
  "covers name cname \<longleftrightarrow> cname = name \<or> prefix (name @ ''/'') cname"

definition book_wf :: "addr_book \<Rightarrow> bool" where
  "book_wf b \<longleftrightarrow> book_ok (ab_raw b) \<and> name_index b = name_index (from_raw (ab_raw b) (checksum b))"

abbreviation cat_name :: "addr_book \<Rightarrow> nat \<Rightarrow> string" where
  "cat_name b i \<equiv> c_name (categories (ab_raw b) ! i)"

abbreviation n_cats :: "addr_book \<Rightarrow> nat" where
  "n_cats b \<equiv> length (categories (ab_raw b))"

lemma book_wf_bounds:
  assumes "book_wf b" and "i < n_cats b"
  shows "i < 2 ^ 32" and "i div 64 < unat (catset_words (ab_raw b))"
  using assms by (auto simp: book_wf_def book_ok_def MAX_CATEGORIES_def)

lemma cat_names_mono: "book_wf b \<Longrightarrow> i < j \<Longrightarrow> j < n_cats b \<Longrightarrow> cat_name b i < cat_name b j"
  by (simp add: book_wf_def book_ok_def sorted_wrt_iff_nth_less)

lemma cat_names_inj: "book_wf b \<Longrightarrow> i < n_cats b \<Longrightarrow> j < n_cats b \<Longrightarrow> cat_name b i = cat_name b j \<Longrightarrow> i = j"
  by (metis cat_names_mono less_irrefl linorder_neqE_nat)

lemma name_index_spec:
  assumes "book_wf b"
  shows "name_index b name = Some k \<longleftrightarrow> (\<exists>i < n_cats b. cat_name b i = name \<and> k = word_of_nat i)"
proof -
  let ?ps = "map (\<lambda>(i, c). (c_name c, word_of_nat i :: u32)) (enumerate 0 (categories (ab_raw b)))"
  have nth: "?ps ! i = (cat_name b i, word_of_nat i)" if "i < n_cats b" for i
    using that by (simp add: nth_enumerate_eq)
  have "map fst ?ps = map c_name (map snd (enumerate 0 (categories (ab_raw b))))"
    by (simp only: map_map comp_def case_prod_unfold fst_conv)
  also have "\<dots> = map c_name (categories (ab_raw b))" by (simp only: map_snd_enumerate)
  finally have names: "map fst ?ps = map c_name (categories (ab_raw b))" .
  have "distinct (map c_name (categories (ab_raw b)))"
    using cat_names_inj [OF assms] by (auto simp: distinct_conv_nth)
  then have "distinct (map fst (rev ?ps))"
    by (simp only: names rev_map [symmetric] distinct_rev)
  then have "map_of (rev ?ps) name = Some k \<longleftrightarrow> (name, k) \<in> set ?ps"
    by (simp add: map_of_eq_Some_iff)
  also have "\<dots> \<longleftrightarrow> (\<exists>i < n_cats b. cat_name b i = name \<and> k = word_of_nat i)"
  proof -
    have "length ?ps = n_cats b" by simp
    then have "(name, k) \<in> set ?ps \<longleftrightarrow> (\<exists>i < n_cats b. ?ps ! i = (name, k))"
      by (simp only: in_set_conv_nth)
    also have "\<dots> \<longleftrightarrow> (\<exists>i < n_cats b. cat_name b i = name \<and> k = word_of_nat i)"
      by (intro arg_cong [where f = Ex] ext conj_cong refl) (subst nth, assumption, auto)
    finally show ?thesis .
  qed
  finally show ?thesis using assms by (simp add: book_wf_def from_raw_def)
qed

lemma category_interval:
  assumes "book_wf b"
  shows "i \<in> set [partition_point (\<lambda>c. c_name c < name @ ''/'') (categories (ab_raw b))
             ..< partition_point (\<lambda>c. c_name c < name @ ''0'') (categories (ab_raw b))] \<longleftrightarrow>
         i < n_cats b \<and> prefix (name @ ''/'') (cat_name b i)"
proof -
  have pp: "i < partition_point (\<lambda>c. c_name c < s) (categories (ab_raw b)) \<longleftrightarrow> i < n_cats b \<and> cat_name b i < s" for i s
    by (rule partition_point_less) (use cat_names_mono [OF assms] in \<open>meson less_trans\<close>)
  show ?thesis
    using pp [of i "name @ ''/''"] pp [of i "name @ ''0''"] descendant_interval [of "cat_name b i" name]
    by auto
qed

lemma select_name_spec:
  assumes "book_wf b" and "length m0 = unat (catset_words (ab_raw b))"
  shows "case select_name b name m0 of
     Inl e \<Rightarrow> e = UnknownCategory name \<and> (\<forall>i < n_cats b. \<not> covers name (cat_name b i))
   | Inr m \<Rightarrow> length m = length m0 \<and> (\<exists>i < n_cats b. covers name (cat_name b i)) \<and>
       (\<forall>i. mask_mem m i \<longleftrightarrow> mask_mem m0 i \<or> i < n_cats b \<and> covers name (cat_name b i))"
proof -
  let ?cats = "categories (ab_raw b)"
  let ?a = "partition_point (\<lambda>c. c_name c < name @ ''/'') ?cats"
    and ?z = "partition_point (\<lambda>c. c_name c < name @ ''0'') ?cats"
  note mem = category_interval [OF assms(1), of _ name]
  have small: "\<forall>j \<in> set [?a..<?z]. j < 2 ^ 32"
    using mem book_wf_bounds(1) [OF assms(1)] by blast
  have ne: "?a < ?z \<longleftrightarrow> (\<exists>i < n_cats b. prefix (name @ ''/'') (cat_name b i))"
  proof -
    have "?a < ?z \<longleftrightarrow> (\<exists>i. i \<in> set [?a..<?z])" by auto
    then show ?thesis unfolding mem .
  qed
  define m1 where "m1 = (case name_index b name of Some i \<Rightarrow> set_mask_bit m0 i | None \<Rightarrow> m0)"
  have m1_len: "length m1 = length m0" by (simp add: m1_def split: option.splits)
  have m1: "mask_mem m1 i \<longleftrightarrow> mask_mem m0 i \<or> i < n_cats b \<and> cat_name b i = name" for i
  proof (cases "name_index b name")
    case None
    with name_index_spec [OF assms(1), of name] show ?thesis by (auto simp: m1_def)
  next
    case (Some k)
    then obtain j where j: "j < n_cats b" "cat_name b j = name" "k = word_of_nat j"
      using name_index_spec [OF assms(1), of name k] by blast
    have "i = j \<longleftrightarrow> i < n_cats b \<and> cat_name b i = name"
      using j cat_names_inj [OF assms(1)] by blast
    with Some j(3) book_wf_bounds [OF assms(1) j(1)] assms(2) show ?thesis
      by (simp add: m1_def set_mask_bit_mem)
  qed
  have hit: "(name_index b name \<noteq> None) \<longleftrightarrow> (\<exists>i < n_cats b. cat_name b i = name)"
    using name_index_spec [OF assms(1), of name] by (metis not_None_eq)
  have "mask_mem (fold (\<lambda>i m. set_mask_bit m (word_of_nat i)) [?a..<?z] m1) i \<longleftrightarrow>
      mask_mem m0 i \<or> i < n_cats b \<and> covers name (cat_name b i)" for i
    unfolding fold_set_mask_bit [OF small] m1 mem covers_def
    using book_wf_bounds(2) [OF assms(1), of i] assms(2) m1_len by auto
  moreover have "select_name b name m0 =
      (if name_index b name \<noteq> None \<or> ?a < ?z
       then Inr (fold (\<lambda>i m. set_mask_bit m (word_of_nat i)) [?a..<?z] m1) else Inl (UnknownCategory name))"
    by (simp add: select_name_def Let_def m1_def split: option.splits)
  moreover have "(name_index b name \<noteq> None \<or> ?a < ?z) \<longleftrightarrow> (\<exists>i < n_cats b. covers name (cat_name b i))"
    unfolding hit ne covers_def by blast
  ultimately show ?thesis
    using m1_len by simp
qed

text \<open>The mask a set of names should give: exactly the categories some name covers.\<close>

definition selects :: "addr_book \<Rightarrow> string list \<Rightarrow> u64 list \<Rightarrow> bool" where
  "selects b names m \<longleftrightarrow>
     length m = unat (catset_words (ab_raw b)) \<and>
     (\<forall>i. mask_mem m i \<longleftrightarrow> i < n_cats b \<and> list_ex (\<lambda>n. covers n (cat_name b i)) names)"

definition known :: "addr_book \<Rightarrow> string \<Rightarrow> bool" where
  "known b name \<longleftrightarrow> (\<exists>i < n_cats b. covers name (cat_name b i))"

lemma select_names_spec:
  assumes "book_wf b" and "selects b prior m0"
  shows "case select_names b names m0 of
     Inl e \<Rightarrow> \<not> list_all (known b) names
   | Inr m \<Rightarrow> list_all (known b) names \<and> selects b (prior @ names) m"
  using assms(2)
proof (induction names arbitrary: prior m0)
  case (Cons n ns)
  have len: "length m0 = unat (catset_words (ab_raw b))" using Cons.prems by (simp add: selects_def)
  show ?case
  proof (cases "select_name b n m0")
    case (Inl e)
    with select_name_spec [OF assms(1) len, of n] show ?thesis by (auto simp: known_def)
  next
    case (Inr m)
    with select_name_spec [OF assms(1) len, of n] Cons.prems have "selects b (prior @ [n]) m" "known b n"
      by (auto simp: selects_def known_def)
    with Cons.IH [of "prior @ [n]" m] Inr show ?thesis by (auto split: sum.splits)
  qed
qed simp

definition select_all :: "addr_book \<Rightarrow> string list \<Rightarrow> book_error + u64 list" where
  "select_all b names = select_names b names (replicate (unat (catset_words (ab_raw b))) 0)"

lemma selects_nothing: "selects b [] (replicate (unat (catset_words (ab_raw b))) 0)"
  by (auto simp: selects_def mask_mem_def)

lemma select_all_spec:
  assumes "book_wf b"
  shows "case select_all b names of
     Inl e \<Rightarrow> \<not> list_all (known b) names
   | Inr m \<Rightarrow> list_all (known b) names \<and> selects b names m"
  using select_names_spec [OF assms selects_nothing, of names]
  by (auto simp: select_all_def split: sum.splits)

lemma select_all_cong:
  "ab_raw b = ab_raw b' \<Longrightarrow> name_index b = name_index b' \<Longrightarrow> select_all b names = select_all b' names"
proof -
  assume eq: "ab_raw b = ab_raw b'" "name_index b = name_index b'"
  have one: "select_name b n m = select_name b' n m" for n m
    by (simp only: select_name_def eq)
  have "select_names b ns m = select_names b' ns m" for ns m
    by (induction ns arbitrary: m) (simp_all add: one split: sum.splits)
  then show ?thesis by (simp add: select_all_def eq)
qed

section \<open>The selector cache is transparent\<close>

text \<open>Every live entry of the cache is the mask that computing it afresh would give.\<close>

definition cache_ok :: "addr_book \<Rightarrow> selector_cache \<Rightarrow> bool" where
  "cache_ok b c \<longleftrightarrow> (\<forall>names m. map_of c names = Some (Some m) \<longrightarrow> select_all b names = Inr m)"

definition resolve_fresh :: "addr_book \<Rightarrow> string list \<Rightarrow> book_error + selector" where
  "resolve_fresh b patterns =
     (case normalized_names patterns of Inl e \<Rightarrow> Inl e | Inr names \<Rightarrow>
      if names = [] then Inr \<lparr>sel_mask = []\<rparr>
      else case select_all b names of Inl e \<Rightarrow> Inl e | Inr m \<Rightarrow> Inr \<lparr>sel_mask = m\<rparr>)"

lemma upgraded_ok: "cache_ok b c \<Longrightarrow> upgraded c names = Some m \<Longrightarrow> select_all b names = Inr m"
  by (auto simp: cache_ok_def upgraded_def split: option.splits)

lemma cache_ok_cong:
  "ab_raw b = ab_raw b' \<Longrightarrow> name_index b = name_index b' \<Longrightarrow> cache_ok b c = cache_ok b' c"
  by (simp add: cache_ok_def select_all_cong [of b b'])

lemma cache_ok_update: "cache_ok b c \<Longrightarrow> select_all b names = Inr m \<Longrightarrow> cache_ok b (AList.update names (Some m) c)"
  by (auto simp: cache_ok_def update_conv')

lemma resolve_transparent:
  assumes "cache_ok b (cache b)" and "cache_ok b (between (cache b))"
  shows "fst (resolve between b ps) = resolve_fresh b ps"
    and "cache_ok b (cache (snd (resolve between b ps)))"
proof -
  have "fst (resolve between b ps) = resolve_fresh b ps \<and> cache_ok b (cache (snd (resolve between b ps)))"
  proof (cases "normalized_names ps")
    case (Inl e)
    with assms(1) show ?thesis by (simp add: resolve_def resolve_fresh_def)
  next
    case names: (Inr names)
    show ?thesis
    proof (cases "names = []")
      case True
      with names assms(1) show ?thesis by (simp add: resolve_def resolve_fresh_def)
    next
      case ne: False
      show ?thesis
      proof (cases "upgraded (cache b) names")
        case (Some m)
        with names ne assms(1) upgraded_ok [OF assms(1) Some] show ?thesis
          by (simp add: resolve_def resolve_fresh_def)
      next
        case None
        have computed: "resolve between b ps = (case select_all b names of
            Inl e \<Rightarrow> (Inl e, b\<lparr>cache := between (cache b)\<rparr>)
          | Inr m \<Rightarrow> (case upgraded (between (cache b)) names of
               Some existing \<Rightarrow> (Inr \<lparr>sel_mask = existing\<rparr>, b\<lparr>cache := between (cache b)\<rparr>)
             | None \<Rightarrow> (Inr \<lparr>sel_mask = m\<rparr>,
                 b\<lparr>cache := if length (between (cache b)) < MAX_SELECTOR_CACHE_ENTRIES
                   then AList.update names (Some m) (between (cache b)) else between (cache b)\<rparr>)))"
          using names ne None
          by (cases "select_all b names") (simp_all add: resolve_def select_all_def Let_def)
        show ?thesis
          unfolding computed using names ne assms(2) upgraded_ok [OF assms(2), of names]
            cache_ok_update [OF assms(2), of names]
          by (cases "select_all b names"; cases "upgraded (between (cache b)) names")
            (simp_all add: resolve_fresh_def)
      qed
    qed
  qed
  then show "fst (resolve between b ps) = resolve_fresh b ps"
    and "cache_ok b (cache (snd (resolve between b ps)))" by simp_all
qed

section \<open>What a host is listed under\<close>

text \<open>
  The reference: the category sets of all entries that apply to a host. A suffix entry, stored
  with its labels reversed, applies when its labels start the reversed labels of the name.
\<close>

definition range_hits :: "('a :: linorder \<times> 'a \<times> u32) list \<Rightarrow> 'a \<Rightarrow> u32 set" where
  "range_hits rs a = {c. \<exists>s e. (s, e, c) \<in> set rs \<and> s \<le> a \<and> a \<le> e}"

definition ip_hits :: "raw_book \<Rightarrow> ip_addr \<Rightarrow> u32 set" where
  "ip_hits raw ip =
     (case ip of
        V4 a \<Rightarrow> range_hits (ip4 raw) a
      | V6 a \<Rightarrow> (case to_ipv4_mapped a of Some v4 \<Rightarrow> range_hits (ip4 raw) v4 | None \<Rightarrow> range_hits (ip6 raw) a))"

definition domain_hits :: "raw_book \<Rightarrow> string \<Rightarrow> u32 set" where
  "domain_hits raw name =
     se_catset ` ({e \<in> set (domain_exact raw). se_text e = name} \<union>
       {e \<in> set (domain_suffix raw).
          prefix (split_on (CHR ''.'') (se_text e)) (rev (split_on (CHR ''.'') name))} \<union>
       {e \<in> set (rb_keywords raw). sublist (se_text e) name})"

definition book_hits :: "raw_book \<Rightarrow> string \<Rightarrow> u32 set" where
  "book_hits raw host =
     (case parse_ip_addr host of
        Some ip \<Rightarrow> ip_hits raw ip
      | None \<Rightarrow> if normalize_domain host = [] then {} else domain_hits raw (normalize_domain host))"

lemma lookup_range_hits: "ranges_ok n rs \<Longrightarrow> set_option (lookup_range rs a) = range_hits rs a"
  by (rule set_eqI) (simp add: range_hits_def lookup_range_spec)

lemma lookup_ip_hits: "book_ok raw \<Longrightarrow> set_option (lookup_ip raw ip) = ip_hits raw ip"
  using lookup_range_hits [of "set_count raw" "ip4 raw"] lookup_range_hits [of "set_count raw" "ip6 raw"]
  by (auto simp: lookup_ip_def ip_hits_def lookup_range4_def lookup_range6_def book_ok_def
      split: option.splits ip_addr.splits)

lemma suffix_candidates:
  "set (boundary_prefixes (reverse_labels name) 0) =
     {join ''.'' ks | ks. ks \<noteq> [] \<and> prefix ks (rev (split_on (CHR ''.'') name))}"
  unfolding reverse_labels_def
  by (rule boundary_prefixes_join) (auto dest: split_on_segments)

lemma suffix_candidate_iff:
  "t \<in> set (boundary_prefixes (reverse_labels name) 0) \<longleftrightarrow>
     prefix (split_on (CHR ''.'') t) (rev (split_on (CHR ''.'') name))"
proof
  assume "t \<in> set (boundary_prefixes (reverse_labels name) 0)"
  then obtain ks where ks: "t = join ''.'' ks" "ks \<noteq> []" "prefix ks (rev (split_on (CHR ''.'') name))"
    unfolding suffix_candidates by blast
  then have "\<forall>k \<in> set ks. CHR ''.'' \<notin> set k"
    using split_on_segments set_mono_prefix [OF ks(3)] by auto
  with ks show "prefix (split_on (CHR ''.'') t) (rev (split_on (CHR ''.'') name))"
    by (simp add: split_on_join)
next
  assume "prefix (split_on (CHR ''.'') t) (rev (split_on (CHR ''.'') name))"
  then show "t \<in> set (boundary_prefixes (reverse_labels name) 0)"
    unfolding suffix_candidates by (intro CollectI exI [of _ "split_on (CHR ''.'') t"]) simp
qed

lemma domain_hits_found:
  assumes "book_ok raw"
  shows "domain_hits raw name =
    set_option (find_entry (domain_exact raw) name) \<union>
    (\<Union>t \<in> set (boundary_prefixes (reverse_labels name) 0). set_option (find_entry (domain_suffix raw) t)) \<union>
    se_catset ` {k \<in> set (rb_keywords raw). contains_str name (se_text k)}"
proof -
  have exact: "c \<in> set_option (find_entry (domain_exact raw) t) \<longleftrightarrow> (\<exists>e \<in> set (domain_exact raw). se_text e = t \<and> se_catset e = c)" for c t
    using assms find_entry_spec [of "set_count raw"] by (simp add: book_ok_def)
  have suffix: "c \<in> set_option (find_entry (domain_suffix raw) t) \<longleftrightarrow> (\<exists>e \<in> set (domain_suffix raw). se_text e = t \<and> se_catset e = c)" for c t
    using assms find_entry_spec [of "set_count raw"] by (simp add: book_ok_def)
  show ?thesis
    unfolding domain_hits_def contains_str_def suffix_candidate_iff [symmetric]
    by (rule set_eqI) (simp only: Un_iff UN_iff exact suffix image_iff mem_Collect_eq, blast)
qed

lemma hits_valid:
  assumes "book_ok raw" and "c \<in> book_hits raw host"
  shows "unat c < set_count raw"
proof -
  have "unat (se_catset e) < set_count raw"
    if "e \<in> set (domain_exact raw) \<union> set (domain_suffix raw) \<union> set (rb_keywords raw)" for e
    using that assms(1) by (auto simp: book_ok_def entries_ok_def)
  then show ?thesis
    using assms
    by (auto simp: book_hits_def ip_hits_def range_hits_def domain_hits_def book_ok_def ranges_ok_def
        split: option.splits ip_addr.splits if_splits)
qed

lemma length_catset_of:
  assumes "book_ok raw" and "unat c < set_count raw"
  shows "length (catset_of raw c) = unat (catset_words raw)"
proof -
  have "(unat c + 1) * unat (catset_words raw) \<le> set_count raw * unat (catset_words raw)"
    using assms(2) by (intro mult_le_mono1) simp
  then show ?thesis
    using assms(1) by (simp add: catset_of_def Let_def book_ok_def)
qed

section \<open>Listing the categories of a host\<close>

lemma add_set_mem:
  assumes "length (catset_of raw c) \<le> length acc"
  shows "length (add_set raw c acc) = length acc"
    and "mask_mem (add_set raw c acc) i \<longleftrightarrow> mask_mem acc i \<or> mask_mem (catset_of raw c) i"
  using assms by (auto simp: add_set_def mask_mem_def nth_append bit_or_iff)

text \<open>An accumulator that holds exactly the bits of the category sets in \<open>S\<close>.\<close>

definition collects :: "raw_book \<Rightarrow> u32 set \<Rightarrow> u64 list \<Rightarrow> bool" where
  "collects raw S acc \<longleftrightarrow>
     length acc = max (unat (catset_words raw)) 1 \<and>
     (\<forall>i. mask_mem acc i \<longleftrightarrow> (\<exists>c \<in> S. mask_mem (catset_of raw c) i))"

lemma collects_add_set:
  assumes "book_ok raw" and "unat c < set_count raw" and "collects raw S acc"
  shows "collects raw (insert c S) (add_set raw c acc)"
  using assms(3) add_set_mem [of raw c acc] length_catset_of [OF assms(1,2)]
  by (auto simp: collects_def)

lemma collects_add_found:
  assumes "book_ok raw" and "\<forall>c \<in> set_option r. unat c < set_count raw" and "collects raw S acc"
  shows "collects raw (set_option r \<union> S) (add_found raw r acc)"
  using assms collects_add_set [OF assms(1)] by (cases r) (auto simp: add_found_def)

lemma collects_fold_found:
  assumes "book_ok raw" and "\<forall>t \<in> set ts. \<forall>c \<in> set_option (f t). unat c < set_count raw"
    and "collects raw S acc"
  shows "collects raw ((\<Union>t \<in> set ts. set_option (f t)) \<union> S) (fold (\<lambda>t. add_found raw (f t)) ts acc)"
  using assms(2,3)
proof (induction ts arbitrary: S acc)
  case (Cons t ts)
  then have "collects raw (set_option (f t) \<union> S) (add_found raw (f t) acc)"
    by (intro collects_add_found [OF assms(1)]) auto
  from Cons.IH [OF _ this] Cons.prems(1) show ?case by (simp add: Un_ac)
qed simp

lemma lookup_mask_collects:
  assumes "book_ok (ab_raw b)"
  shows "case lookup_mask b host of
     None \<Rightarrow> book_hits (ab_raw b) host = {}
   | Some acc \<Rightarrow> collects (ab_raw b) (book_hits (ab_raw b) host) acc"
proof -
  let ?raw = "ab_raw b" and ?name = "normalize_domain host"
  let ?zero = "replicate (max (unat (catset_words (ab_raw b))) 1) (0 :: u64)"
  have zero: "collects ?raw {} ?zero"
    by (auto simp: collects_def mask_mem_def)
  note valid = hits_valid [OF assms, of _ host]
  show ?thesis
  proof (cases "parse_ip_addr host")
    case (Some ip)
    have "collects ?raw (set_option (lookup_ip ?raw ip) \<union> {}) (add_found ?raw (lookup_ip ?raw ip) ?zero)"
      by (rule collects_add_found [OF assms _ zero])
        (use valid Some lookup_ip_hits [OF assms] in \<open>simp add: book_hits_def\<close>)
    with Some lookup_ip_hits [OF assms] show ?thesis
      by (simp add: lookup_mask_def book_hits_def Let_def)
  next
    case None
    show ?thesis
    proof (cases "?name = []")
      case True
      with None show ?thesis by (simp add: lookup_mask_def book_hits_def Let_def)
    next
      case False
      define kw where "kw k = (if contains_str ?name (se_text k) then Some (se_catset k) else None)" for k :: str_entry
      let ?cands = "boundary_prefixes (reverse_labels ?name) 0"
      let ?kws = "\<Union>k \<in> set (rb_keywords ?raw). set_option (kw k)"
      have kws: "?kws = se_catset ` {k \<in> set (rb_keywords ?raw). contains_str ?name (se_text k)}"
        by (auto simp: kw_def split: if_splits)
      have hits: "book_hits ?raw host = ?kws \<union> ((\<Union>t \<in> set ?cands. set_option (find_entry (domain_suffix ?raw) t)) \<union>
          (set_option (find_entry (domain_exact ?raw) ?name) \<union> {}))"
        unfolding kws using None False by (auto simp: book_hits_def domain_hits_found [OF assms])
      have "collects ?raw (book_hits ?raw host)
          (fold (\<lambda>k. add_found ?raw (kw k)) (rb_keywords ?raw)
            (fold (\<lambda>c. add_found ?raw (find_entry (domain_suffix ?raw) c)) ?cands
              (add_found ?raw (find_entry (domain_exact ?raw) ?name) ?zero)))"
        unfolding hits
        by (intro collects_fold_found [OF assms] collects_add_found [OF assms] zero; use valid hits in blast)
      moreover have "fold (\<lambda>k. if contains_str ?name (se_text k) then add_set ?raw (se_catset k) else id)
          (rb_keywords ?raw) acc = fold (\<lambda>k. add_found ?raw (kw k)) (rb_keywords ?raw) acc" for acc
        by (rule fold_cong) (auto simp: add_found_def kw_def fun_eq_iff)
      ultimately show ?thesis
        using None False by (simp add: lookup_mask_def Let_def)
    qed
  qed
qed

lemma book_matches_hits:
  assumes ok: "book_ok (ab_raw b)"
  shows "book_matches b host sel \<longleftrightarrow> (\<exists>c \<in> book_hits (ab_raw b) host. catset_intersects (ab_raw b) c sel)"
proof -
  have opt: "(case r of Some c \<Rightarrow> P c | None \<Rightarrow> False) \<longleftrightarrow> (\<exists>c \<in> set_option r. P c)" for r :: "u32 option" and P
    by (cases r) auto
  show ?thesis
    by (cases "parse_ip_addr host")
      (auto simp: book_matches_def matches_ip_def matches_domain_def book_hits_def Let_def opt list_ex_iff
        lookup_ip_hits [OF ok] domain_hits_found [OF ok] simp del: elem_set)
qed

lemma lookup_categories_mem:
  assumes "book_wf b"
  shows "x \<in> set (lookup_categories b host) \<longleftrightarrow>
    (\<exists>i < n_cats b. cat_name b i = x \<and>
       (\<exists>c \<in> book_hits (ab_raw b) host. mask_mem (catset_of (ab_raw b) c) i))"
proof (cases "lookup_mask b host")
  case None
  with lookup_mask_collects [of b host] assms show ?thesis
    by (simp add: lookup_categories_def book_wf_def)
next
  case (Some acc)
  with lookup_mask_collects [of b host] assms have
    acc: "mask_mem acc i \<longleftrightarrow> (\<exists>c \<in> book_hits (ab_raw b) host. mask_mem (catset_of (ab_raw b) c) i)" for i
    by (simp add: collects_def book_wf_def)
  have "x \<in> set (lookup_categories b host) \<longleftrightarrow>
      (\<exists>i < n_cats b. cat_name b i = x \<and> get_mask_bit acc (word_of_nat i))"
    by (auto simp: lookup_categories_def Some in_set_enumerate_eq image_iff)
  then show ?thesis
    using get_mask_bit_mem book_wf_bounds(1) [OF assms] acc by metis
qed

lemma resolve_keeps_book:
  "ab_raw (snd (resolve between b ps)) = ab_raw b" "name_index (snd (resolve between b ps)) = name_index b"
  "checksum (snd (resolve between b ps)) = checksum b"
  by (simp_all add: resolve_def Let_def split: sum.split option.split)

lemma book_matches_cong: "ab_raw b' = ab_raw b \<Longrightarrow> book_matches b' host sel = book_matches b host sel"
  by (cases "parse_ip_addr host") (simp_all add: book_matches_def matches_ip_def matches_domain_def split: option.split)

section \<open>A book in use\<close>

text \<open>
  What happens to a book after it is opened: patterns are resolved, where other threads may have
  brought the cache to any state a book in use can be in while the mask is computed; the last
  user of a selector drops it, which leaves a dead entry in the cache; the cache is pruned.
\<close>

inductive book_run :: "raw_book \<Rightarrow> bytes \<Rightarrow> addr_book \<Rightarrow> bool" for raw digest where
  opened: "book_run raw digest (from_raw raw digest)"
| resolved: "book_run raw digest b \<Longrightarrow> book_run raw digest b' \<Longrightarrow> between (cache b) = cache b' \<Longrightarrow>
    book_run raw digest (snd (resolve between b ps))"
| selector_dropped: "book_run raw digest b \<Longrightarrow>
    book_run raw digest (b\<lparr>cache := map (\<lambda>(k, v). (k, if k = names then None else v)) (cache b)\<rparr>)"
| pruned: "book_run raw digest b \<Longrightarrow> book_run raw digest (prune_selector_cache b)"

lemma resolve_distinct:
  "distinct (map fst (cache b)) \<Longrightarrow> distinct (map fst (between (cache b))) \<Longrightarrow>
     distinct (map fst (cache (snd (resolve between b ps))))"
  by (simp add: resolve_def Let_def distinct_update split: sum.split option.split)

lemma map_of_dropped:
  "map_of (map (\<lambda>(k, v). (k, if k = names then None else v)) c) k = Some (Some m) \<Longrightarrow> map_of c k = Some (Some m)"
  by (induction c) (auto split: if_splits)

lemma map_of_pruned:
  assumes "distinct (map fst c)" and "map_of (filter (\<lambda>(k, v). v \<noteq> None) c) k = Some (Some m)"
  shows "map_of c k = Some (Some m)"
proof -
  have "(k, Some m) \<in> set c" using map_of_SomeD [OF assms(2)] by simp
  then show ?thesis using assms(1) by simp
qed

lemma book_run_same:
  "book_run raw digest b \<Longrightarrow>
     ab_raw b = raw \<and> name_index b = name_index (from_raw raw digest) \<and> checksum b = digest \<and>
     distinct (map fst (cache b)) \<and> cache_ok b (cache b)"
proof (induction rule: book_run.induct)
  case opened
  then show ?case by (simp add: from_raw_def cache_ok_def)
next
  case (resolved b b' between ps)
  then have "cache_ok b (between (cache b))" using cache_ok_cong [of b b'] by simp
  then have "cache_ok b (cache (snd (resolve between b ps)))" using resolved.IH(1) by (intro resolve_transparent) auto
  then show ?case
    using resolved cache_ok_cong [of "snd (resolve between b ps)" b] by (simp add: resolve_keeps_book resolve_distinct)
next
  case (selector_dropped b names)
  let ?b = "b\<lparr>cache := map (\<lambda>(k, v). (k, if k = names then None else v)) (cache b)\<rparr>"
  have "cache_ok b (cache ?b)" using selector_dropped.IH map_of_dropped unfolding cache_ok_def by fastforce
  moreover have "map fst (cache ?b) = map fst (cache b)" by (simp add: comp_def case_prod_beta)
  ultimately show ?case using selector_dropped.IH cache_ok_cong [of ?b b] by (simp del: map_map)
next
  case (pruned b)
  have "cache_ok b (cache (prune_selector_cache b))"
    using pruned.IH map_of_pruned unfolding cache_ok_def prune_selector_cache_def by fastforce
  then show ?case
    using pruned.IH cache_ok_cong [of "prune_selector_cache b" b] by (simp add: prune_selector_cache_def distinct_map_filter)
qed

lemma book_run_wf: "book_run raw digest b \<Longrightarrow> validate raw = None \<Longrightarrow> book_wf b"
  using book_run_same [of raw digest b] validate_ok [of raw] by (auto simp: book_wf_def)

lemma book_run_resolve:
  assumes "book_run raw digest b" and "book_run raw digest b'" and "between (cache b) = cache b'"
  shows "fst (resolve between b ps) = resolve_fresh b ps"
proof (rule resolve_transparent)
  show "cache_ok b (between (cache b))"
    using book_run_same [OF assms(1)] book_run_same [OF assms(2)] assms(3) cache_ok_cong [of b b'] by simp
qed (use book_run_same [OF assms(1)] in simp)

section \<open>A small book for concrete evaluation\<close>

definition demo_raw :: raw_book where
  "demo_raw =
     \<lparr>build_epoch = 42,
      categories = [\<lparr>c_name = ''google'', c_parent = - 1\<rparr>, \<lparr>c_name = ''google/ads'', c_parent = 0\<rparr>],
      catset_words = 1, catsets = [1, 2],
      ip4 = [(0x01000000, 0x010000FF, 0), (0x02000000, 0x02000000, 1)], ip6 = [(1, 2, 0)],
      domain_exact = [\<lparr>se_text = ''one.google.com'', se_catset = 0\<rparr>],
      domain_suffix = [\<lparr>se_text = ''com.google'', se_catset = 0\<rparr>],
      rb_keywords = [\<lparr>se_text = ''googlevideo'', se_catset = 1\<rparr>]\<rparr>"

definition demo_book :: addr_book where
  "demo_book = from_raw demo_raw []"

lemma demo_raw_valid: "validate demo_raw = None"
  by code_simp

lemma demo_book_wf: "book_wf demo_book"
  using validate_ok [OF demo_raw_valid] by (simp add: book_wf_def demo_book_def from_raw_def)

lemma demo_book_cache: "cache_ok demo_book (cache demo_book)"
  by (simp add: cache_ok_def demo_book_def from_raw_def)

section \<open>Properties\<close>

text \<open>
  C11: matching a host against the book by binary search gives the same answer as inspecting every
  entry: some range that contains the address, or some exact, suffix or keyword entry that
  applies to the name, belongs to a selected category set.
\<close>

theorem book_matches_reference:
  assumes "validate (ab_raw b) = None"
  shows "book_matches b host sel \<longleftrightarrow> (\<exists>c \<in> book_hits (ab_raw b) host. catset_intersects (ab_raw b) c sel)"
  by (rule book_matches_hits) (rule validate_ok [OF assms])

theorem book_matches_reference_witness:
  "validate (ab_raw demo_book) = None \<and> book_matches demo_book ''WWW.google.com.'' \<lparr>sel_mask = [1]\<rparr> \<and>
   (\<exists>c \<in> book_hits (ab_raw demo_book) ''WWW.google.com.''. catset_intersects (ab_raw demo_book) c \<lparr>sel_mask = [1]\<rparr>)"
proof -
  have "book_matches demo_book ''WWW.google.com.'' \<lparr>sel_mask = [1]\<rparr>" by code_simp
  moreover have "validate (ab_raw demo_book) = None"
    using demo_raw_valid by (simp add: demo_book_def from_raw_def)
  ultimately show ?thesis
    using book_matches_reference [of demo_book "''WWW.google.com.''" "\<lparr>sel_mask = [1]\<rparr>"] by simp
qed

lemma normalized_names_spec:
  "case normalized_names ps of
     Inl e \<Rightarrow> [] \<in> normalize_category ` set ps
   | Inr names \<Rightarrow> [] \<notin> normalize_category ` set ps \<and> set names = normalize_category ` set ps"
  by (simp add: normalized_names_def Let_def)

lemma resolve_fresh_spec:
  assumes "book_wf b"
  shows "case resolve_fresh b ps of
     Inl e \<Rightarrow> (\<exists>p \<in> set ps. normalize_category p = [] \<or> \<not> known b (normalize_category p))
   | Inr sel \<Rightarrow> (\<forall>p \<in> set ps. normalize_category p \<noteq> [] \<and> known b (normalize_category p)) \<and>
       (\<forall>i. mask_mem (sel_mask sel) i \<longleftrightarrow>
          i < n_cats b \<and> (\<exists>p \<in> set ps. covers (normalize_category p) (cat_name b i)))"
proof (cases "normalized_names ps")
  case (Inl e)
  with normalized_names_spec [of ps] obtain p where "p \<in> set ps" "normalize_category p = []" by auto
  with Inl show ?thesis by (auto simp: resolve_fresh_def)
next
  case (Inr names)
  note names = normalized_names_spec [of ps, unfolded Inr sum.case]
  show ?thesis
  proof (cases "names = []")
    case True
    with names Inr show ?thesis by (simp add: resolve_fresh_def mask_mem_def)
  next
    case False
    with select_all_spec [OF assms, of names] names Inr show ?thesis
      by (cases "select_all b names")
        (force simp: resolve_fresh_def selects_def list_all_iff list_ex_iff)+
  qed
qed

text \<open>
  C20: resolving category patterns on a book in use, after any history of resolutions, dropped
  selectors and pruning, and whatever such operations of other threads do to the cache in the
  meantime, selects exactly the categories that some pattern names or that lie below a named one;
  it fails exactly when a pattern is empty or covers no category.
\<close>

theorem resolve_selects_covered:
  assumes "validate raw = None" and "book_run raw digest b" and "book_run raw digest b'" and "between (cache b) = cache b'"
  shows "case fst (resolve between b ps) of
       Inl e \<Rightarrow> (\<exists>p \<in> set ps. normalize_category p = [] \<or> \<not> known b (normalize_category p))
     | Inr sel \<Rightarrow> (\<forall>p \<in> set ps. normalize_category p \<noteq> [] \<and> known b (normalize_category p)) \<and>
         (\<forall>i. mask_mem (sel_mask sel) i \<longleftrightarrow>
            i < n_cats b \<and> (\<exists>p \<in> set ps. covers (normalize_category p) (cat_name b i)))"
  using book_run_resolve [where between = between, OF assms(2-4)] resolve_fresh_spec [OF book_run_wf [OF assms(2,1)], of ps] by simp

text \<open>The example book after a resolution, the end of its selector and a pruning.\<close>

definition demo_used :: addr_book where
  "demo_used = prune_selector_cache (snd (resolve id demo_book [''google/ads'']))"

lemma demo_used_run: "book_run demo_raw [] demo_used"
  unfolding demo_used_def demo_book_def
  by (rule book_run.pruned, rule book_run.resolved [OF book_run.opened book_run.opened]) simp

theorem resolve_selects_covered_witness:
  "fst (resolve id demo_used [''Google/'']) = Inr \<lparr>sel_mask = [3]\<rparr> \<and>
   mask_mem [3] 1 \<and> covers (normalize_category ''Google/'') (cat_name demo_used 1)"
proof -
  have run: "fst (resolve id demo_used [''Google/'']) = Inr \<lparr>sel_mask = [3]\<rparr>" by code_simp
  moreover have "mask_mem [3] 1" by code_simp
  ultimately show ?thesis
    using resolve_selects_covered [OF demo_raw_valid demo_used_run demo_used_run, of id "[''Google/'']"] by simp
qed

lemma resolved_matches:
  assumes "book_wf b" and "resolve_fresh b ps = Inr sel"
  shows "book_matches b host sel \<longleftrightarrow>
    (\<exists>c \<in> book_hits (ab_raw b) host. \<exists>i < n_cats b. mask_mem (catset_of (ab_raw b) c) i \<and>
       (\<exists>p \<in> set ps. covers (normalize_category p) (cat_name b i)))"
proof -
  let ?raw = "ab_raw b" and ?H = "book_hits (ab_raw b) host"
  have ok: "book_ok ?raw" using assms(1) by (simp add: book_wf_def)
  have sel: "mask_mem (sel_mask sel) i \<longleftrightarrow> i < n_cats b \<and> (\<exists>p \<in> set ps. covers (normalize_category p) (cat_name b i))" for i
    using resolve_fresh_spec [OF assms(1), of ps] assms(2) by simp
  have words: "unat (catset_words ?raw) \<noteq> 0" if "c \<in> ?H" for c
    using hits_valid [OF ok that] by (simp add: set_count_def split: if_splits)
  have "book_matches b host sel \<longleftrightarrow> (\<exists>c \<in> ?H. catset_intersects ?raw c sel)"
    by (rule book_matches_hits) (rule ok)
  also have "\<dots> \<longleftrightarrow> (\<exists>c \<in> ?H. \<exists>i. mask_mem (catset_of ?raw c) i \<and> mask_mem (sel_mask sel) i)"
    using words by (auto simp: catset_intersects_def masks_meet)
  also have "\<dots> \<longleftrightarrow> (\<exists>c \<in> ?H. \<exists>i < n_cats b. mask_mem (catset_of ?raw c) i \<and>
       (\<exists>p \<in> set ps. covers (normalize_category p) (cat_name b i)))"
    unfolding sel by blast
  finally show ?thesis .
qed

lemma resolved_listed:
  assumes "book_wf b" and "cache_ok b (cache b)" and "cache_ok b (between (cache b))" and "fst (resolve between b ps) = Inr sel"
  shows "book_matches b host sel \<longleftrightarrow>
    list_ex (\<lambda>c. list_ex (\<lambda>p. covers (normalize_category p) c) ps) (lookup_categories b host)"
proof -
  have "resolve_fresh b ps = Inr sel"
    using resolve_transparent(1) [where between = between and ps = ps, OF assms(2,3)] assms(4) by simp
  then have "book_matches b host sel \<longleftrightarrow> (\<exists>c \<in> book_hits (ab_raw b) host. \<exists>i < n_cats b. mask_mem (catset_of (ab_raw b) c) i \<and>
       (\<exists>p \<in> set ps. covers (normalize_category p) (cat_name b i)))"
    by (rule resolved_matches [OF assms(1)])
  also have "\<dots> \<longleftrightarrow> (\<exists>x \<in> set (lookup_categories b host). \<exists>p \<in> set ps. covers (normalize_category p) x)"
    unfolding Bex_def lookup_categories_mem [OF assms(1)] by blast
  finally show ?thesis by (simp add: list_ex_iff)
qed

text \<open>
  C21: what a \<open>book:\<close> rule means. On a book in use, a host matches a selector resolved from patterns
  exactly when some entry of the book applies to the host, a range that contains the address or
  an exact, suffix or keyword entry for the name, and the entry's category set has a category
  that a pattern names or that lies below a named one.
\<close>

theorem book_rule_meaning:
  assumes "validate raw = None" and "book_run raw digest b" and "book_run raw digest b'" and "between (cache b) = cache b'"
    and "fst (resolve between b ps) = Inr sel"
  shows "book_matches b host sel \<longleftrightarrow>
    (\<exists>c \<in> book_hits raw host. \<exists>i < length (categories raw). mask_mem (catset_of raw c) i \<and>
       (\<exists>p \<in> set ps. covers (normalize_category p) (c_name (categories raw ! i))))"
  using resolved_matches [OF book_run_wf [OF assms(2,1)], of ps sel host] assms(5)
    book_run_resolve [where between = between, OF assms(2-4)] book_run_same [OF assms(2)] by simp

theorem book_rule_meaning_witness:
  "book_matches demo_used ''cdn.googlevideo.net'' \<lparr>sel_mask = [3]\<rparr> \<and>
   (\<exists>c \<in> book_hits demo_raw ''cdn.googlevideo.net''. \<exists>i < length (categories demo_raw). mask_mem (catset_of demo_raw c) i \<and>
      (\<exists>p \<in> set [''google'']. covers (normalize_category p) (c_name (categories demo_raw ! i))))"
proof -
  have run: "fst (resolve id demo_used [''google'']) = Inr \<lparr>sel_mask = [3]\<rparr>" by code_simp
  have "book_matches demo_used ''cdn.googlevideo.net'' \<lparr>sel_mask = [3]\<rparr>" by code_simp
  then show ?thesis
    using book_rule_meaning [OF demo_raw_valid demo_used_run demo_used_run _ run, of "''cdn.googlevideo.net''"] by simp
qed

end
