(* ===== verification/Policy_Domain.thy ===== *)
theory Policy_Domain
  imports Rust_Slice "HOL-Library.AList"
begin

text \<open>
  The domain matcher of routing rules (\<open>src/policy/domain.rs\<close>): exact names, a trie of reversed
  labels for suffix rules, and keywords. A hash map that is iterated is an association list, in
  the order of insertion; no property depends on that order.
\<close>

section \<open>Label tries\<close>

text \<open>
  \<open>LabelNode\<close> and the route index's \<open>IndexedNode\<close> are the same tree with a different value per
  node: a flag, or the best route number. \<open>d\<close> is the value of a node created on the way.
\<close>

datatype 'v trie = Node (node_val: 'v) (node_children: "(string \<times> 'v trie) list")

type_synonym label_node = "bool trie"

fun trie_update :: "'v \<Rightarrow> ('v \<Rightarrow> 'v) \<Rightarrow> string list \<Rightarrow> 'v trie \<Rightarrow> 'v trie" where
  "trie_update d f [] (Node v cs) = Node (f v) cs"
| "trie_update d f (l # ls) (Node v cs) =
     Node v (AList.update l
       (trie_update d f ls (case map_of cs l of Some c \<Rightarrow> c | None \<Rightarrow> Node d [])) cs)"

text \<open>The values of the nodes met below the root when following labels.\<close>

fun path_values :: "string list \<Rightarrow> 'v trie \<Rightarrow> 'v list" where
  "path_values [] t = []"
| "path_values (l # ls) t =
     (case map_of (node_children t) l of
        None \<Rightarrow> []
      | Some c \<Rightarrow> node_val c # path_values ls c)"

text \<open>The value stored at a path, the default where there is no node.\<close>

fun trie_at :: "'v \<Rightarrow> string list \<Rightarrow> 'v trie \<Rightarrow> 'v" where
  "trie_at d [] t = node_val t"
| "trie_at d (l # ls) t =
     (case map_of (node_children t) l of None \<Rightarrow> d | Some c \<Rightarrow> trie_at d ls c)"

fun walk :: "string list \<Rightarrow> label_node \<Rightarrow> string list"
and walk_children :: "string list \<Rightarrow> (string \<times> label_node) list \<Rightarrow> string list" where
  "walk labels (Node terminal cs) =
     (if terminal \<and> labels \<noteq> [] then [join ''.'' (rev labels)] else []) @ walk_children labels cs"
| "walk_children labels [] = []"
| "walk_children labels ((l, c) # cs) = walk (labels @ [l]) c @ walk_children labels cs"

section \<open>Matchers\<close>

definition normalize :: "string \<Rightarrow> string" where
  "normalize s = to_ascii_lowercase (trim_matches (CHR ''.'') (trim s))"

definition labels_rev :: "string \<Rightarrow> string list" where
  "labels_rev s = rev (split_on (CHR ''.'') s)"

record sub_domain_matcher =
  sd_root :: label_node
  sd_len :: nat

record domain_matcher =
  dm_full :: "string list"
  dm_domain :: sub_domain_matcher
  dm_keyword :: "string list"

definition sub_domain_empty :: sub_domain_matcher where
  "sub_domain_empty = \<lparr>sd_root = Node False [], sd_len = 0\<rparr>"

definition sub_domain_add :: "string \<Rightarrow> sub_domain_matcher \<Rightarrow> sub_domain_matcher" where
  "sub_domain_add s0 m =
     (let n = normalize s0;
          s = (case strip_prefix n ''*.'' of Some r \<Rightarrow> r | None \<Rightarrow> n)
      in if s = [] then m
         else \<lparr>sd_root = trie_update False (\<lambda>_. True) (labels_rev s) (sd_root m),
               sd_len = (if trie_at False (labels_rev s) (sd_root m) then sd_len m else sd_len m + 1)\<rparr>)"

definition sub_domain_matches :: "sub_domain_matcher \<Rightarrow> string \<Rightarrow> bool" where
  "sub_domain_matches m s \<longleftrightarrow>
     (if s = [] then False else True \<in> set (path_values (labels_rev s) (sd_root m)))"

definition sub_domain_suffixes :: "sub_domain_matcher \<Rightarrow> string list" where
  "sub_domain_suffixes m = walk [] (sd_root m)"

definition domain_matcher_new :: domain_matcher where
  "domain_matcher_new = \<lparr>dm_full = [], dm_domain = sub_domain_empty, dm_keyword = []\<rparr>"

definition domain_add :: "string \<Rightarrow> domain_matcher \<Rightarrow> domain_matcher" where
  "domain_add rule m =
     (let (typ, pattern) = (case split_once (CHR '':'') rule of Some tp \<Rightarrow> tp | None \<Rightarrow> (''domain'', rule))
      in if typ = ''full'' then m\<lparr>dm_full := List.insert (normalize pattern) (dm_full m)\<rparr>
         else if typ = ''keyword'' then
           (let k = normalize pattern in if k \<noteq> [] then m\<lparr>dm_keyword := dm_keyword m @ [k]\<rparr> else m)
         else m\<lparr>dm_domain := sub_domain_add pattern (dm_domain m)\<rparr>)"

definition domain_matches_normalized :: "domain_matcher \<Rightarrow> string \<Rightarrow> bool" where
  "domain_matches_normalized m n \<longleftrightarrow>
     (if n = [] then False
      else n \<in> set (dm_full m) \<or> sub_domain_matches (dm_domain m) n \<or>
           list_ex (\<lambda>k. contains_str n k) (dm_keyword m))"

definition domain_matches :: "domain_matcher \<Rightarrow> string \<Rightarrow> bool" where
  "domain_matches m host = domain_matches_normalized m (normalize host)"

definition domain_is_empty :: "domain_matcher \<Rightarrow> bool" where
  "domain_is_empty m \<longleftrightarrow> dm_full m = [] \<and> sd_len (dm_domain m) = 0 \<and> dm_keyword m = []"

section \<open>Tries\<close>

lemma trie_at_new [simp]: "trie_at d p (Node d []) = d"
  by (cases p) auto

lemma trie_at_update:
  "trie_at d p (trie_update d f q t) = (if p = q then f (trie_at d q t) else trie_at d p t)"
proof (induction q arbitrary: p t)
  case Nil
  then show ?case by (cases t; cases p) auto
next
  case (Cons l ls)
  obtain v cs where t: "t = Node v cs" by (cases t)
  show ?case
  proof (cases p)
    case (Cons k ks)
    show ?thesis
      using Cons.IH [of ks] by (auto simp: t Cons update_conv' split: option.splits)
  qed (simp add: t)
qed

lemma path_values_at:
  assumes "\<not> P d"
  shows "(\<exists>v \<in> set (path_values ls t). P v) \<longleftrightarrow> (\<exists>ks. ks \<noteq> [] \<and> prefix ks ls \<and> P (trie_at d ks t))"
proof (induction ls arbitrary: t)
  case (Cons l ls)
  have split: "(\<exists>ks. ks \<noteq> [] \<and> prefix ks (l # ls) \<and> Q ks) \<longleftrightarrow> (\<exists>ks. prefix ks ls \<and> Q (l # ks))" for Q
    by (auto simp: prefix_Cons)
  show ?case
  proof (cases "map_of (node_children t) l")
    case None
    with assms show ?thesis by (simp add: split)
  next
    case (Some c)
    have "(\<exists>ks. prefix ks ls \<and> P (trie_at d ks c)) \<longleftrightarrow>
        P (node_val c) \<or> (\<exists>ks. ks \<noteq> [] \<and> prefix ks ls \<and> P (trie_at d ks c))"
      by (metis Nil_prefix trie_at.simps(1))
    with Some Cons.IH [of c] show ?thesis by (simp add: split)
  qed
qed auto

fun trie_wf :: "'v trie \<Rightarrow> bool"
and children_wf :: "(string \<times> 'v trie) list \<Rightarrow> bool" where
  "trie_wf (Node v cs) \<longleftrightarrow> distinct (map fst cs) \<and> children_wf cs"
| "children_wf [] \<longleftrightarrow> True"
| "children_wf ((l, c) # cs) \<longleftrightarrow> trie_wf c \<and> children_wf cs"

lemma children_wf_iff: "children_wf cs \<longleftrightarrow> (\<forall>(l, c) \<in> set cs. trie_wf c)"
  by (induction cs) auto

lemma set_update_subset: "set (AList.update k v al) \<subseteq> insert (k, v) (set al)"
  by (induction al) auto

lemma trie_wf_update: "trie_wf t \<Longrightarrow> trie_wf (trie_update d f p t)"
proof (induction p arbitrary: t)
  case Nil
  then show ?case by (cases t) auto
next
  case (Cons l ls)
  obtain v cs where t: "t = Node v cs" by (cases t)
  have "trie_wf (case map_of cs l of Some c \<Rightarrow> c | None \<Rightarrow> Node d [])"
    using Cons.prems by (auto simp: t children_wf_iff split: option.splits dest: map_of_SomeD)
  from Cons.IH [OF this] Cons.prems show ?case
    using set_update_subset by (fastforce simp: t children_wf_iff distinct_update)
qed

lemma collect_disj:
  "{F l' p | l' p c'. (l' = l \<and> c' = c \<or> M l' c') \<and> A p c'} =
     {F l p | p. A p c} \<union> {F l' p | l' p c'. M l' c' \<and> A p c'}"
  by blast

lemma walk_paths:
  fixes t :: label_node and cs :: "(string \<times> label_node) list"
  shows "trie_wf t \<Longrightarrow> set (walk pre t) = {join ''.'' (rev (pre @ p)) | p. pre @ p \<noteq> [] \<and> trie_at False p t}"
    and "distinct (map fst cs) \<Longrightarrow> children_wf cs \<Longrightarrow> set (walk_children pre cs) =
      {join ''.'' (rev (pre @ l # p)) | l p c. map_of cs l = Some c \<and> trie_at False p c}"
proof (induction pre t and pre cs rule: walk_walk_children.induct)
  case (1 labels terminal cs)
  have "{join ''.'' (rev (labels @ p)) | p. labels @ p \<noteq> [] \<and> trie_at False p (Node terminal cs)} =
      (if terminal \<and> labels \<noteq> [] then {join ''.'' (rev labels)} else {}) \<union>
      {join ''.'' (rev (labels @ l # p)) | l p c. map_of cs l = Some c \<and> trie_at False p c}" (is "?L = ?R")
  proof (intro set_eqI iffI)
    fix x
    assume "x \<in> ?L"
    then obtain p where p: "x = join ''.'' (rev (labels @ p))" "labels @ p \<noteq> []" "trie_at False p (Node terminal cs)"
      by blast
    then show "x \<in> ?R" by (cases p) (auto split: option.splits)
  next
    fix x
    assume "x \<in> ?R"
    then consider "terminal" "labels \<noteq> []" "x = join ''.'' (rev labels)"
      | l p c where "map_of cs l = Some c" "trie_at False p c" "x = join ''.'' (rev (labels @ l # p))"
      by (auto split: if_splits)
    then show "x \<in> ?L"
    proof cases
      case 1
      then show ?thesis by (intro CollectI exI [of _ "[]"]) simp
    next
      case (2 l p c)
      then show ?thesis by (intro CollectI exI [of _ "l # p"]) simp
    qed
  qed
  moreover have "set (walk_children labels cs) =
      {join ''.'' (rev (labels @ l # p)) | l p c. map_of cs l = Some c \<and> trie_at False p c}"
    using 1 by simp
  moreover have "set (walk labels (Node terminal cs)) =
      (if terminal \<and> labels \<noteq> [] then {join ''.'' (rev labels)} else {}) \<union> set (walk_children labels cs)"
    by auto
  ultimately show ?case by (simp only:)
next
  case (3 labels l c cs)
  have "set (walk (labels @ [l]) c) = {join ''.'' (rev (labels @ l # p)) | p. trie_at False p c}"
    using 3 by simp
  moreover have "set (walk_children labels cs) =
      {join ''.'' (rev (labels @ l # p)) | l p c. map_of cs l = Some c \<and> trie_at False p c}"
    using 3 by simp
  moreover have key: "map_of ((l, c) # cs) l' = Some c' \<longleftrightarrow> l' = l \<and> c' = c \<or> map_of cs l' = Some c'" for l' c'
  proof -
    have "map_of cs l = None" using 3(3) by (simp add: map_of_eq_None_iff)
    then show ?thesis by (cases "l' = l") (auto simp del: map_of_eq_None_iff)
  qed
  ultimately show ?case
    unfolding walk_children.simps set_append key collect_disj by (simp only:)
qed simp

section \<open>What a domain rule means\<close>

definition rule_parts :: "string \<Rightarrow> string \<times> string" where
  "rule_parts rule = (case split_once (CHR '':'') rule of Some tp \<Rightarrow> tp | None \<Rightarrow> (''domain'', rule))"

definition suffix_pattern :: "string \<Rightarrow> string" where
  "suffix_pattern s0 =
     (let n = normalize s0 in case strip_prefix n ''*.'' of Some r \<Rightarrow> r | None \<Rightarrow> n)"

text \<open>A name falls under a suffix when it is the suffix or ends in a dot and the suffix.\<close>

definition under_suffix :: "string \<Rightarrow> string \<Rightarrow> bool" where
  "under_suffix s n \<longleftrightarrow> n = s \<or> suffix (CHR ''.'' # s) n"

definition domain_rule_hits :: "string \<Rightarrow> string \<Rightarrow> bool" where
  "domain_rule_hits rule n =
     (let (typ, pattern) = rule_parts rule
      in if typ = ''full'' then n = normalize pattern
         else if typ = ''keyword'' then normalize pattern \<noteq> [] \<and> sublist (normalize pattern) n
         else suffix_pattern pattern \<noteq> [] \<and> under_suffix (suffix_pattern pattern) n)"

lemma split_on_append_sep: "split_on c (a @ c # b) = split_on c a @ split_on c b"
  by (induction a) (auto split: list.splits)

lemma join_append_sep:
  "xs \<noteq> [] \<Longrightarrow> ys \<noteq> [] \<Longrightarrow> join sep (xs @ ys) = join sep xs @ sep @ join sep ys"
proof (induction sep xs rule: join.induct)
  case (2 sep x)
  then show ?case by (cases ys) auto
qed auto

lemma labels_under_suffix: "prefix (labels_rev s) (labels_rev n) \<longleftrightarrow> under_suffix s n"
proof -
  have "prefix (labels_rev s) (labels_rev n) \<longleftrightarrow> suffix (split_on (CHR ''.'') s) (split_on (CHR ''.'') n)"
    by (simp add: labels_rev_def suffix_to_prefix)
  also have "\<dots> \<longleftrightarrow> under_suffix s n"
  proof
    assume "suffix (split_on (CHR ''.'') s) (split_on (CHR ''.'') n)"
    then obtain xs where xs: "split_on (CHR ''.'') n = xs @ split_on (CHR ''.'') s" by (auto simp: suffix_def)
    have n: "n = join ''.'' (xs @ split_on (CHR ''.'') s)"
      using join_split_on [of "CHR ''.''" n] by (simp only: xs)
    show "under_suffix s n"
    proof (cases "xs = []")
      case True
      with n show ?thesis by (simp add: under_suffix_def)
    next
      case False
      then have "n = join ''.'' xs @ ''.'' @ s" using n by (simp add: join_append_sep)
      then show ?thesis by (auto simp: under_suffix_def suffix_def)
    qed
  next
    assume "under_suffix s n"
    then show "suffix (split_on (CHR ''.'') s) (split_on (CHR ''.'') n)"
      by (auto simp: under_suffix_def suffix_def split_on_append_sep)
  qed
  finally show ?thesis .
qed

lemma labels_rev_ne [simp]: "labels_rev s \<noteq> []"
  by (simp add: labels_rev_def)

lemma join_labels_rev [simp]: "join ''.'' (rev (labels_rev s)) = s"
  by (simp add: labels_rev_def)

lemma labels_rev_inj: "labels_rev s = labels_rev t \<longleftrightarrow> s = t"
  by (metis join_labels_rev)

lemma sub_domain_add_root:
  "sd_root (sub_domain_add s0 m) =
     (if suffix_pattern s0 = [] then sd_root m
      else trie_update False (\<lambda>_. True) (labels_rev (suffix_pattern s0)) (sd_root m))"
  by (simp add: sub_domain_add_def suffix_pattern_def Let_def)

lemma sub_domain_matches_at:
  "sub_domain_matches m n \<longleftrightarrow>
     n \<noteq> [] \<and> (\<exists>ks. ks \<noteq> [] \<and> prefix ks (labels_rev n) \<and> trie_at False ks (sd_root m))"
proof -
  have "True \<in> set vs \<longleftrightarrow> (\<exists>v \<in> set vs. v)" for vs
    by auto
  then show ?thesis
    unfolding sub_domain_matches_def using path_values_at [of "\<lambda>v. v" False "labels_rev n" "sd_root m"] by simp
qed

lemma sub_domain_matches_add:
  "sub_domain_matches (sub_domain_add s0 m) n \<longleftrightarrow>
     sub_domain_matches m n \<or> n \<noteq> [] \<and> suffix_pattern s0 \<noteq> [] \<and> under_suffix (suffix_pattern s0) n"
proof (cases "suffix_pattern s0 = []")
  case True
  then show ?thesis by (simp add: sub_domain_matches_at sub_domain_add_root)
next
  case False
  let ?p = "labels_rev (suffix_pattern s0)"
  have "(\<exists>ks. ks \<noteq> [] \<and> prefix ks L \<and> (if ks = p then True else A ks)) \<longleftrightarrow>
      (\<exists>ks. ks \<noteq> [] \<and> prefix ks L \<and> A ks) \<or> prefix p L" if "p \<noteq> []" for L p :: "string list" and A
    using that by (simp only: if_True if_split) blast
  from this [of ?p "labels_rev n" "\<lambda>ks. trie_at False ks (sd_root m)"] False show ?thesis
    unfolding sub_domain_matches_at sub_domain_add_root labels_under_suffix [symmetric]
    by (simp add: trie_at_update conj_disj_distribL)
qed

lemma domain_matches_add:
  assumes "n \<noteq> []"
  shows "domain_matches_normalized (domain_add rule m) n \<longleftrightarrow>
    domain_matches_normalized m n \<or> domain_rule_hits rule n"
proof -
  obtain ty pat where parts: "rule_parts rule = (ty, pat)" by fastforce
  show ?thesis
    using assms parts sub_domain_matches_add [of pat "dm_domain m" n]
    by (auto simp: domain_matches_normalized_def domain_add_def domain_rule_hits_def rule_parts_def
        contains_str_def Let_def)
qed

lemma domain_matches_rules:
  assumes "n \<noteq> []"
  shows "domain_matches_normalized (fold domain_add rules m) n \<longleftrightarrow>
    domain_matches_normalized m n \<or> list_ex (\<lambda>r. domain_rule_hits r n) rules"
  by (induction rules arbitrary: m) (auto simp: domain_matches_add [OF assms])

lemma domain_matches_new [simp]: "\<not> domain_matches_normalized domain_matcher_new n"
  by (simp add: domain_matches_normalized_def domain_matcher_new_def sub_domain_matches_at sub_domain_empty_def)

text \<open>The invariant the iteration over the trie needs, and what it then yields.\<close>

definition matcher_wf :: "domain_matcher \<Rightarrow> bool" where
  "matcher_wf m \<longleftrightarrow> trie_wf (sd_root (dm_domain m)) \<and> \<not> trie_at False (labels_rev []) (sd_root (dm_domain m)) \<and>
     (\<forall>p. trie_at False p (sd_root (dm_domain m)) \<longrightarrow> (\<exists>s. p = labels_rev s))"

lemma matcher_wf_new: "matcher_wf domain_matcher_new"
  by (simp add: matcher_wf_def domain_matcher_new_def sub_domain_empty_def)

lemma matcher_wf_add: "matcher_wf m \<Longrightarrow> matcher_wf (domain_add rule m)"
  by (auto simp: matcher_wf_def domain_add_def Let_def sub_domain_add_root trie_wf_update trie_at_update
      labels_rev_inj split: option.splits prod.splits if_splits)

lemma suffixes_cover:
  assumes "matcher_wf m" and "n \<noteq> []"
  shows "sub_domain_matches (dm_domain m) n \<longleftrightarrow>
    list_ex (\<lambda>s. s \<noteq> [] \<and> under_suffix s n) (sub_domain_suffixes (dm_domain m))"
proof -
  let ?t = "sd_root (dm_domain m)"
  have only: "\<exists>s. p = labels_rev s" if "trie_at False p ?t" for p
    using that assms(1) by (simp add: matcher_wf_def)
  have empty: "\<not> trie_at False (labels_rev []) ?t"
    using assms(1) by (simp add: matcher_wf_def)
  have "set (sub_domain_suffixes (dm_domain m)) = {join ''.'' (rev p) | p. p \<noteq> [] \<and> trie_at False p ?t}"
    using walk_paths(1) [of ?t "[]"] assms(1) by (simp add: sub_domain_suffixes_def matcher_wf_def)
  also have "\<dots> = {s. trie_at False (labels_rev s) ?t}"
  proof (intro set_eqI iffI)
    fix x
    assume "x \<in> {join ''.'' (rev p) | p. p \<noteq> [] \<and> trie_at False p ?t}"
    then obtain p where p: "x = join ''.'' (rev p)" "trie_at False p ?t" by blast
    with only [OF p(2)] show "x \<in> {s. trie_at False (labels_rev s) ?t}" by (elim exE) simp
  next
    fix x
    assume "x \<in> {s. trie_at False (labels_rev s) ?t}"
    then show "x \<in> {join ''.'' (rev p) | p. p \<noteq> [] \<and> trie_at False p ?t}"
      by (intro CollectI exI [of _ "labels_rev x"]) simp
  qed
  finally have paths: "s \<in> set (sub_domain_suffixes (dm_domain m)) \<longleftrightarrow> trie_at False (labels_rev s) ?t" for s
    by simp
  have step: "prefix (labels_rev s) (labels_rev n) \<and> trie_at False (labels_rev s) ?t \<longleftrightarrow>
      trie_at False (labels_rev s) ?t \<and> s \<noteq> [] \<and> under_suffix s n" for s
    using empty by (cases "s = []") (simp_all only: labels_under_suffix, simp_all add: conj_commute)
  have "(\<exists>ks. ks \<noteq> [] \<and> prefix ks (labels_rev n) \<and> trie_at False ks ?t) \<longleftrightarrow>
      (\<exists>s. prefix (labels_rev s) (labels_rev n) \<and> trie_at False (labels_rev s) ?t)" (is "?A \<longleftrightarrow> ?B")
  proof
    assume ?A
    then obtain ks where ks: "prefix ks (labels_rev n)" "trie_at False ks ?t" by blast
    with only [OF ks(2)] show ?B by (elim exE) auto
  next
    assume ?B
    then show ?A using labels_rev_ne by blast
  qed
  also have "\<dots> \<longleftrightarrow> (\<exists>s. trie_at False (labels_rev s) ?t \<and> s \<noteq> [] \<and> under_suffix s n)"
    by (simp only: step)
  finally show ?thesis
    unfolding sub_domain_matches_at list_ex_iff Bex_def paths using assms(2) by simp
qed

end
