(* ===== verification/Policy_Ip.thy ===== *)
theory Policy_Ip
  imports Rust_Net
begin

text \<open>
  The address matcher of routing rules (\<open>src/policy/ip.rs\<close>): a set of single addresses and a list
  of networks. The \<open>ipnet\<close> package is a parameter: the operations the matcher calls on its network
  type, and the documented behaviour the matcher relies on as \<open>ipnet_ok\<close>.
\<close>

record 'n ip_net =
  inet_parse :: "string \<Rightarrow> 'n option"
  inet_contains :: "'n \<Rightarrow> ip_addr \<Rightarrow> bool"
  inet_addr :: "'n \<Rightarrow> ip_addr"
  inet_is_v4 :: "'n \<Rightarrow> bool"
  inet_prefix_len :: "'n \<Rightarrow> nat"

record 'n ip_matcher =
  exact :: "ip_addr list"
  cidrs :: "'n list"

definition ip_matcher_new :: "'n ip_matcher" where
  "ip_matcher_new = \<lparr>exact = [], cidrs = []\<rparr>"

definition is_host_route :: "'n ip_net \<Rightarrow> 'n \<Rightarrow> bool" where
  "is_host_route N net =
     (if inet_is_v4 N net then inet_prefix_len N net = 32 else inet_prefix_len N net = 128)"

definition insert_net :: "'n ip_net \<Rightarrow> 'n \<Rightarrow> 'n ip_matcher \<Rightarrow> 'n ip_matcher" where
  "insert_net N net m =
     (if is_host_route N net then m\<lparr>exact := List.insert (inet_addr N net) (exact m)\<rparr>
      else m\<lparr>cidrs := cidrs m @ [net]\<rparr>)"

definition ip_add :: "'n ip_net \<Rightarrow> string \<Rightarrow> 'n ip_matcher \<Rightarrow> bool \<times> 'n ip_matcher" where
  "ip_add N entry m =
     (let s = trim entry
      in case inet_parse N s of
           Some net \<Rightarrow> (True, insert_net N net m)
         | None \<Rightarrow> (case parse_ip_addr s of
             Some addr \<Rightarrow> (True, m\<lparr>exact := List.insert addr (exact m)\<rparr>)
           | None \<Rightarrow> (False, m)))"

definition ip_matches :: "'n ip_net \<Rightarrow> 'n ip_matcher \<Rightarrow> ip_addr \<Rightarrow> bool" where
  "ip_matches N m addr \<longleftrightarrow> addr \<in> set (exact m) \<or> list_ex (\<lambda>n. inet_contains N n addr) (cidrs m)"

definition ip_is_empty :: "'n ip_matcher \<Rightarrow> bool" where
  "ip_is_empty m \<longleftrightarrow> exact m = [] \<and> cidrs m = []"

section \<open>What an address rule means\<close>

text \<open>A network of full prefix length contains its own address and nothing else.\<close>

definition ipnet_ok :: "'n ip_net \<Rightarrow> bool" where
  "ipnet_ok N \<longleftrightarrow>
     (\<forall>net a. is_host_route N net \<longrightarrow> (inet_contains N net a \<longleftrightarrow> a = inet_addr N net))"

text \<open>The reading of an entry: a network, else a single address, else no address rule at all.\<close>

definition ip_rule_hits :: "'n ip_net \<Rightarrow> string \<Rightarrow> ip_addr \<Rightarrow> bool" where
  "ip_rule_hits N entry a =
     (case inet_parse N (trim entry) of
        Some net \<Rightarrow> inet_contains N net a
      | None \<Rightarrow> parse_ip_addr (trim entry) = Some a)"

definition is_ip_rule :: "'n ip_net \<Rightarrow> string \<Rightarrow> bool" where
  "is_ip_rule N entry \<longleftrightarrow> inet_parse N (trim entry) \<noteq> None \<or> parse_ip_addr (trim entry) \<noteq> None"

lemma ip_matches_new [simp]: "\<not> ip_matches N ip_matcher_new a"
  by (simp add: ip_matches_def ip_matcher_new_def)

lemma ip_add_kind: "fst (ip_add N entry m) \<longleftrightarrow> is_ip_rule N entry"
  by (simp add: ip_add_def is_ip_rule_def Let_def split: option.split)

lemma ip_matches_insert_net:
  assumes "ipnet_ok N"
  shows "ip_matches N (insert_net N net m) a \<longleftrightarrow> ip_matches N m a \<or> inet_contains N net a"
  using assms by (auto simp: ip_matches_def insert_net_def ipnet_ok_def)

lemma ip_matches_add:
  assumes "ipnet_ok N"
  shows "ip_matches N (snd (ip_add N entry m)) a \<longleftrightarrow> ip_matches N m a \<or> ip_rule_hits N entry a"
proof (cases "inet_parse N (trim entry)")
  case (Some net)
  then show ?thesis
    by (simp add: ip_add_def ip_rule_hits_def ip_matches_insert_net [OF assms])
next
  case None
  then show ?thesis
    by (cases "parse_ip_addr (trim entry)") (auto simp: ip_add_def ip_rule_hits_def ip_matches_def)
qed

lemma ip_rule_hits_kind: "ip_rule_hits N entry a \<Longrightarrow> is_ip_rule N entry"
  by (auto simp: ip_rule_hits_def is_ip_rule_def split: option.splits)

section \<open>A concrete network type\<close>

text \<open>IPv4 networks written \<open>a.b.c.d/p\<close>, with addresses compared on their first \<open>p\<close> bits.\<close>

definition demo_inet :: "(u32 \<times> nat) ip_net" where
  "demo_inet =
     \<lparr>inet_parse = (\<lambda>s. case split_once (CHR ''/'') s of
          None \<Rightarrow> None
        | Some (a, p) \<Rightarrow> (case (parse_ipv4_addr a, from_str_radix 255 10 p) of
            (Some n, Some len) \<Rightarrow> if len \<le> 32 then Some (n, len) else None
          | _ \<Rightarrow> None)),
      inet_contains = (\<lambda>(n, len) a. case a of V4 x \<Rightarrow> drop_bit (32 - len) x = drop_bit (32 - len) n | V6 _ \<Rightarrow> False),
      inet_addr = (\<lambda>(n, len). V4 n), inet_is_v4 = (\<lambda>_. True), inet_prefix_len = snd\<rparr>"

lemma demo_inet_ok: "ipnet_ok demo_inet"
  by (auto simp: ipnet_ok_def is_host_route_def demo_inet_def split: ip_addr.split)

end
