(* ===== verification/Policy_Index.thy ===== *)
theory Policy_Index
  imports Addrbook_Book Policy_Domain Policy_Ip
begin

text \<open>
  Rule sets and the first-match index over them (\<open>src/policy/mod.rs\<close>). A rule set pairs the
  domain and address matchers with an optional address-book selector; the index answers for a
  whole policy which of its rule sets matches first. Compiling book rules goes through the book's
  selector cache, so \<open>from_rules\<close> returns the book it leaves behind.
\<close>

section \<open>Rule sets\<close>

record book_rules =
  br_book :: addr_book
  br_selector :: selector

record 'n rule_set =
  rs_domains :: domain_matcher
  rs_ips :: "'n ip_matcher"
  rs_book :: "book_rules option"

datatype rule_error = EmptyBookRule | NoAddrbook "string list" | BookError book_error

definition rule_set_new :: "'n rule_set" where
  "rule_set_new = \<lparr>rs_domains = domain_matcher_new, rs_ips = ip_matcher_new, rs_book = None\<rparr>"

fun collect_rules ::
  "'n ip_net \<Rightarrow> string list \<Rightarrow> 'n rule_set \<Rightarrow> string list \<Rightarrow> rule_error + 'n rule_set \<times> string list" where
  "collect_rules N [] rs patterns = Inr (rs, patterns)"
| "collect_rules N (r # rules) rs patterns =
     (let t = trim r
      in if t = [] then collect_rules N rules rs patterns
         else case strip_prefix t ''book:'' of
           Some p \<Rightarrow>
             let pattern = trim p
             in if pattern = [] then Inl EmptyBookRule
                else collect_rules N rules rs (patterns @ [pattern])
         | None \<Rightarrow>
             let (added, ips) = ip_add N t (rs_ips rs)
             in if added then collect_rules N rules (rs\<lparr>rs_ips := ips\<rparr>) patterns
                else collect_rules N rules
                  (rs\<lparr>rs_ips := ips, rs_domains := domain_add t (rs_domains rs)\<rparr>) patterns)"

definition from_rules ::
  "'n ip_net \<Rightarrow> (selector_cache \<Rightarrow> selector_cache) \<Rightarrow> string list \<Rightarrow> addr_book option \<Rightarrow>
   (rule_error + 'n rule_set) \<times> addr_book option" where
  "from_rules N between rules book =
     (case collect_rules N rules rule_set_new [] of
        Inl e \<Rightarrow> (Inl e, book)
      | Inr (rs, patterns) \<Rightarrow>
          if patterns = [] then (Inr rs, book)
          else case book of
            None \<Rightarrow> (Inl (NoAddrbook patterns), None)
          | Some b \<Rightarrow> (case resolve between b patterns of
              (Inl e, b') \<Rightarrow> (Inl (BookError e), Some b')
            | (Inr sel, b') \<Rightarrow>
                (Inr (rs\<lparr>rs_book := Some \<lparr>br_book = b', br_selector = sel\<rparr>\<rparr>), Some b')))"

definition rs_matches :: "'n ip_net \<Rightarrow> 'n rule_set \<Rightarrow> string \<Rightarrow> bool" where
  "rs_matches N rs host =
     (let book_part = (case rs_book rs of
             Some b \<Rightarrow> book_matches (br_book b) host (br_selector b)
           | None \<Rightarrow> False)
      in case parse_ip_addr host of
           Some addr \<Rightarrow> if ip_matches N (rs_ips rs) addr then True else book_part
         | None \<Rightarrow> if domain_matches (rs_domains rs) host then True else book_part)"

definition rs_is_empty :: "'n rule_set \<Rightarrow> bool" where
  "rs_is_empty rs \<longleftrightarrow> domain_is_empty (rs_domains rs) \<and> ip_is_empty (rs_ips rs) \<and> rs_book rs = None"

section \<open>The route index\<close>

type_synonym indexed_suffix = "u32 option trie"

definition indexed_suffix_new :: indexed_suffix where
  "indexed_suffix_new = Node None []"

definition suffix_add :: "string \<Rightarrow> u32 \<Rightarrow> indexed_suffix \<Rightarrow> indexed_suffix" where
  "suffix_add domain idx root =
     (if domain = [] then root
      else trie_update None
        (\<lambda>best. Some (case best of None \<Rightarrow> idx | Some b \<Rightarrow> min b idx)) (labels_rev domain) root)"

definition suffix_best :: "indexed_suffix \<Rightarrow> string \<Rightarrow> u32 option" where
  "suffix_best root domain =
     (if domain = [] then None
      else fold (\<lambda>v best. case v of
          None \<Rightarrow> best
        | Some idx \<Rightarrow> Some (case best of None \<Rightarrow> idx | Some b \<Rightarrow> min b idx))
        (path_values (labels_rev domain) root) None)"

record 'n route_index =
  ri_full :: "string \<rightharpoonup> u32"
  ri_suffix :: indexed_suffix
  ri_keywords :: "(string \<times> u32) list"
  ri_exact_ip :: "ip_addr \<rightharpoonup> u32"
  ri_cidrs :: "('n \<times> u32) list"
  ri_books :: "(u32 \<times> book_rules) list"

definition route_index_new :: "'n route_index" where
  "route_index_new =
     \<lparr>ri_full = Map.empty, ri_suffix = indexed_suffix_new, ri_keywords = [], ri_exact_ip = Map.empty,
      ri_cidrs = [], ri_books = []\<rparr>"

definition note_min :: "'k \<Rightarrow> u32 \<Rightarrow> ('k \<rightharpoonup> u32) \<Rightarrow> ('k \<rightharpoonup> u32)" where
  "note_min k idx m = m(k \<mapsto> (case m k of Some current \<Rightarrow> min current idx | None \<Rightarrow> idx))"

definition note_full :: "string \<Rightarrow> u32 \<Rightarrow> 'n route_index \<Rightarrow> 'n route_index" where
  "note_full host idx ix = ix\<lparr>ri_full := note_min host idx (ri_full ix)\<rparr>"

definition note_suffix :: "string \<Rightarrow> u32 \<Rightarrow> 'n route_index \<Rightarrow> 'n route_index" where
  "note_suffix host idx ix = ix\<lparr>ri_suffix := suffix_add host idx (ri_suffix ix)\<rparr>"

definition note_keyword :: "string \<Rightarrow> u32 \<Rightarrow> 'n route_index \<Rightarrow> 'n route_index" where
  "note_keyword keyword idx ix = ix\<lparr>ri_keywords := ri_keywords ix @ [(keyword, idx)]\<rparr>"

definition note_ip :: "ip_addr \<Rightarrow> u32 \<Rightarrow> 'n route_index \<Rightarrow> 'n route_index" where
  "note_ip addr idx ix = ix\<lparr>ri_exact_ip := note_min addr idx (ri_exact_ip ix)\<rparr>"

definition note_cidr :: "'n \<Rightarrow> u32 \<Rightarrow> 'n route_index \<Rightarrow> 'n route_index" where
  "note_cidr net idx ix = ix\<lparr>ri_cidrs := ri_cidrs ix @ [(net, idx)]\<rparr>"

definition note_book :: "u32 \<Rightarrow> book_rules \<Rightarrow> 'n route_index \<Rightarrow> 'n route_index" where
  "note_book idx book ix = ix\<lparr>ri_books := ri_books ix @ [(idx, book)]\<rparr>"

definition index_into :: "'n rule_set \<Rightarrow> u32 \<Rightarrow> 'n route_index \<Rightarrow> 'n route_index" where
  "index_into rs idx ix0 =
     (let ix1 = fold (\<lambda>host. note_full host idx) (dm_full (rs_domains rs)) ix0;
          ix2 = fold (\<lambda>host. note_suffix host idx) (sub_domain_suffixes (dm_domain (rs_domains rs))) ix1;
          ix3 = fold (\<lambda>keyword. note_keyword keyword idx) (dm_keyword (rs_domains rs)) ix2;
          ix4 = fold (\<lambda>addr. note_ip addr idx) (exact (rs_ips rs)) ix3;
          ix5 = fold (\<lambda>net. note_cidr net idx) (cidrs (rs_ips rs)) ix4
      in case rs_book rs of Some book \<Rightarrow> note_book idx book ix5 | None \<Rightarrow> ix5)"

text \<open>The scan of a list of selectors with the best number so far, which stops at number 0.\<close>

fun scan_best :: "('k \<Rightarrow> bool) \<Rightarrow> ('k \<times> u32) list \<Rightarrow> u32 \<Rightarrow> u32" where
  "scan_best hit [] best = best"
| "scan_best hit ((k, idx) # rest) best =
     (if idx < best \<and> hit k then (if idx = 0 then idx else scan_best hit rest idx)
      else scan_best hit rest best)"

fun scan_books :: "string \<Rightarrow> (u32 \<times> book_rules) list \<Rightarrow> u32 \<Rightarrow> u32" where
  "scan_books host [] best = best"
| "scan_books host ((idx, book) # rest) best =
     (if best \<le> idx then scan_books host rest best
      else if book_matches (br_book book) host (br_selector book) then
        (if idx = 0 then idx else scan_books host rest idx)
      else scan_books host rest best)"

definition min_found :: "u32 option \<Rightarrow> u32 \<Rightarrow> u32" where
  "min_found r best = (case r of Some idx \<Rightarrow> min best idx | None \<Rightarrow> best)"

definition best_number :: "'n ip_net \<Rightarrow> 'n route_index \<Rightarrow> string \<Rightarrow> u32" where
  "best_number N ix host =
     (let best = - 1;
          best = (case parse_ip_addr host of
              Some addr \<Rightarrow>
                scan_best (\<lambda>net. inet_contains N net addr) (ri_cidrs ix)
                  (min_found (ri_exact_ip ix addr) best)
            | None \<Rightarrow>
                (let normalized = normalize host
                 in if normalized = [] then best
                    else scan_best (contains_str normalized) (ri_keywords ix)
                      (min_found (suffix_best (ri_suffix ix) normalized)
                        (min_found (ri_full ix normalized) best))))
      in scan_books host (ri_books ix) best)"

definition first_match :: "'n ip_net \<Rightarrow> 'n route_index \<Rightarrow> string \<Rightarrow> nat option" where
  "first_match N ix host =
     (let best = best_number N ix host in if best \<noteq> - 1 then Some (unat best) else None)"

section \<open>Stores of numbered selectors\<close>

text \<open>
  What the index asks of each of its stores: a query lowers the best number so far to the number
  of a stored selector that hits, and to no other number.
\<close>

locale selector_store =
  fixes empty :: 's and put :: "'k \<Rightarrow> u32 \<Rightarrow> 's \<Rightarrow> 's"
    and best :: "'q \<Rightarrow> 's \<Rightarrow> u32 \<Rightarrow> u32" and hits :: "'k \<Rightarrow> 'q \<Rightarrow> bool"
  assumes best_empty: "best q empty b = b"
    and best_put: "best q (put k i s) b = (if hits k q then min i (best q s b) else best q s b)"
    and best_min: "best q s (min i b) = min i (best q s b)"
begin

lemma best_put_all:
  "best q (fold (\<lambda>k. put k i) ks s) b =
     (if list_ex (\<lambda>k. hits k q) ks then min i (best q s b) else best q s b)"
  by (induction ks arbitrary: s) (auto simp: best_put)

end

interpretation map_store: selector_store Map.empty note_min "\<lambda>q m. min_found (m q)" "(=)"
  by unfold_locales (auto simp: note_min_def min_found_def min.commute min.left_commute split: option.splits)

lemma scan_best_le: "scan_best hit s b \<le> b"
proof (induction s arbitrary: b)
  case (Cons ki s)
  obtain k j where ki: "ki = (k, j)" by fastforce
  show ?case
  proof (cases "j < b \<and> hit k")
    case True
    with Cons [of j] show ?thesis by (simp add: ki order.trans [OF _ less_imp_le])
  next
    case False
    with Cons [of b] show ?thesis by (simp only: ki scan_best.simps if_False)
  qed
qed simp

lemma scan_best_min: "scan_best hit s (min i b) = min i (scan_best hit s b)"
proof (induction s arbitrary: i b)
  case (Cons ki s)
  obtain k j where ki: "ki = (k, j)" by fastforce
  show ?case
  proof (cases "hit k \<and> j < b")
    case False
    then have "\<not> (j < min i b \<and> hit k)" by auto
    with False Cons [of i b] show ?thesis by (simp only: ki scan_best.simps) auto
  next
    case hit: True
    show ?thesis
    proof (cases "j < i")
      case True
      with hit have "scan_best hit (ki # s) (min i b) = scan_best hit (ki # s) b" by (simp add: ki)
      moreover have "scan_best hit (ki # s) b \<le> j" using hit scan_best_le [of hit s j] by (simp add: ki)
      ultimately show ?thesis using True by (metis min.absorb2 less_imp_le order.trans)
    next
      case False
      with hit have ib: "min i b = i" "min i j = i" by (auto simp: min_def not_less)
      from False have "scan_best hit (ki # s) (min i b) = scan_best hit s i" by (simp add: ki ib)
      also have "\<dots> = min i (scan_best hit s j)" using Cons [of i j] by (simp add: ib)
      also have "\<dots> = min i (scan_best hit (ki # s) b)"
        using hit scan_best_le [of hit s 0] by (auto simp: ki)
      finally show ?thesis .
    qed
  qed
qed simp

lemma scan_best_append: "scan_best hit (s @ [(k, i)]) b = (if hit k then min i (scan_best hit s b) else scan_best hit s b)"
proof (induction s arbitrary: b)
  case (Cons ki s)
  then show ?case by (cases ki) auto
qed (auto simp: min_def)

interpretation scan_store: selector_store "[]" "\<lambda>k i s. s @ [(k, i)]" "\<lambda>q. scan_best (\<lambda>k. H k q)" H
  for H :: "'k \<Rightarrow> 'q \<Rightarrow> bool"
  by unfold_locales (auto simp: scan_best_append scan_best_min)

lemma scan_books_scan: "scan_books host bs b = scan_best (\<lambda>k. book_matches (br_book k) host (br_selector k)) (map prod.swap bs) b"
  by (induction bs arbitrary: b) (auto simp: not_le)

section \<open>The suffix store\<close>

lemma min_found_min: "min_found v (min i b) = min i (min_found v b)"
  by (simp add: min_found_def min.assoc split: option.split)

lemma fold_min_found_min: "fold min_found vs (min i b) = min i (fold min_found vs b)"
  by (induction vs arbitrary: b) (auto simp: min_found_min)

lemma fold_best_min_found:
  "min_found (fold (\<lambda>v best. case v of
      None \<Rightarrow> best
    | Some idx \<Rightarrow> Some (case best of None \<Rightarrow> idx | Some b \<Rightarrow> min b idx)) vs acc) b =
   fold min_found vs (min_found acc b)"
proof (induction vs arbitrary: acc)
  case (Cons v vs)
  show ?case
    unfolding fold_simps comp_def Cons.IH
    by (rule arg_cong [where f = "fold min_found vs"]) (auto simp: min_found_def min.assoc split: option.split)
qed simp

lemma path_values_new [simp]: "fold min_found (path_values q (Node None [])) b = b"
  by (cases q) (auto simp: min_found_def)

lemma path_values_update:
  fixes idx :: u32
  defines "upd \<equiv> \<lambda>best. Some (case best of None \<Rightarrow> idx | Some b \<Rightarrow> min b idx)"
  assumes "p \<noteq> []"
  shows "fold min_found (path_values q (trie_update None upd p t)) b =
    (if prefix p q then min idx (fold min_found (path_values q t) b) else fold min_found (path_values q t) b)"
  using assms(2)
proof (induction p arbitrary: q t b)
  case (Cons l ls)
  obtain v cs where t: "t = Node v cs" by (cases t)
  show ?case
  proof (cases q)
    case Nil
    then show ?thesis by simp
  next
    case q: (Cons k ks)
    define c where "c = (case map_of cs l of Some c \<Rightarrow> c | None \<Rightarrow> Node None [])"
    have old: "fold min_found (path_values (l # ks) t) b = fold min_found (path_values ks c) (min_found (node_val c) b)"
      by (auto simp: t c_def min_found_def split: option.split)
    have new: "fold min_found (path_values (l # ks) (trie_update None upd (l # ls) t)) b =
        fold min_found (path_values ks (trie_update None upd ls c)) (min_found (node_val (trie_update None upd ls c)) b)"
      by (simp add: t c_def update_conv')
    obtain w ds where c: "c = Node w ds" by (cases c)
    have same: "path_values ks (trie_update None upd [] c) = path_values ks c"
      by (cases ks) (simp_all add: c)
    have val: "min_found (node_val (trie_update None upd ls c)) b =
        (if ls = [] then min idx (min_found (node_val c) b) else min_found (node_val c) b)"
      by (cases ls) (auto simp: c upd_def min_found_def min.commute min.left_commute split: option.split)
    show ?thesis
    proof (cases "k = l")
      case False
      then show ?thesis by (simp add: q t update_conv')
    next
      case True
      show ?thesis
      proof (cases "ls = []")
        case nil: True
        have "fold min_found (path_values (l # ks) (trie_update None upd [l] t)) b =
            fold min_found (path_values ks c) (min idx (min_found (node_val c) b))"
          using new same val by (simp only: nil simp_thms if_True)
        then show ?thesis by (simp only: q True nil old fold_min_found_min) simp
      next
        case ne: False
        show ?thesis
          unfolding q True old new val Cons.IH [OF ne] using ne by simp
      qed
    qed
  qed
qed simp

interpretation suffix_store: selector_store indexed_suffix_new suffix_add
  "\<lambda>n t. min_found (suffix_best t n)" "\<lambda>s n. s \<noteq> [] \<and> n \<noteq> [] \<and> under_suffix s n"
proof unfold_locales
  have best: "min_found (suffix_best t n) b = fold min_found (path_values (labels_rev n) t) b" if "n \<noteq> []" for t n b
    using that fold_best_min_found [of "path_values (labels_rev n) t" None b]
    by (simp add: suffix_best_def min_found_def [of None])
  have none: "min_found (suffix_best t []) b = b" for t b
    by (simp add: suffix_best_def min_found_def)
  show "min_found (suffix_best indexed_suffix_new n) b = b" for n b
    by (cases "n = []") (simp_all add: best none indexed_suffix_new_def)
  show "min_found (suffix_best (suffix_add s i t) n) b =
    (if s \<noteq> [] \<and> n \<noteq> [] \<and> under_suffix s n then min i (min_found (suffix_best t n) b)
     else min_found (suffix_best t n) b)" for n s i t b
    by (cases "n = []") (simp_all add: best none suffix_add_def path_values_update labels_under_suffix)
qed (rule min_found_min)

section \<open>The index answers like a linear scan\<close>

lemma fold_note_full:
  "fold (\<lambda>h. note_full h i) hs ix = ix\<lparr>ri_full := fold (\<lambda>h. note_min h i) hs (ri_full ix)\<rparr>"
  by (induction hs arbitrary: ix) (auto simp: note_full_def)

lemma fold_note_suffix:
  "fold (\<lambda>h. note_suffix h i) hs ix = ix\<lparr>ri_suffix := fold (\<lambda>h. suffix_add h i) hs (ri_suffix ix)\<rparr>"
  by (induction hs arbitrary: ix) (auto simp: note_suffix_def)

lemma fold_note_keyword:
  "fold (\<lambda>h. note_keyword h i) hs ix = ix\<lparr>ri_keywords := fold (\<lambda>k s. s @ [(k, i)]) hs (ri_keywords ix)\<rparr>"
  by (induction hs arbitrary: ix) (auto simp: note_keyword_def)

lemma fold_note_ip:
  "fold (\<lambda>h. note_ip h i) hs ix = ix\<lparr>ri_exact_ip := fold (\<lambda>h. note_min h i) hs (ri_exact_ip ix)\<rparr>"
  by (induction hs arbitrary: ix) (auto simp: note_ip_def)

lemma fold_note_cidr:
  "fold (\<lambda>h. note_cidr h i) hs ix = ix\<lparr>ri_cidrs := fold (\<lambda>k s. s @ [(k, i)]) hs (ri_cidrs ix)\<rparr>"
  by (induction hs arbitrary: ix) (auto simp: note_cidr_def)

lemmas fold_note = fold_note_full fold_note_suffix fold_note_keyword fold_note_ip fold_note_cidr

lemma index_into_fields:
  "ri_full (index_into rs i ix) = fold (\<lambda>h. note_min h i) (dm_full (rs_domains rs)) (ri_full ix)"
  "ri_suffix (index_into rs i ix) =
     fold (\<lambda>h. suffix_add h i) (sub_domain_suffixes (dm_domain (rs_domains rs))) (ri_suffix ix)"
  "ri_keywords (index_into rs i ix) =
     fold (\<lambda>k s. s @ [(k, i)]) (dm_keyword (rs_domains rs)) (ri_keywords ix)"
  "ri_exact_ip (index_into rs i ix) = fold (\<lambda>h. note_min h i) (exact (rs_ips rs)) (ri_exact_ip ix)"
  "ri_cidrs (index_into rs i ix) = fold (\<lambda>k s. s @ [(k, i)]) (cidrs (rs_ips rs)) (ri_cidrs ix)"
  "map prod.swap (ri_books (index_into rs i ix)) =
     fold (\<lambda>k s. s @ [(k, i)]) (case rs_book rs of None \<Rightarrow> [] | Some b \<Rightarrow> [b]) (map prod.swap (ri_books ix))"
  by (simp_all add: index_into_def Let_def fold_note note_book_def split: option.split)

abbreviation lower :: "bool \<Rightarrow> u32 \<Rightarrow> u32 \<Rightarrow> u32" where
  "lower hit i b \<equiv> (if hit then min i b else b)"

lemma lower_or: "lower p i (lower q i b) = lower (p \<or> q) i b"
  by auto

lemma best_number_index_into:
  assumes "matcher_wf (rs_domains rs)"
  shows "best_number N (index_into rs i ix) host = lower (rs_matches N rs host) i (best_number N ix host)"
proof -
  let ?H = "\<lambda>k. book_matches (br_book k) host (br_selector k)"
  let ?books = "case rs_book rs of None \<Rightarrow> [] | Some b \<Rightarrow> [b]"
  have book: "scan_books host (ri_books (index_into rs i ix)) (lower p i b) =
      lower (list_ex ?H ?books \<or> p) i (scan_books host (ri_books ix) b)" for p b
    using scan_store.best_put_all [where H = "\<lambda>k _. ?H k" and i = i and ks = ?books]
    by (simp add: scan_books_scan index_into_fields(6) scan_best_min)
  have books: "list_ex ?H ?books \<longleftrightarrow> (case rs_book rs of
        Some b \<Rightarrow> book_matches (br_book b) host (br_selector b) | None \<Rightarrow> False)"
    by (simp split: option.split)
  show ?thesis
  proof (cases "parse_ip_addr host")
    case (Some a)
    have ips: "scan_best (\<lambda>net. inet_contains N net a) (ri_cidrs (index_into rs i ix))
        (min_found (ri_exact_ip (index_into rs i ix) a) b) =
      lower (ip_matches N (rs_ips rs) a) i (scan_best (\<lambda>net. inet_contains N net a) (ri_cidrs ix)
        (min_found (ri_exact_ip ix a) b))" for b
      using scan_store.best_put_all [where H = "inet_contains N" and q = a and i = i]
        map_store.best_put_all [where q = a and i = i]
      by (auto simp: index_into_fields scan_best_min ip_matches_def list_ex_iff)
    have "best_number N (index_into rs i ix) host = lower (list_ex ?H ?books \<or> ip_matches N (rs_ips rs) a) i
        (best_number N ix host)"
      by (simp only: best_number_def Let_def Some option.case ips book)
    then show ?thesis unfolding rs_matches_def books Some by simp
  next
    case None
    let ?n = "normalize host"
    show ?thesis
    proof (cases "?n = []")
      case True
      then have "\<not> domain_matches (rs_domains rs) host"
        by (simp add: domain_matches_def domain_matches_normalized_def)
      with True None book [of False "- 1"] show ?thesis
        by (simp add: best_number_def rs_matches_def books)
    next
      case False
      have names: "scan_best (contains_str ?n) (ri_keywords (index_into rs i ix))
          (min_found (suffix_best (ri_suffix (index_into rs i ix)) ?n)
            (min_found (ri_full (index_into rs i ix) ?n) b)) =
        lower (domain_matches (rs_domains rs) host) i (scan_best (contains_str ?n) (ri_keywords ix)
          (min_found (suffix_best (ri_suffix ix) ?n) (min_found (ri_full ix ?n) b)))" for b
        using scan_store.best_put_all [where H = "\<lambda>k n. contains_str n k" and q = ?n and i = i]
          map_store.best_put_all [where q = ?n and i = i]
          suffix_store.best_put_all [where q = ?n and i = i]
          suffixes_cover [OF assms False] False
        by (auto simp: index_into_fields scan_best_min min_found_min domain_matches_def
            domain_matches_normalized_def list_ex_iff)
      have "best_number N (index_into rs i ix) host =
          lower (list_ex ?H ?books \<or> domain_matches (rs_domains rs) host) i (best_number N ix host)"
        using False by (simp only: best_number_def Let_def None option.case if_False names book)
      then show ?thesis unfolding rs_matches_def books None by simp
    qed
  qed
qed

definition index_rules :: "'n rule_set list \<Rightarrow> 'n route_index" where
  "index_rules rss = fold (\<lambda>(i, rs). index_into rs (word_of_nat i)) (enumerate 0 rss) route_index_new"

fun first_index :: "('a \<Rightarrow> bool) \<Rightarrow> 'a list \<Rightarrow> nat option" where
  "first_index P [] = None"
| "first_index P (x # xs) = (if P x then Some 0 else map_option Suc (first_index P xs))"

lemma first_index_append:
  "first_index P (xs @ [x]) =
     (case first_index P xs of Some i \<Rightarrow> Some i | None \<Rightarrow> if P x then Some (length xs) else None)"
  by (induction xs) (auto split: option.splits)

lemma first_index_less: "first_index P xs = Some i \<Longrightarrow> i < length xs"
  by (induction xs arbitrary: i) (auto split: if_splits)

lemma enumerate_append_last: "enumerate n (xs @ [x]) = enumerate n xs @ [(n + length xs, x)]"
  by (induction xs arbitrary: n) auto

lemma best_number_new: "best_number N route_index_new host = - 1"
  using suffix_store.best_empty
  by (simp add: best_number_def route_index_new_def min_found_def [of None] Let_def split: option.split)

lemma of_nat_min:
  assumes "i \<le> j" and "j < 2 ^ 32"
  shows "min (word_of_nat j) (word_of_nat i :: u32) = word_of_nat i"
proof -
  have "(word_of_nat i :: u32) \<le> word_of_nat j"
    using assms by (simp add: word_of_nat_less_eq_iff take_bit_nat_eq_self)
  then show ?thesis by (rule min.absorb2)
qed

lemma min_top: "min w (- 1 :: u32) = w"
  by (simp add: min_def word_order.extremum_unique)

lemma best_number_rules:
  assumes "\<forall>rs \<in> set rss. matcher_wf (rs_domains rs)" and "length rss < 2 ^ 32"
  shows "best_number N (index_rules rss) host =
    (case first_index (\<lambda>rs. rs_matches N rs host) rss of Some i \<Rightarrow> word_of_nat i | None \<Rightarrow> - 1)"
  using assms
proof (induction rss rule: rev_induct)
  case Nil
  show ?case by (simp add: index_rules_def best_number_new)
next
  case (snoc rs rss)
  have "index_rules (rss @ [rs]) = index_into rs (word_of_nat (length rss)) (index_rules rss)"
    by (simp add: index_rules_def enumerate_append_last)
  then have "best_number N (index_rules (rss @ [rs])) host =
      lower (rs_matches N rs host) (word_of_nat (length rss)) (best_number N (index_rules rss) host)"
    using snoc.prems by (simp add: best_number_index_into)
  with snoc show ?case
    by (auto simp: first_index_append min_top of_nat_min less_imp_le split: option.splits dest: first_index_less)
qed

lemma collect_rules_wf:
  "collect_rules N rules rs ps = Inr (rs', ps') \<Longrightarrow> matcher_wf (rs_domains rs) \<Longrightarrow>
     matcher_wf (rs_domains rs')"
  by (induction rules arbitrary: rs ps)
    (auto simp: Let_def matcher_wf_add split: if_splits option.splits prod.splits)

lemma from_rules_wf: "fst (from_rules N between rules book) = Inr rs \<Longrightarrow> matcher_wf (rs_domains rs)"
  using collect_rules_wf [of N rules rule_set_new "[]"] matcher_wf_new
  by (auto simp: from_rules_def rule_set_new_def split: sum.splits prod.splits if_splits option.splits)

section \<open>What compiled rules mean\<close>

text \<open>The category pattern of a \<open>book:\<close> rule; other rules and empty ones have none.\<close>

definition book_pattern :: "string \<Rightarrow> string option" where
  "book_pattern r = map_option trim (strip_prefix (trim r) ''book:'')"

definition host_rule_hits :: "'n ip_net \<Rightarrow> string \<Rightarrow> string \<Rightarrow> bool" where
  "host_rule_hits N r host =
     (let t = trim r
      in t \<noteq> [] \<and> book_pattern r = None \<and>
         (case parse_ip_addr host of
            Some a \<Rightarrow> ip_rule_hits N t a
          | None \<Rightarrow> \<not> is_ip_rule N t \<and> normalize host \<noteq> [] \<and> domain_rule_hits t (normalize host)))"

definition book_rule_hits :: "addr_book \<Rightarrow> string \<Rightarrow> string \<Rightarrow> bool" where
  "book_rule_hits b r host =
     (case book_pattern r of
        Some p \<Rightarrow> list_ex (covers (normalize_category p)) (lookup_categories b host)
      | None \<Rightarrow> False)"

definition rule_hits :: "'n ip_net \<Rightarrow> addr_book option \<Rightarrow> string \<Rightarrow> string \<Rightarrow> bool" where
  "rule_hits N book r host \<longleftrightarrow>
     host_rule_hits N r host \<or> (case book of Some b \<Rightarrow> book_rule_hits b r host | None \<Rightarrow> False)"

text \<open>A rule that cannot be compiled: an empty category, or one the loaded book does not know.\<close>

definition bad_rule :: "addr_book option \<Rightarrow> string \<Rightarrow> bool" where
  "bad_rule book r =
     (case book_pattern r of
        None \<Rightarrow> False
      | Some p \<Rightarrow> p = [] \<or> (case book of
          None \<Rightarrow> True
        | Some b \<Rightarrow> normalize_category p = [] \<or> \<not> known b (normalize_category p)))"

definition host_part :: "'n ip_net \<Rightarrow> 'n rule_set \<Rightarrow> string \<Rightarrow> bool" where
  "host_part N rs host =
     (case parse_ip_addr host of
        Some a \<Rightarrow> ip_matches N (rs_ips rs) a
      | None \<Rightarrow> domain_matches (rs_domains rs) host)"

lemma rs_matches_parts:
  "rs_matches N rs host \<longleftrightarrow> host_part N rs host \<or>
     (case rs_book rs of Some b \<Rightarrow> book_matches (br_book b) host (br_selector b) | None \<Rightarrow> False)"
  by (auto simp: rs_matches_def host_part_def Let_def split: option.split)

lemma host_part_add_ip:
  assumes "ipnet_ok N" and "is_ip_rule N t"
  shows "host_part N (rs\<lparr>rs_ips := snd (ip_add N t (rs_ips rs))\<rparr>) host \<longleftrightarrow>
    host_part N rs host \<or> (\<exists>a. parse_ip_addr host = Some a \<and> ip_rule_hits N t a)"
  by (auto simp: host_part_def ip_matches_add [OF assms(1)] split: option.split)

lemma ip_add_other: "\<not> is_ip_rule N t \<Longrightarrow> ip_add N t m = (False, m)"
  by (auto simp: ip_add_def is_ip_rule_def Let_def)

lemma host_part_add_domain:
  "host_part N (rs\<lparr>rs_domains := domain_add t (rs_domains rs)\<rparr>) host \<longleftrightarrow>
    host_part N rs host \<or> parse_ip_addr host = None \<and> normalize host \<noteq> [] \<and> domain_rule_hits t (normalize host)"
proof (cases "normalize host = []")
  case True
  then show ?thesis
    by (simp add: host_part_def domain_matches_def domain_matches_normalized_def split: option.split)
next
  case False
  then show ?thesis
    by (auto simp: host_part_def domain_matches_def domain_matches_add split: option.split)
qed

lemma trim_trim_rule: "host_rule_hits N r host \<longleftrightarrow> trim r \<noteq> [] \<and> book_pattern r = None \<and>
    (case parse_ip_addr host of Some a \<Rightarrow> ip_rule_hits N (trim r) a
     | None \<Rightarrow> \<not> is_ip_rule N (trim r) \<and> normalize host \<noteq> [] \<and> domain_rule_hits (trim r) (normalize host))"
  by (simp add: host_rule_hits_def Let_def)

lemma collect_rules_spec:
  assumes "ipnet_ok N"
  shows "case collect_rules N rules rs ps of
     Inl e \<Rightarrow> list_ex (\<lambda>r. book_pattern r = Some []) rules
   | Inr (rs', ps') \<Rightarrow> ps' = ps @ List.map_filter book_pattern rules \<and> [] \<notin> set (List.map_filter book_pattern rules) \<and>
       rs_book rs' = rs_book rs \<and>
       (\<forall>host. host_part N rs' host \<longleftrightarrow> host_part N rs host \<or> list_ex (\<lambda>r. host_rule_hits N r host) rules)"
proof (induction rules arbitrary: rs ps)
  case Nil
  show ?case by (simp add: map_filter_simps)
next
  case (Cons r rules)
  consider (empty) "trim r = []" | (book) p where "trim r \<noteq> []" "strip_prefix (trim r) ''book:'' = Some p"
    | (ip) "trim r \<noteq> []" "strip_prefix (trim r) ''book:'' = None" "is_ip_rule N (trim r)"
    | (domain) "trim r \<noteq> []" "strip_prefix (trim r) ''book:'' = None" "\<not> is_ip_rule N (trim r)"
    by fastforce
  then show ?case
  proof cases
    case empty
    then have pat: "book_pattern r = None" "\<not> host_rule_hits N r host" for host
      by (simp_all add: book_pattern_def strip_prefix_def host_rule_hits_def)
    have "collect_rules N (r # rules) rs ps = collect_rules N rules rs ps" using empty by simp
    with Cons.IH [where rs = rs and ps = ps] pat show ?thesis
      by (simp del: collect_rules.simps add: map_filter_simps split: sum.splits prod.splits)
  next
    case book
    then have pat: "book_pattern r = Some (trim p)" "\<not> host_rule_hits N r host" for host
      by (simp_all add: book_pattern_def host_rule_hits_def)
    show ?thesis
    proof (cases "trim p = []")
      case True
      with book have "collect_rules N (r # rules) rs ps = Inl EmptyBookRule" by simp
      with True pat show ?thesis by simp
    next
      case False
      with book have "collect_rules N (r # rules) rs ps = collect_rules N rules rs (ps @ [trim p])" by simp
      with Cons.IH [where rs = rs and ps = "ps @ [trim p]"] pat False show ?thesis
        by (auto simp del: collect_rules.simps simp: map_filter_simps split: sum.splits)
    qed
  next
    case ip
    then have pat: "book_pattern r = None" by (simp add: book_pattern_def)
    obtain ips where add: "ip_add N (trim r) (rs_ips rs) = (True, ips)"
      using ip_add_kind [of N "trim r" "rs_ips rs"] ip(3) by (cases "ip_add N (trim r) (rs_ips rs)") auto
    have hits: "host_rule_hits N r host \<longleftrightarrow> (\<exists>a. parse_ip_addr host = Some a \<and> ip_rule_hits N (trim r) a)" for host
      using ip pat by (simp add: trim_trim_rule split: option.split)
    show ?thesis
      using ip pat add Cons.IH [where rs = "rs\<lparr>rs_ips := ips\<rparr>" and ps = ps] host_part_add_ip [where rs = rs, OF assms ip(3)]
      by (simp add: map_filter_simps hits disj_assoc split: sum.splits prod.splits)
  next
    case domain
    then have pat: "book_pattern r = None" by (simp add: book_pattern_def)
    have hits: "host_rule_hits N r host \<longleftrightarrow>
        parse_ip_addr host = None \<and> normalize host \<noteq> [] \<and> domain_rule_hits (trim r) (normalize host)" for host
      using domain pat ip_rule_hits_kind [of N "trim r"] by (auto simp: trim_trim_rule split: option.split)
    show ?thesis
      using domain pat ip_add_other [OF domain(3), of "rs_ips rs"]
        Cons.IH [where rs = "rs\<lparr>rs_domains := domain_add (trim r) (rs_domains rs)\<rparr>" and ps = ps] host_part_add_domain [where N = N and rs = rs and t = "trim r"]
      by (simp add: map_filter_simps hits disj_assoc split: sum.splits prod.splits)
  qed
qed

section \<open>Properties\<close>

text \<open>What the compilation of rules may assume of the loaded book and its shared selector cache.\<close>

definition book_ready :: "(selector_cache \<Rightarrow> selector_cache) \<Rightarrow> addr_book option \<Rightarrow> bool" where
  "book_ready between book =
     (case book of
        None \<Rightarrow> True
      | Some b \<Rightarrow> book_wf b \<and> validate (ab_raw b) = None \<and> cache_ok b (cache b) \<and> cache_ok b (between (cache b)))"

lemma set_map_filter: "set (List.map_filter f xs) = {y. \<exists>x \<in> set xs. f x = Some y}"
  by (induction xs) (auto simp: map_filter_simps split: option.splits)

lemma bad_rule_iff:
  "list_ex (bad_rule (Some b)) rules \<longleftrightarrow>
     [] \<in> set (List.map_filter book_pattern rules) \<or>
     (\<exists>p \<in> set (List.map_filter book_pattern rules). normalize_category p = [] \<or> \<not> known b (normalize_category p))"
  unfolding set_map_filter list_ex_iff bad_rule_def by (auto split: option.splits)

lemma book_rules_hit:
  "list_ex (\<lambda>r. book_rule_hits b r host) rules \<longleftrightarrow>
     list_ex (\<lambda>c. list_ex (\<lambda>p. covers (normalize_category p) c) (List.map_filter book_pattern rules))
       (lookup_categories b host)"
proof -
  have "book_rule_hits b r host \<longleftrightarrow> (\<exists>p. book_pattern r = Some p \<and>
      (\<exists>c \<in> set (lookup_categories b host). covers (normalize_category p) c))" for r
    by (simp add: book_rule_hits_def list_ex_iff split: option.split)
  then show ?thesis
    unfolding list_ex_iff set_map_filter by blast
qed

lemma list_ex_disj: "list_ex (\<lambda>x. P x \<or> Q x) xs \<longleftrightarrow> list_ex P xs \<or> list_ex Q xs"
  by (induction xs) auto

lemma from_rules_meaning:
  assumes "ipnet_ok N" and "book_ready between book"
  shows "case fst (from_rules N between rules book) of
     Inl e \<Rightarrow> list_ex (bad_rule book) rules
   | Inr rs \<Rightarrow> \<not> list_ex (bad_rule book) rules \<and>
       (\<forall>host. rs_matches N rs host \<longleftrightarrow> list_ex (\<lambda>r. rule_hits N book r host) rules)"
proof (cases "collect_rules N rules rule_set_new []")
  case (Inl e)
  with collect_rules_spec [OF assms(1), where rules = rules and rs = rule_set_new and ps = "[]"]
  have "list_ex (\<lambda>r. book_pattern r = Some []) rules" by simp
  then have "list_ex (bad_rule book) rules" by (force simp: list_ex_iff bad_rule_def)
  with Inl show ?thesis by (simp add: from_rules_def)
next
  case (Inr rsps)
  obtain rs ps where rsps: "rsps = (rs, ps)" by fastforce
  have new: "\<not> host_part N rule_set_new host" "rs_book rule_set_new = None" for host
    by (simp_all add: host_part_def rule_set_new_def domain_matches_def split: option.split)
  have ps: "ps = List.map_filter book_pattern rules" "[] \<notin> set ps" "rs_book rs = None"
    and hosts: "host_part N rs host \<longleftrightarrow> list_ex (\<lambda>r. host_rule_hits N r host) rules" for host
    using collect_rules_spec [OF assms(1), where rules = rules and rs = rule_set_new and ps = "[]"] Inr
    by (simp_all add: rsps new)
  have none: "book_pattern r = None" if "ps = []" "r \<in> set rules" for r
    using that set_map_filter [of book_pattern rules] ps(1) by (cases "book_pattern r") auto
  show ?thesis
  proof (cases "ps = []")
    case True
    then have "\<not> list_ex (bad_rule book) rules" "\<not> list_ex (\<lambda>r. book_rule_hits b r host) rules" for b host
      using none by (auto simp: list_ex_iff bad_rule_def book_rule_hits_def)
    then show ?thesis
      using True Inr by (cases book) (simp_all add: from_rules_def rsps rs_matches_parts ps(3) hosts rule_hits_def list_ex_disj)
  next
    case ne: False
    show ?thesis
    proof (cases book)
      case None
      from ne have "hd ps \<in> set ps" by simp
      then obtain r where r: "r \<in> set rules" "book_pattern r = Some (hd ps)"
        unfolding ps(1) set_map_filter by blast
      have "bad_rule book r" by (simp add: bad_rule_def r(2) None)
      with r(1) have "list_ex (bad_rule book) rules" unfolding list_ex_iff by blast
      with None ne Inr show ?thesis by (simp add: from_rules_def rsps)
    next
      case (Some b)
      then have b: "book_wf b" "validate (ab_raw b) = None" "cache_ok b (cache b)" "cache_ok b (between (cache b))"
        using assms(2) by (simp_all add: book_ready_def)
      note fresh = resolve_transparent(1) [where between = between and ps = ps, OF b(3,4)]
      note spec = resolve_fresh_spec [OF b(1), of ps]
      show ?thesis
      proof (cases "fst (resolve between b ps)")
        case (Inl e)
        then have "resolve_fresh b ps = Inl e" using fresh by metis
        with spec have "list_ex (bad_rule book) rules"
          unfolding Some bad_rule_iff ps(1) [symmetric] by simp
        with Inl Some ne Inr show ?thesis
          by (cases "resolve between b ps") (simp add: from_rules_def rsps)
      next
        case sel: (Inr sel)
        then have "resolve_fresh b ps = Inr sel" using fresh by metis
        with spec ps(2) have good: "\<not> list_ex (bad_rule book) rules"
          unfolding Some bad_rule_iff ps(1) [symmetric] by simp
        have "fst (from_rules N between rules book) =
            Inr (rs\<lparr>rs_book := Some \<lparr>br_book = snd (resolve between b ps), br_selector = sel\<rparr>\<rparr>)"
          using Some ne Inr sel by (cases "resolve between b ps") (simp add: from_rules_def rsps)
        moreover have "host_part N (rs\<lparr>rs_book := x\<rparr>) host = host_part N rs host" for x host
          by (simp add: host_part_def split: option.split)
        ultimately show ?thesis
          using good resolved_listed [where between = between, OF b(1,3,4) sel]
          by (simp add: rs_matches_parts book_matches_cong [OF resolve_keeps_book(1)] hosts rule_hits_def
              list_ex_disj Some book_rules_hit flip: ps(1))
      qed
    qed
  qed
qed

text \<open>
  C3: what a rule list means. Compiling fails exactly when some \<open>book:\<close> rule is empty, no book
  is loaded for it, or it names no category of the loaded book, so a rule never silently stops
  matching; otherwise the compiled set matches a host exactly when one of the rules does: an
  address or network that contains the host's address, a full name, suffix or keyword of its
  normalized name, or a category of the book.
\<close>

theorem rule_set_meaning:
  assumes "ipnet_ok N" and "book_ready between book"
  shows "case fst (from_rules N between rules book) of
     Inl e \<Rightarrow> list_ex (bad_rule book) rules
   | Inr rs \<Rightarrow> \<not> list_ex (bad_rule book) rules \<and>
       (\<forall>host. rs_matches N rs host \<longleftrightarrow> list_ex (\<lambda>r. rule_hits N book r host) rules)"
  by (rule from_rules_meaning [OF assms])

theorem rule_set_meaning_witness:
  "list_all (\<lambda>r. \<not> bad_rule (Some demo_book) r) [''full:a.b'', ''book:google/ads''] \<and>
   list_ex (\<lambda>r. rule_hits demo_inet (Some demo_book) r ''2.0.0.0'') [''full:a.b'', ''book:google/ads'']"
proof -
  let ?rules = "[''full:a.b'', ''book:google/ads'']"
  have "book_ready id (Some demo_book)"
    using demo_book_wf demo_book_cache demo_raw_valid
    by (simp add: book_ready_def demo_book_def from_raw_def)
  note meaning = rule_set_meaning [where rules = ?rules, OF demo_inet_ok this]
  have "case fst (from_rules demo_inet id ?rules (Some demo_book)) of
      Inl e \<Rightarrow> False | Inr rs \<Rightarrow> rs_matches demo_inet rs ''2.0.0.0''"
    by code_simp
  with meaning show ?thesis
    by (auto simp: list_all_iff list_ex_iff simp del: set_simps split: sum.splits)
qed

lemma index_rules_first_match:
  assumes "length rss < 2 ^ 32 - 1" and "\<forall>rs \<in> set rss. matcher_wf (rs_domains rs)"
  shows "first_match N (index_rules rss) host = first_index (\<lambda>rs. rs_matches N rs host) rss"
proof -
  note best = best_number_rules [OF assms(2), of N host]
  have "(word_of_nat i :: u32) \<noteq> - 1 \<and> unat (word_of_nat i :: u32) = i"
    if "first_index (\<lambda>rs. rs_matches N rs host) rss = Some i" for i
  proof -
    from first_index_less [OF that] assms(1) have i: "i < 2 ^ 32 - 1" by simp
    then have "unat (word_of_nat i :: u32) = i" by (simp add: of_nat_inverse)
    moreover have "unat (- 1 :: u32) = 2 ^ 32 - 1" by (simp add: unsigned_minus_1_eq_mask mask_eq_exp_minus_1)
    ultimately show ?thesis using i by (metis less_irrefl)
  qed
  with best assms(1) show ?thesis
    by (auto simp: first_match_def Let_def split: option.splits)
qed

text \<open>
  C2: the route index answers exactly like a linear scan: built over any list of compiled rule
  sets that the 32-bit route numbers can count, it returns the position of the first rule set that
  matches the host, and nothing when none matches, whatever mix of names, suffixes, keywords,
  addresses, networks and book categories they hold.
\<close>

theorem route_index_first_match:
  assumes "length rss < 2 ^ 32 - 1"
    and "\<forall>rs \<in> set rss. \<exists>rules book. fst (from_rules N between rules book) = Inr rs"
  shows "first_match N (index_rules rss) host = first_index (\<lambda>rs. rs_matches N rs host) rss"
  using assms(2) from_rules_wf by (intro index_rules_first_match [OF assms(1)]) blast

definition demo_rules :: "string list list" where
  "demo_rules = [[''10.0.0.0/8'', ''full:a.example.com''], [''Example.com'', ''book:google''], [''keyword:goo'']]"

definition demo_rule_sets :: "(u32 \<times> nat) rule_set list" where
  "demo_rule_sets = map (\<lambda>rules. projr (fst (from_rules demo_inet id rules (Some demo_book)))) demo_rules"

lemma demo_rules_compile:
  "list_all (\<lambda>rules. \<not> isl (fst (from_rules demo_inet id rules (Some demo_book)))) demo_rules"
  by code_simp

theorem route_index_first_match_witness:
  "first_match demo_inet (index_rules demo_rule_sets) ''WWW.google.com'' = Some 1 \<and>
   first_index (\<lambda>rs. rs_matches demo_inet rs ''WWW.google.com'') demo_rule_sets = Some 1"
proof -
  have "length demo_rule_sets < 2 ^ 32 - 1" by (simp add: demo_rule_sets_def demo_rules_def)
  moreover have "\<forall>rs \<in> set demo_rule_sets. \<exists>rules book. fst (from_rules demo_inet id rules book) = Inr rs"
    using demo_rules_compile by (auto simp: demo_rule_sets_def list_all_iff isl_def)
  moreover have "first_index (\<lambda>rs. rs_matches demo_inet rs ''WWW.google.com'') demo_rule_sets = Some 1"
    by code_simp
  ultimately show ?thesis
    using route_index_first_match [of demo_rule_sets demo_inet id "''WWW.google.com''"] by simp
qed

end
