(* ===== verification/Snapshot_Compile.thy ===== *)
theory Snapshot_Compile
  imports Policy_Index
begin

text \<open>
  The snapshot the control plane sends and its compilation into the serving form
  (\<open>src/model.rs\<close>). Hash maps of the document are association lists with distinct keys; every
  rejection is a constructor of \<open>snapshot_error\<close>. The date parser of the \<open>chrono\<close> package is a
  parameter, and so are the addresses the allocator gives to selectors and what other threads do
  to the book's selector cache between two accesses.
\<close>

section \<open>Wire format\<close>

record raw_upstream =
  ru_kind :: string
  ru_addr :: string
  ru_username :: "string option"
  ru_password :: "string option"
  ru_tls :: bool
  ru_skip_cert_verify :: bool

record raw_chain_member =
  rcm_id :: string
  rcm_priority :: u32
  rcm_backend :: raw_upstream

record raw_frontend_cred =
  rfc_uuid :: "string option"
  rfc_password :: "string option"

datatype raw_action = RawEgressAction string | RawDirect | RawBlock

record raw_action_wire =
  raw_kind :: string
  raw_egress_id :: "string option"

datatype raw_egress = RawUpstreamEgress raw_upstream | RawChainEgress "raw_chain_member list"

record raw_egress_wire =
  rew_kind :: string
  rew_backend :: "raw_upstream option"
  rew_members :: "raw_chain_member list option"

record raw_route =
  rr_selectors :: "string list"
  rr_action :: raw_action

record raw_routing_policy =
  rrp_routes :: "raw_route list"
  rrp_default_action :: "raw_action option"

record raw_user =
  raw_password :: string
  raw_expire :: "string option"
  raw_up_rate :: u64
  raw_down_rate :: u64
  raw_max_connections :: u64
  raw_policy :: string
  raw_frontends :: "(string \<times> raw_frontend_cred) list"

record node_override =
  no_egresses :: "(string \<times> raw_egress) list"

record raw_snapshot =
  raw_schema_version :: u32
  raw_version :: u64
  raw_users :: "(string \<times> raw_user) list"
  raw_routing_policies :: "(string \<times> raw_routing_policy) list"
  raw_egresses :: "(string \<times> raw_egress) list"
  node_overrides :: "(string \<times> node_override) list"

definition SCHEMA_VERSION :: u32 where "SCHEMA_VERSION = 1"
definition MAX_SUPPORTED_SCHEMA_VERSION :: u32 where "MAX_SUPPORTED_SCHEMA_VERSION = SCHEMA_VERSION"

definition schema_version_supported :: "u32 \<Rightarrow> u32 \<Rightarrow> bool" where
  "schema_version_supported v max_supported \<longleftrightarrow> 1 \<le> v \<and> v \<le> max_supported"

definition raw_snapshot_default :: raw_snapshot where
  "raw_snapshot_default =
     \<lparr>raw_schema_version = SCHEMA_VERSION, raw_version = 0, raw_users = [], raw_routing_policies = [],
      raw_egresses = [], node_overrides = []\<rparr>"

datatype wire_error =
  EgressIdMissing | EgressIdUnexpected | UnknownActionType string
| MembersUnexpected | BackendMissing | BackendUnexpected | MembersMissing | UnknownEgressType string

definition action_try_from :: "raw_action_wire \<Rightarrow> wire_error + raw_action" where
  "action_try_from w =
     (if raw_kind w = ''egress'' then
        (case raw_egress_id w of None \<Rightarrow> Inl EgressIdMissing | Some e \<Rightarrow> Inr (RawEgressAction e))
      else if raw_kind w = ''direct'' then
        (if raw_egress_id w \<noteq> None then Inl EgressIdUnexpected else Inr RawDirect)
      else if raw_kind w = ''block'' then
        (if raw_egress_id w \<noteq> None then Inl EgressIdUnexpected else Inr RawBlock)
      else Inl (UnknownActionType (raw_kind w)))"

fun action_wire :: "raw_action \<Rightarrow> raw_action_wire" where
  "action_wire (RawEgressAction e) = \<lparr>raw_kind = ''egress'', raw_egress_id = Some e\<rparr>"
| "action_wire RawDirect = \<lparr>raw_kind = ''direct'', raw_egress_id = None\<rparr>"
| "action_wire RawBlock = \<lparr>raw_kind = ''block'', raw_egress_id = None\<rparr>"

definition egress_try_from :: "raw_egress_wire \<Rightarrow> wire_error + raw_egress" where
  "egress_try_from w =
     (if rew_kind w = ''upstream'' then
        (if rew_members w \<noteq> None then Inl MembersUnexpected
         else case rew_backend w of None \<Rightarrow> Inl BackendMissing | Some b \<Rightarrow> Inr (RawUpstreamEgress b))
      else if rew_kind w = ''chain'' then
        (if rew_backend w \<noteq> None then Inl BackendUnexpected
         else case rew_members w of None \<Rightarrow> Inl MembersMissing | Some ms \<Rightarrow> Inr (RawChainEgress ms))
      else Inl (UnknownEgressType (rew_kind w)))"

fun egress_wire :: "raw_egress \<Rightarrow> raw_egress_wire" where
  "egress_wire (RawUpstreamEgress b) = \<lparr>rew_kind = ''upstream'', rew_backend = Some b, rew_members = None\<rparr>"
| "egress_wire (RawChainEgress ms) = \<lparr>rew_kind = ''chain'', rew_backend = None, rew_members = Some ms\<rparr>"

section \<open>Compiled form\<close>

datatype upstream_kind = Http | Socks5 | Reverse | Subnetra

record upstream =
  u_kind :: upstream_kind
  u_addr :: string
  u_username :: "string option"
  u_password :: "string option"
  u_tls :: bool
  u_skip_cert_verify :: bool

record chain_member =
  m_id :: string
  m_priority :: u32
  m_upstream :: upstream

record chain =
  ch_id :: string
  ch_members :: "chain_member list"

record frontend_cred =
  fc_uuid :: "string option"
  fc_password :: "string option"

record 'd user =
  us_password :: string
  us_expire :: "'d option"
  us_up_rate :: u64
  us_down_rate :: u64
  us_max_connections :: u64
  us_policy :: string
  us_frontends :: "(string \<times> frontend_cred) list"

datatype egress_kind = EgressUpstream upstream | EgressChain chain

record egress =
  eg_id :: string
  eg_kind :: egress_kind

datatype route_action = ActEgress egress | ActDirect | ActBlock

record 'n route =
  ro_selectors :: "'n rule_set"
  ro_selector_rules :: "string list"
  ro_action :: route_action

record 'n routing_policy =
  rp_routes :: "'n route list"
  rp_default_action :: route_action
  rp_index :: "'n route_index"

record ('d, 'n) snapshot =
  sn_version :: u64
  sn_schema_version :: u32
  sn_users :: "(string \<times> 'd user) list"
  sn_policies :: "(string \<times> 'n routing_policy) list"
  sn_frontend_index :: "(string \<times> (string \<times> string) list) list"

definition snapshot_empty :: "('d, 'n) snapshot" where
  "snapshot_empty =
     \<lparr>sn_version = 0, sn_schema_version = SCHEMA_VERSION, sn_users = [], sn_policies = [],
      sn_frontend_index = []\<rparr>"

definition user_count :: "('d, 'n) snapshot \<Rightarrow> nat" where
  "user_count s = length (sn_users s)"

definition policy_count :: "('d, 'n) snapshot \<Rightarrow> nat" where
  "policy_count s = length (sn_policies s)"

definition from_routes :: "'n route list \<Rightarrow> route_action \<Rightarrow> 'n routing_policy" where
  "from_routes routes dflt =
     \<lparr>rp_routes = routes, rp_default_action = dflt,
      rp_index = fold (\<lambda>(idx, route). index_into (ro_selectors route) (word_of_nat idx))
                   (enumerate 0 routes) route_index_new\<rparr>"

section \<open>Compilation\<close>

definition MAX_SNAPSHOT_USERS :: nat where "MAX_SNAPSHOT_USERS = 100000"
definition MAX_SNAPSHOT_POLICIES :: nat where "MAX_SNAPSHOT_POLICIES = 10000"
definition MAX_SNAPSHOT_EGRESSES :: nat where "MAX_SNAPSHOT_EGRESSES = 10000"
definition MAX_SNAPSHOT_RULES :: nat where "MAX_SNAPSHOT_RULES = 200000"
definition MAX_SNAPSHOT_NODE_OVERRIDES :: nat where "MAX_SNAPSHOT_NODE_OVERRIDES = 10000"
definition MAX_CHAIN_MEMBERS :: nat where "MAX_CHAIN_MEMBERS = 16"
definition MAX_ADDRBOOK_SELECTOR_BYTES :: nat where "MAX_ADDRBOOK_SELECTOR_BYTES = 64 * 1024 * 1024"

datatype snapshot_error =
  UnsupportedSchema | WrongSchema | TooManyUsers | TooManyPolicies | TooManyOverrides | TooManyEgresses
| OverrideIdMissing | OverrideUnknownEgress string | EgressIdRequired | PolicyIdRequired
| UnsupportedKind | ReverseNeedsHop | ReverseCredentials | ReverseTls | SubnetraCredentials | SubnetraTls
| ActionEgressMissing | ActionEgressUnknown string
| ChainIdRequired | ChainEmpty | ChainTooLong | MemberIdRequired | MemberIdDuplicate string
| MemberPriorityDuplicate u32 | NestedChain | UpstreamIsChain
| RouteWithoutSelector | TooManyRules | SelectorError rule_error | SelectorOverflow | SelectorBudget
| UserPolicyRequired | UserPolicyUnknown string | BadExpire | FrontendClaimed string string

definition compile_upstream :: "raw_upstream \<Rightarrow> snapshot_error + upstream" where
  "compile_upstream u =
     (let k = to_ascii_lowercase (ru_kind u);
          kind = (if k = ''http'' \<or> k = ''https'' then Some Http
                  else if k = ''socks5'' \<or> k = ''socks'' then Some Socks5
                  else if k = ''reverse'' then Some Reverse
                  else if k = ''subnetra'' then Some Subnetra
                  else None);
          plain = (\<lambda>kd addr. \<lparr>u_kind = kd, u_addr = addr, u_username = None, u_password = None,
                     u_tls = False, u_skip_cert_verify = False\<rparr>)
      in case kind of
           None \<Rightarrow> Inl UnsupportedKind
         | Some Reverse \<Rightarrow>
             (let hop_id = trim (ru_addr u)
              in if hop_id = [] then Inl ReverseNeedsHop
                 else if ru_username u \<noteq> None \<or> ru_password u \<noteq> None then Inl ReverseCredentials
                 else if ru_tls u \<or> ru_skip_cert_verify u then Inl ReverseTls
                 else Inr (plain Reverse hop_id))
         | Some Subnetra \<Rightarrow>
             (if ru_username u \<noteq> None \<or> ru_password u \<noteq> None then Inl SubnetraCredentials
              else if ru_tls u \<or> ru_skip_cert_verify u then Inl SubnetraTls
              else Inr (plain Subnetra (ru_addr u)))
         | Some kd \<Rightarrow>
             Inr \<lparr>u_kind = kd, u_addr = ru_addr u, u_username = ru_username u, u_password = ru_password u,
                  u_tls = ru_tls u, u_skip_cert_verify = ru_skip_cert_verify u\<rparr>)"

definition compile_action :: "(string \<rightharpoonup> egress) \<Rightarrow> raw_action \<Rightarrow> snapshot_error + route_action" where
  "compile_action egresses action =
     (case action of
        RawEgressAction e \<Rightarrow>
          (let egress = trim e
           in if egress = [] then Inl ActionEgressMissing
              else case egresses egress of
                     None \<Rightarrow> Inl (ActionEgressUnknown egress)
                   | Some eg \<Rightarrow> Inr (ActEgress eg))
      | RawDirect \<Rightarrow> Inr ActDirect
      | RawBlock \<Rightarrow> Inr ActBlock)"

fun compile_members ::
  "raw_chain_member list \<Rightarrow> string list \<Rightarrow> u32 list \<Rightarrow> snapshot_error + chain_member list" where
  "compile_members [] ids prios = Inr []"
| "compile_members (m # ms) ids prios =
     (let member_id = trim (rcm_id m)
      in if member_id = [] then Inl MemberIdRequired
         else if member_id \<in> set ids then Inl (MemberIdDuplicate member_id)
         else if rcm_priority m \<in> set prios then Inl (MemberPriorityDuplicate (rcm_priority m))
         else if to_ascii_lowercase (ru_kind (rcm_backend m)) = ''chain'' then Inl NestedChain
         else case compile_upstream (rcm_backend m) of
                Inl e \<Rightarrow> Inl e
              | Inr up \<Rightarrow>
                  (case compile_members ms (member_id # ids) (rcm_priority m # prios) of
                     Inl e \<Rightarrow> Inl e
                   | Inr rest \<Rightarrow>
                       Inr (\<lparr>m_id = member_id, m_priority = rcm_priority m, m_upstream = up\<rparr> # rest)))"

definition compile_chain :: "string \<Rightarrow> raw_chain_member list \<Rightarrow> snapshot_error + chain" where
  "compile_chain cid raw_members =
     (if trim cid = [] then Inl ChainIdRequired
      else if raw_members = [] then Inl ChainEmpty
      else if MAX_CHAIN_MEMBERS < length raw_members then Inl ChainTooLong
      else case compile_members raw_members [] [] of
             Inl e \<Rightarrow> Inl e
           | Inr members \<Rightarrow> Inr \<lparr>ch_id = cid, ch_members = sort_key m_priority members\<rparr>)"

definition compile_egress :: "string \<Rightarrow> raw_egress \<Rightarrow> snapshot_error + egress" where
  "compile_egress eid raw =
     (case raw of
        RawUpstreamEgress backend \<Rightarrow>
          (if to_ascii_lowercase (ru_kind backend) = ''chain'' then Inl UpstreamIsChain
           else case compile_upstream backend of
                  Inl e \<Rightarrow> Inl e
                | Inr up \<Rightarrow> Inr \<lparr>eg_id = eid, eg_kind = EgressUpstream up\<rparr>)
      | RawChainEgress members \<Rightarrow>
          (case compile_chain eid members of
             Inl e \<Rightarrow> Inl e
           | Inr ch \<Rightarrow> Inr \<lparr>eg_id = eid, eg_kind = EgressChain ch\<rparr>))"

fun apply_overrides ::
  "(string \<times> raw_egress) list \<Rightarrow> (string \<times> raw_egress) list \<Rightarrow> snapshot_error + (string \<times> raw_egress) list" where
  "apply_overrides [] base = Inr base"
| "apply_overrides ((eid, eg) # ovs) base =
     (if trim eid = [] then Inl OverrideIdMissing
      else if map_of base eid = None then Inl (OverrideUnknownEgress eid)
      else apply_overrides ovs (AList.update eid eg base))"

fun compile_egresses :: "(string \<times> raw_egress) list \<Rightarrow> (string \<rightharpoonup> egress) \<Rightarrow> snapshot_error + (string \<rightharpoonup> egress)" where
  "compile_egresses [] acc = Inr acc"
| "compile_egresses ((eid, raw) # rest) acc =
     (if trim eid = [] then Inl EgressIdRequired
      else case compile_egress eid raw of
             Inl e \<Rightarrow> Inl e
           | Inr eg \<Rightarrow> compile_egresses rest (acc(eid \<mapsto> eg)))"

text \<open>
  What the compilation of routes threads along: the accounted selector allocations and their
  bytes, the rules counted so far, the book with its cache, and the number of rule sets compiled,
  which selects the allocator's and the other threads' choices.
\<close>

record build_state =
  bs_allocations :: "nat list"
  bs_bytes :: nat
  bs_total_rules :: nat
  bs_book :: "addr_book option"
  bs_calls :: nat

record compile_env =
  env_between :: "nat \<Rightarrow> selector_cache \<Rightarrow> selector_cache"
  env_address :: "nat \<Rightarrow> nat"

definition book_selector_allocation :: "nat \<Rightarrow> 'n rule_set \<Rightarrow> (nat \<times> nat) option" where
  "book_selector_allocation address rs =
     map_option (\<lambda>b. (address, 8 * length (sel_mask (br_selector b)))) (rs_book rs)"

definition account_book_selector ::
  "nat \<Rightarrow> nat \<Rightarrow> 'n rule_set \<Rightarrow> build_state \<Rightarrow> snapshot_error + build_state" where
  "account_book_selector limit address rs st =
     (case book_selector_allocation address rs of
        None \<Rightarrow> Inr st
      | Some (allocation, n) \<Rightarrow>
          if allocation \<in> set (bs_allocations st) then Inr st
          else let total = bs_bytes st + n
               in if 2 ^ 64 \<le> total then Inl SelectorOverflow
                  else if limit < total then Inl SelectorBudget
                  else Inr (st\<lparr>bs_allocations := allocation # bs_allocations st, bs_bytes := total\<rparr>))"

definition compile_route ::
  "'n ip_net \<Rightarrow> compile_env \<Rightarrow> (string \<rightharpoonup> egress) \<Rightarrow> raw_route \<Rightarrow> build_state \<Rightarrow>
   snapshot_error + 'n route \<times> build_state" where
  "compile_route N env egresses raw st =
     (let non_empty = length (filter (\<lambda>s. trim s \<noteq> []) (rr_selectors raw));
          total = min (2 ^ 64 - 1) (bs_total_rules st + non_empty)
      in if non_empty = 0 then Inl RouteWithoutSelector
         else if MAX_SNAPSHOT_RULES < total then Inl TooManyRules
         else case from_rules N (env_between env (bs_calls st)) (rr_selectors raw) (bs_book st) of
           (Inl e, _) \<Rightarrow> Inl (SelectorError e)
         | (Inr selectors, book') \<Rightarrow>
             let st' = st\<lparr>bs_total_rules := total, bs_book := book', bs_calls := bs_calls st + 1\<rparr>
             in case account_book_selector MAX_ADDRBOOK_SELECTOR_BYTES (env_address env (bs_calls st)) selectors st' of
                  Inl e \<Rightarrow> Inl e
                | Inr st'' \<Rightarrow>
                    (case compile_action egresses (rr_action raw) of
                       Inl e \<Rightarrow> Inl e
                     | Inr action \<Rightarrow>
                         Inr (\<lparr>ro_selectors = selectors, ro_selector_rules = rr_selectors raw, ro_action = action\<rparr>, st'')))"

fun compile_routes ::
  "'n ip_net \<Rightarrow> compile_env \<Rightarrow> (string \<rightharpoonup> egress) \<Rightarrow> raw_route list \<Rightarrow> build_state \<Rightarrow>
   snapshot_error + 'n route list \<times> build_state" where
  "compile_routes N env egresses [] st = Inr ([], st)"
| "compile_routes N env egresses (raw # raws) st =
     (case compile_route N env egresses raw st of
        Inl e \<Rightarrow> Inl e
      | Inr (route, st') \<Rightarrow>
          (case compile_routes N env egresses raws st' of
             Inl e \<Rightarrow> Inl e
           | Inr (routes, st'') \<Rightarrow> Inr (route # routes, st'')))"

fun compile_policies ::
  "'n ip_net \<Rightarrow> compile_env \<Rightarrow> (string \<rightharpoonup> egress) \<Rightarrow> (string \<times> raw_routing_policy) list \<Rightarrow> build_state \<Rightarrow>
   (string \<times> 'n routing_policy) list \<Rightarrow> snapshot_error + (string \<times> 'n routing_policy) list \<times> build_state" where
  "compile_policies N env egresses [] st acc = Inr (acc, st)"
| "compile_policies N env egresses ((pid, raw) # raws) st acc =
     (if trim pid = [] then Inl PolicyIdRequired
      else case (case rrp_default_action raw of
                   Some a \<Rightarrow> compile_action egresses a
                 | None \<Rightarrow> Inr ActDirect) of
             Inl e \<Rightarrow> Inl e
           | Inr dflt \<Rightarrow>
               (case compile_routes N env egresses (rrp_routes raw) st of
                  Inl e \<Rightarrow> Inl e
                | Inr (routes, st') \<Rightarrow>
                    compile_policies N env egresses raws st'
                      (AList.update pid (from_routes routes dflt) acc)))"

type_synonym frontend_map = "(string \<times> (string \<times> string) list) list"

definition frontend_keys :: "frontend_map \<Rightarrow> string \<Rightarrow> (string \<times> string) list" where
  "frontend_keys ix proto = (case map_of ix proto of Some keys \<Rightarrow> keys | None \<Rightarrow> [])"

text \<open>The lookup key of a credential, when it is indexed at all.\<close>

definition cred_key :: "string option \<Rightarrow> string option" where
  "cred_key uuid =
     (case uuid of
        None \<Rightarrow> None
      | Some u \<Rightarrow> let key = to_ascii_lowercase (trim u) in if key = [] then None else Some key)"

fun index_frontends ::
  "string \<Rightarrow> (string \<times> raw_frontend_cred) list \<Rightarrow> frontend_map \<Rightarrow> (string \<times> frontend_cred) list \<Rightarrow>
   snapshot_error + (string \<times> frontend_cred) list \<times> frontend_map" where
  "index_frontends name [] ix acc = Inr (acc, ix)"
| "index_frontends name ((proto, cred) # creds) ix acc =
     (let acc' = AList.update proto \<lparr>fc_uuid = rfc_uuid cred, fc_password = rfc_password cred\<rparr> acc
      in case cred_key (rfc_uuid cred) of
           None \<Rightarrow> index_frontends name creds ix acc'
         | Some key \<Rightarrow>
             (let keys = frontend_keys ix proto
              in case map_of keys key of
                   Some prev \<Rightarrow> Inl (FrontendClaimed prev name)
                 | None \<Rightarrow> index_frontends name creds (AList.update proto (AList.update key name keys) ix) acc'))"

definition compile_user ::
  "(string \<Rightarrow> 'd option) \<Rightarrow> string \<Rightarrow> raw_user \<Rightarrow> frontend_map \<Rightarrow> snapshot_error + 'd user \<times> frontend_map" where
  "compile_user parse_date name u ix =
     (let expire = (case raw_expire u of
             Some s \<Rightarrow> if trim s \<noteq> [] then
                 (case parse_date (trim s) of None \<Rightarrow> Inl BadExpire | Some d \<Rightarrow> Inr (Some d))
               else Inr None
           | None \<Rightarrow> Inr None)
      in case expire of
           Inl e \<Rightarrow> Inl e
         | Inr ex \<Rightarrow>
             (case index_frontends name (raw_frontends u) ix [] of
                Inl e \<Rightarrow> Inl e
              | Inr (frontends, ix') \<Rightarrow>
                  Inr (\<lparr>us_password = raw_password u, us_expire = ex, us_up_rate = raw_up_rate u,
                        us_down_rate = raw_down_rate u, us_max_connections = raw_max_connections u,
                        us_policy = raw_policy u, us_frontends = frontends\<rparr>, ix')))"

fun compile_users ::
  "(string \<Rightarrow> 'd option) \<Rightarrow> (string \<times> 'n routing_policy) list \<Rightarrow> (string \<times> raw_user) list \<Rightarrow>
   (string \<times> 'd user) list \<Rightarrow> frontend_map \<Rightarrow> snapshot_error + (string \<times> 'd user) list \<times> frontend_map" where
  "compile_users parse_date policies [] acc ix = Inr (acc, ix)"
| "compile_users parse_date policies ((name, u) # us) acc ix =
     (if trim (raw_policy u) = [] then Inl UserPolicyRequired
      else if map_of policies (raw_policy u) = None then Inl (UserPolicyUnknown (raw_policy u))
      else case compile_user parse_date name u ix of
             Inl e \<Rightarrow> Inl e
           | Inr (user, ix') \<Rightarrow> compile_users parse_date policies us (AList.update name user acc) ix')"

definition node_egresses :: "raw_snapshot \<Rightarrow> string \<Rightarrow> snapshot_error + (string \<times> raw_egress) list" where
  "node_egresses raw node_id =
     (case map_of (node_overrides raw) node_id of
        Some ov \<Rightarrow> apply_overrides (no_egresses ov) (raw_egresses raw)
      | None \<Rightarrow> Inr (raw_egresses raw))"

definition build_start :: "addr_book option \<Rightarrow> build_state" where
  "build_start book =
     \<lparr>bs_allocations = [], bs_bytes = 0, bs_total_rules = 0,
      bs_book = map_option prune_selector_cache book, bs_calls = 0\<rparr>"

definition compile_checked ::
  "'n ip_net \<Rightarrow> (string \<Rightarrow> 'd option) \<Rightarrow> compile_env \<Rightarrow> raw_snapshot \<Rightarrow> string \<Rightarrow> addr_book option \<Rightarrow>
   snapshot_error + ('d, 'n) snapshot" where
  "compile_checked N parse_date env raw node_id book =
     (if \<not> schema_version_supported (raw_schema_version raw) MAX_SUPPORTED_SCHEMA_VERSION then Inl UnsupportedSchema
      else if raw_schema_version raw \<noteq> SCHEMA_VERSION then Inl WrongSchema
      else if MAX_SNAPSHOT_USERS < length (raw_users raw) then Inl TooManyUsers
      else if MAX_SNAPSHOT_POLICIES < length (raw_routing_policies raw) then Inl TooManyPolicies
      else if MAX_SNAPSHOT_NODE_OVERRIDES < length (node_overrides raw) then Inl TooManyOverrides
      else and_then (node_egresses raw node_id) (\<lambda>egs.
        and_then (ensure (length egs \<le> MAX_SNAPSHOT_EGRESSES) TooManyEgresses) (\<lambda>_.
        and_then (compile_egresses egs Map.empty) (\<lambda>egresses.
        and_then (compile_policies N env egresses (raw_routing_policies raw) (build_start book) []) (\<lambda>(policies, st).
        and_then (compile_users parse_date policies (raw_users raw) [] []) (\<lambda>(users, ix).
        Inr \<lparr>sn_version = raw_version raw, sn_schema_version = raw_schema_version raw, sn_users = users,
             sn_policies = policies, sn_frontend_index = ix\<rparr>))))))"

definition compile_with_book ::
  "'n ip_net \<Rightarrow> (string \<Rightarrow> 'd option) \<Rightarrow> compile_env \<Rightarrow> raw_snapshot \<Rightarrow> string \<Rightarrow> addr_book option \<Rightarrow>
   snapshot_error + ('d, 'n) snapshot" where
  "compile_with_book N parse_date env raw node_id book = compile_checked N parse_date env raw node_id book"

definition compile_snapshot ::
  "'n ip_net \<Rightarrow> (string \<Rightarrow> 'd option) \<Rightarrow> compile_env \<Rightarrow> raw_snapshot \<Rightarrow> string \<Rightarrow> snapshot_error + ('d, 'n) snapshot" where
  "compile_snapshot N parse_date env raw node_id = compile_with_book N parse_date env raw node_id None"

definition decode_snapshot :: "('b \<Rightarrow> raw_snapshot option) \<Rightarrow> 'b \<Rightarrow> raw_snapshot option" where
  "decode_snapshot from_slice bs =
     (case from_slice bs of
        None \<Rightarrow> None
      | Some doc \<Rightarrow>
          if schema_version_supported (raw_schema_version doc) MAX_SUPPORTED_SCHEMA_VERSION then Some doc else None)"

section \<open>What compiled egresses satisfy\<close>

definition upstream_ok :: "upstream \<Rightarrow> bool" where
  "upstream_ok u \<longleftrightarrow>
     (u_kind u \<in> {Reverse, Subnetra} \<longrightarrow>
        u_username u = None \<and> u_password u = None \<and> \<not> u_tls u \<and> \<not> u_skip_cert_verify u) \<and>
     (u_kind u = Reverse \<longrightarrow> u_addr u \<noteq> [])"

definition chain_ok :: "chain \<Rightarrow> bool" where
  "chain_ok ch \<longleftrightarrow>
     ch_members ch \<noteq> [] \<and> length (ch_members ch) \<le> MAX_CHAIN_MEMBERS \<and>
     sorted_wrt (\<lambda>a b. m_priority a < m_priority b) (ch_members ch) \<and>
     distinct (map m_id (ch_members ch)) \<and>
     list_all (\<lambda>m. m_id m \<noteq> [] \<and> upstream_ok (m_upstream m)) (ch_members ch)"

definition egress_ok :: "egress \<Rightarrow> bool" where
  "egress_ok eg = (case eg_kind eg of EgressUpstream u \<Rightarrow> upstream_ok u | EgressChain ch \<Rightarrow> chain_ok ch)"

lemma compile_upstream_ok: "compile_upstream raw = Inr u \<Longrightarrow> upstream_ok u"
  by (auto simp: compile_upstream_def upstream_ok_def Let_def split: if_splits option.splits upstream_kind.splits)

lemma compile_members_ok:
  "compile_members raws ids prios = Inr ms \<Longrightarrow>
     length ms = length raws \<and> distinct (map m_id ms) \<and> distinct (map m_priority ms) \<and>
     set (map m_id ms) \<inter> set ids = {} \<and> set (map m_priority ms) \<inter> set prios = {} \<and>
     (\<forall>m \<in> set ms. m_id m \<noteq> [] \<and> upstream_ok (m_upstream m))"
proof (induction raws arbitrary: ids prios ms)
  case (Cons r raws)
  let ?id = "trim (rcm_id r)" and ?pr = "rcm_priority r"
  from Cons.prems obtain up rest where
    fresh: "?id \<noteq> []" "?id \<notin> set ids" "?pr \<notin> set prios" and up: "compile_upstream (rcm_backend r) = Inr up"
    and rest: "compile_members raws (?id # ids) (?pr # prios) = Inr rest"
    and ms: "ms = \<lparr>m_id = ?id, m_priority = ?pr, m_upstream = up\<rparr> # rest"
    by (auto simp: Let_def split: if_splits sum.splits)
  from Cons.IH [OF rest] fresh compile_upstream_ok [OF up] show ?case
    by (auto simp: ms)
qed simp

lemma compile_chain_ok:
  assumes "compile_chain cid raws = Inr ch"
  shows "chain_ok ch"
proof -
  from assms obtain ms where ms: "compile_members raws [] [] = Inr ms"
    and ch: "ch = \<lparr>ch_id = cid, ch_members = sort_key m_priority ms\<rparr>"
    and len: "raws \<noteq> []" "length raws \<le> MAX_CHAIN_MEMBERS"
    by (auto simp: compile_chain_def split: if_splits sum.splits)
  note ok = compile_members_ok [OF ms]
  have "distinct (map m_priority (sort_key m_priority ms))" "distinct (map m_id (sort_key m_priority ms))"
    using ok by (metis distinct_map distinct_sort set_sort)+
  then have "sorted_wrt (<) (map m_priority (sort_key m_priority ms))"
    by (simp add: strict_sorted_iff)
  moreover have "sort_key m_priority ms \<noteq> []"
    using ok len by (metis length_0_conv length_sort)
  ultimately show ?thesis
    using ok len \<open>distinct (map m_id _)\<close>
    by (auto simp: chain_ok_def ch sorted_wrt_map list_all_iff)
qed

lemma compile_egress_ok: "compile_egress eid raw = Inr eg \<Longrightarrow> egress_ok eg \<and> eg_id eg = eid"
  by (auto simp: compile_egress_def egress_ok_def compile_upstream_ok compile_chain_ok
      split: raw_egress.splits if_splits sum.splits)

text \<open>The egress a node uses under an id: its override where it has one, else the base egress.\<close>

definition effective_egress :: "raw_snapshot \<Rightarrow> string \<Rightarrow> string \<Rightarrow> raw_egress option" where
  "effective_egress raw node_id eid =
     (case map_of (node_overrides raw) node_id of
        None \<Rightarrow> map_of (raw_egresses raw) eid
      | Some ov \<Rightarrow> (case map_of (no_egresses ov) eid of
          Some e \<Rightarrow> Some e
        | None \<Rightarrow> map_of (raw_egresses raw) eid))"

text \<open>Maps of a decoded document have distinct keys.\<close>

definition doc_ok :: "raw_snapshot \<Rightarrow> bool" where
  "doc_ok raw \<longleftrightarrow>
     distinct (map fst (raw_users raw)) \<and> distinct (map fst (raw_routing_policies raw)) \<and>
     distinct (map fst (raw_egresses raw)) \<and> distinct (map fst (node_overrides raw)) \<and>
     list_all (\<lambda>(_, ov). distinct (map fst (no_egresses ov))) (node_overrides raw) \<and>
     list_all (\<lambda>(_, u). distinct (map fst (raw_frontends u))) (raw_users raw)"

lemma apply_overrides_map:
  "apply_overrides ovs base = Inr egs \<Longrightarrow> distinct (map fst ovs) \<Longrightarrow> distinct (map fst base) \<Longrightarrow>
     distinct (map fst egs) \<and>
     map_of egs eid = (case map_of ovs eid of Some e \<Rightarrow> Some e | None \<Rightarrow> map_of base eid)"
proof (induction ovs arbitrary: base)
  case (Cons ov ovs)
  obtain k e where ov: "ov = (k, e)" by fastforce
  from Cons.prems have "apply_overrides ovs (AList.update k e base) = Inr egs"
    by (simp add: ov split: if_splits)
  from Cons.IH [OF this] Cons.prems show ?case
    by (auto simp: ov distinct_update update_conv' map_of_eq_None_iff [symmetric] simp del: map_of_eq_None_iff
        split: option.splits)
qed auto

lemma node_egresses_map:
  assumes "doc_ok raw" and "node_egresses raw node_id = Inr egs"
  shows "distinct (map fst egs)" and "map_of egs eid = effective_egress raw node_id eid"
proof -
  have "distinct (map fst egs) \<and> map_of egs eid = effective_egress raw node_id eid"
  proof (cases "map_of (node_overrides raw) node_id")
    case None
    with assms show ?thesis by (simp add: node_egresses_def effective_egress_def doc_ok_def)
  next
    case (Some ov)
    then have "(node_id, ov) \<in> set (node_overrides raw)" by (rule map_of_SomeD)
    with assms(1) have "distinct (map fst (no_egresses ov))" "distinct (map fst (raw_egresses raw))"
      by (auto simp: doc_ok_def list_all_iff)
    moreover have "apply_overrides (no_egresses ov) (raw_egresses raw) = Inr egs"
      using assms(2) Some by (simp add: node_egresses_def)
    ultimately show ?thesis
      using apply_overrides_map [of "no_egresses ov" "raw_egresses raw" egs eid] Some
      by (simp add: effective_egress_def)
  qed
  then show "distinct (map fst egs)" and "map_of egs eid = effective_egress raw node_id eid" by simp_all
qed

lemma compile_egresses_map:
  "compile_egresses egs acc = Inr tbl \<Longrightarrow> distinct (map fst egs) \<Longrightarrow>
     (case map_of egs eid of
        None \<Rightarrow> tbl eid = acc eid
      | Some raw \<Rightarrow> (\<exists>eg. compile_egress eid raw = Inr eg \<and> tbl eid = Some eg))"
proof (induction egs arbitrary: acc)
  case (Cons e egs)
  obtain k raw where e: "e = (k, raw)" by fastforce
  from Cons.prems obtain eg where eg: "compile_egress k raw = Inr eg"
    and rest: "compile_egresses egs (acc(k \<mapsto> eg)) = Inr tbl"
    by (auto simp: e split: if_splits sum.splits)
  from Cons.IH [OF rest] Cons.prems(2) eg show ?case
    by (auto simp: e map_of_eq_None_iff [symmetric] simp del: map_of_eq_None_iff map_of_eq_Some_iff
        split: option.splits if_splits)
qed simp

text \<open>The compiled action a document's action denotes on a node.\<close>

definition resolve_action :: "raw_snapshot \<Rightarrow> string \<Rightarrow> raw_action \<Rightarrow> route_action option" where
  "resolve_action raw node_id a =
     (case a of
        RawDirect \<Rightarrow> Some ActDirect
      | RawBlock \<Rightarrow> Some ActBlock
      | RawEgressAction e \<Rightarrow> (case effective_egress raw node_id (trim e) of
          None \<Rightarrow> None
        | Some re \<Rightarrow> (case compile_egress (trim e) re of Inl _ \<Rightarrow> None | Inr eg \<Rightarrow> Some (ActEgress eg))))"

lemma compile_action_resolves:
  assumes "\<And>eid. case effective_egress raw node_id eid of
      None \<Rightarrow> tbl eid = None
    | Some re \<Rightarrow> (\<exists>eg. compile_egress eid re = Inr eg \<and> tbl eid = Some eg)"
    and "compile_action tbl a = Inr act"
  shows "resolve_action raw node_id a = Some act"
proof (cases a)
  case (RawEgressAction e)
  with assms(2) assms(1) [of "trim e"] show ?thesis
    by (auto simp: compile_action_def resolve_action_def Let_def split: if_splits option.splits)
qed (use assms(2) in \<open>auto simp: compile_action_def resolve_action_def\<close>)

lemma resolve_action_ok: "resolve_action raw node_id a = Some (ActEgress eg) \<Longrightarrow> egress_ok eg"
  by (auto simp: resolve_action_def compile_egress_ok split: raw_action.splits option.splits sum.splits)

section \<open>What compiled routes and policies satisfy\<close>

definition env_ok :: "compile_env \<Rightarrow> addr_book option \<Rightarrow> bool" where
  "env_ok env book =
     (case book of
        None \<Rightarrow> True
      | Some b \<Rightarrow> book_wf b \<and> validate (ab_raw b) = None \<and>
          distinct (map fst (cache b)) \<and> cache_ok b (cache b) \<and>
          (\<forall>i c. cache_ok b c \<longrightarrow> cache_ok b (env_between env i c)))"

text \<open>The book met during compilation is the given one up to its selector cache, which stays correct.\<close>

fun book_state :: "addr_book option \<Rightarrow> addr_book option \<Rightarrow> bool" where
  "book_state None cur \<longleftrightarrow> cur = None"
| "book_state (Some b) cur \<longleftrightarrow>
     (\<exists>b'. cur = Some b' \<and> ab_raw b' = ab_raw b \<and> name_index b' = name_index b \<and>
        checksum b' = checksum b \<and> cache_ok b (cache b'))"

lemma book_state_start:
  assumes "env_ok env book"
  shows "book_state book (bs_book (build_start book))"
proof (cases book)
  case (Some b)
  have "cache_ok b (filter (\<lambda>(k, v). v \<noteq> None) (cache b))"
    unfolding cache_ok_def
  proof (intro allI impI)
    fix names m
    assume "map_of (filter (\<lambda>(k, v). v \<noteq> None) (cache b)) names = Some (Some m)"
    then have "(names, Some m) \<in> set (cache b)" by (auto dest!: map_of_SomeD)
    then have "map_of (cache b) names = Some (Some m)"
      using assms Some by (simp add: env_ok_def)
    then show "select_all b names = Inr m"
      using assms Some by (simp add: env_ok_def cache_ok_def)
  qed
  with Some show ?thesis by (simp add: build_start_def prune_selector_cache_def)
qed (simp add: build_start_def)

lemma book_state_ready:
  assumes "env_ok env book" and "book_state book cur"
  shows "book_ready (env_between env i) cur"
proof (cases book)
  case (Some b)
  with assms(2) obtain b' where b': "cur = Some b'" "ab_raw b' = ab_raw b" "name_index b' = name_index b"
    "checksum b' = checksum b" "cache_ok b (cache b')" by auto
  have "cache_ok b' c = cache_ok b c" for c
    using b' by (intro cache_ok_cong) simp_all
  with assms(1) b' Some show ?thesis
    by (simp add: env_ok_def book_ready_def book_wf_def from_raw_def)
qed (use assms in \<open>simp add: book_ready_def\<close>)

lemma from_rules_state:
  assumes "env_ok env book" and "book_state book cur"
  shows "book_state book (snd (from_rules N (env_between env i) rules cur))"
proof (cases book)
  case None
  with assms(2) show ?thesis
    by (auto simp: from_rules_def split: sum.split prod.split)
next
  case (Some b)
  with assms(2) obtain b' where b': "cur = Some b'" "ab_raw b' = ab_raw b" "name_index b' = name_index b"
    "checksum b' = checksum b" "cache_ok b (cache b')" by auto
  have cong: "cache_ok b' c = cache_ok b c" for c
    using b' by (intro cache_ok_cong) simp_all
  have "cache_ok b' (cache (snd (resolve (env_between env i) b' ps)))" for ps
    using assms(1) Some b'(5) by (intro resolve_transparent(2)) (simp_all add: cong env_ok_def)
  then have resolved: "book_state book (Some (snd (resolve (env_between env i) b' ps)))" for ps
    using b' by (simp add: Some resolve_keeps_book cong)
  show ?thesis
  proof (cases "collect_rules N rules rule_set_new []")
    case (Inl e)
    with assms(2) show ?thesis by (simp add: from_rules_def)
  next
    case (Inr rsps)
    obtain rs ps where rsps: "rsps = (rs, ps)" by fastforce
    have "snd (from_rules N (env_between env i) rules cur) =
        (if ps = [] then cur else Some (snd (resolve (env_between env i) b' ps)))"
      using Inr by (simp add: from_rules_def rsps b'(1) split: prod.split sum.split)
    with assms(2) resolved show ?thesis by simp
  qed
qed

lemma rule_hits_state: "book_state book cur \<Longrightarrow> rule_hits N cur = rule_hits N book"
proof (cases book)
  case (Some b)
  assume "book_state book cur"
  with Some obtain b' where b': "cur = Some b'" "ab_raw b' = ab_raw b" by auto
  have "lookup_categories b' host = lookup_categories b host" for host
    unfolding lookup_categories_def lookup_mask_def b'(2) by (rule refl)
  with b' Some show ?thesis
    by (intro ext) (simp add: rule_hits_def book_rule_hits_def split: option.split)
qed simp

definition route_ok ::
  "'n ip_net \<Rightarrow> addr_book option \<Rightarrow> (string \<rightharpoonup> egress) \<Rightarrow> raw_route \<Rightarrow> 'n route \<Rightarrow> bool" where
  "route_ok N book tbl raw route \<longleftrightarrow>
     ro_selector_rules route = rr_selectors raw \<and>
     list_ex (\<lambda>s. trim s \<noteq> []) (rr_selectors raw) \<and>
     compile_action tbl (rr_action raw) = Inr (ro_action route) \<and>
     matcher_wf (rs_domains (ro_selectors route)) \<and>
     (\<forall>host. rs_matches N (ro_selectors route) host \<longleftrightarrow> list_ex (\<lambda>r. rule_hits N book r host) (rr_selectors raw))"

lemma account_book_selector_keeps:
  "account_book_selector limit a rs st = Inr st' \<Longrightarrow>
     bs_total_rules st' = bs_total_rules st \<and> bs_book st' = bs_book st \<and>
     (bs_bytes st \<le> limit \<longrightarrow> bs_bytes st' \<le> limit)"
  by (auto simp: account_book_selector_def Let_def split: option.splits if_splits prod.splits)

lemma compile_route_ok:
  assumes "ipnet_ok N" and "env_ok env book" and "book_state book (bs_book st)"
    and "compile_route N env tbl raw st = Inr (route, st')"
  shows "route_ok N book tbl raw route" and "book_state book (bs_book st')"
    and "bs_total_rules st < bs_total_rules st'" and "bs_total_rules st' \<le> MAX_SNAPSHOT_RULES"
proof -
  let ?ne = "length (filter (\<lambda>s. trim s \<noteq> []) (rr_selectors raw))"
  let ?run = "from_rules N (env_between env (bs_calls st)) (rr_selectors raw) (bs_book st)"
  from assms(4) obtain sel where
    ne: "?ne \<noteq> 0" "min (2 ^ 64 - 1) (bs_total_rules st + ?ne) \<le> MAX_SNAPSHOT_RULES"
    and sel: "fst ?run = Inr sel"
    and acc: "account_book_selector MAX_ADDRBOOK_SELECTOR_BYTES (env_address env (bs_calls st)) sel
        (st\<lparr>bs_total_rules := min (2 ^ 64 - 1) (bs_total_rules st + ?ne), bs_book := snd ?run, bs_calls := bs_calls st + 1\<rparr>) = Inr st'"
    and act: "compile_action tbl (rr_action raw) = Inr (ro_action route)"
    and route: "ro_selectors route = sel" "ro_selector_rules route = rr_selectors raw"
    by (auto simp: compile_route_def Let_def simp del: length_0_conv length_greater_0_conv
        split: if_splits prod.splits sum.splits)
  note kept = account_book_selector_keeps [OF acc]
  have "\<forall>host. rs_matches N sel host \<longleftrightarrow> list_ex (\<lambda>r. rule_hits N (bs_book st) r host) (rr_selectors raw)"
    using from_rules_meaning [OF assms(1) book_state_ready [where i = "bs_calls st", OF assms(2,3)],
        of "rr_selectors raw"] sel
    by simp
  moreover have "matcher_wf (rs_domains sel)" using sel by (rule from_rules_wf)
  moreover have "list_ex (\<lambda>s. trim s \<noteq> []) (rr_selectors raw)"
    using ne(1) by (auto simp: list_ex_iff filter_empty_conv)
  ultimately show "route_ok N book tbl raw route"
    using act route by (simp add: route_ok_def rule_hits_state [OF assms(3)])
  show "book_state book (bs_book st')"
    using kept from_rules_state [OF assms(2,3)] by simp
  have "min (2 ^ 64 - 1) (bs_total_rules st + ?ne) = bs_total_rules st + ?ne"
    using ne(2) by (simp add: MAX_SNAPSHOT_RULES_def min_def split: if_splits)
  then show "bs_total_rules st < bs_total_rules st'" "bs_total_rules st' \<le> MAX_SNAPSHOT_RULES"
    using kept ne by simp_all
qed

lemma compile_routes_ok:
  assumes "ipnet_ok N" and "env_ok env book"
  shows "book_state book (bs_book st) \<Longrightarrow> bs_total_rules st \<le> MAX_SNAPSHOT_RULES \<Longrightarrow>
    compile_routes N env tbl raws st = Inr (routes, st') \<Longrightarrow>
    list_all2 (route_ok N book tbl) raws routes \<and> book_state book (bs_book st') \<and>
    bs_total_rules st + length routes \<le> bs_total_rules st' \<and> bs_total_rules st' \<le> MAX_SNAPSHOT_RULES"
proof (induction raws arbitrary: st routes)
  case (Cons raw raws)
  from Cons.prems(3) obtain r st1 rs where r: "compile_route N env tbl raw st = Inr (r, st1)"
    and rs: "compile_routes N env tbl raws st1 = Inr (rs, st')" and routes: "routes = r # rs"
    by (auto split: sum.splits prod.splits)
  note ok = compile_route_ok [OF assms Cons.prems(1) r]
  from Cons.IH [OF ok(2,4) rs] ok(1,3) show ?case by (simp add: routes)
qed simp

definition policy_ok ::
  "'n ip_net \<Rightarrow> addr_book option \<Rightarrow> (string \<rightharpoonup> egress) \<Rightarrow> raw_routing_policy \<Rightarrow> 'n routing_policy \<Rightarrow> bool" where
  "policy_ok N book tbl raw p \<longleftrightarrow>
     list_all2 (route_ok N book tbl) (rrp_routes raw) (rp_routes p) \<and>
     length (rp_routes p) \<le> MAX_SNAPSHOT_RULES \<and>
     (case rrp_default_action raw of
        None \<Rightarrow> rp_default_action p = ActDirect
      | Some a \<Rightarrow> compile_action tbl a = Inr (rp_default_action p)) \<and>
     rp_index p = index_rules (map ro_selectors (rp_routes p))"

lemma from_routes_fields [simp]:
  "rp_routes (from_routes routes dflt) = routes" "rp_default_action (from_routes routes dflt) = dflt"
  by (simp_all add: from_routes_def)

lemma from_routes_index: "rp_index (from_routes routes dflt) = index_rules (map ro_selectors routes)"
proof -
  have "fold (\<lambda>(i, r). index_into (ro_selectors r) (word_of_nat i)) (enumerate n routes) ix =
      fold (\<lambda>(i, rs). index_into rs (word_of_nat i)) (enumerate n (map ro_selectors routes)) ix" for n ix
    by (induction routes arbitrary: n ix) auto
  then show ?thesis by (simp add: from_routes_def index_rules_def)
qed

lemma compile_policies_ok:
  assumes "ipnet_ok N" and "env_ok env book"
  shows "book_state book (bs_book st) \<Longrightarrow> bs_total_rules st \<le> MAX_SNAPSHOT_RULES \<Longrightarrow> distinct (map fst raws) \<Longrightarrow>
    compile_policies N env tbl raws st acc = Inr (policies, st') \<Longrightarrow>
    (case map_of raws pid of
       None \<Rightarrow> map_of policies pid = map_of acc pid
     | Some raw \<Rightarrow> (\<exists>p. map_of policies pid = Some p \<and> policy_ok N book tbl raw p))"
proof (induction raws arbitrary: st acc)
  case (Cons e raws)
  obtain k raw where e: "e = (k, raw)" by fastforce
  from Cons.prems(4) obtain dflt routes st1 where
    dflt: "case rrp_default_action raw of None \<Rightarrow> dflt = ActDirect | Some a \<Rightarrow> compile_action tbl a = Inr dflt"
    and routes: "compile_routes N env tbl (rrp_routes raw) st = Inr (routes, st1)"
    and rest: "compile_policies N env tbl raws st1 (AList.update k (from_routes routes dflt) acc) = Inr (policies, st')"
    by (auto simp: e split: if_splits option.splits sum.splits prod.splits)
  note ok = compile_routes_ok [OF assms Cons.prems(1,2) routes]
  have "policy_ok N book tbl raw (from_routes routes dflt)"
    using ok dflt by (simp add: policy_ok_def from_routes_index split: option.splits)
  with Cons.IH [OF _ _ _ rest] ok Cons.prems(3) show ?case
    by (auto simp: e update_conv' map_of_eq_None_iff [symmetric]
        simp del: map_of_eq_None_iff map_of_eq_Some_iff split: option.splits)
qed simp

section \<open>What compiled users satisfy\<close>

lemma frontend_keys_update:
  "frontend_keys (AList.update proto keys ix) p = (if p = proto then keys else frontend_keys ix p)"
  by (simp add: frontend_keys_def update_conv')

lemma index_frontends_ok:
  "index_frontends name creds ix acc = Inr (fr, ix') \<Longrightarrow> distinct (map fst creds) \<Longrightarrow>
     map_of fr proto = (case map_of creds proto of
       Some c \<Rightarrow> Some \<lparr>fc_uuid = rfc_uuid c, fc_password = rfc_password c\<rparr> | None \<Rightarrow> map_of acc proto) \<and>
     (map_of (frontend_keys ix' proto) key = Some n \<longleftrightarrow>
        map_of (frontend_keys ix proto) key = Some n \<or>
        n = name \<and> (\<exists>c. map_of creds proto = Some c \<and> cred_key (rfc_uuid c) = Some key))"
proof (induction creds arbitrary: ix acc)
  case (Cons e creds)
  obtain p c where e: "e = (p, c)" by fastforce
  let ?acc = "AList.update p \<lparr>fc_uuid = rfc_uuid c, fc_password = rfc_password c\<rparr> acc"
  have none: "map_of creds p = None"
    using Cons.prems(2) by (simp add: e map_of_eq_None_iff)
  show ?case
  proof (cases "cred_key (rfc_uuid c)")
    case None
    with Cons.prems have "index_frontends name creds ix ?acc = Inr (fr, ix')" by (simp add: e)
    from Cons.IH [OF this] Cons.prems(2) none None show ?thesis
      by (auto simp: e update_conv' simp del: map_of_eq_None_iff map_of_eq_Some_iff split: option.splits)
  next
    case (Some k)
    let ?keys = "frontend_keys ix p"
    from Some Cons.prems have free: "map_of ?keys k = None"
      and rest: "index_frontends name creds (AList.update p (AList.update k name ?keys) ix) ?acc = Inr (fr, ix')"
      by (auto simp: e Let_def split: option.splits)
    from Cons.IH [OF rest] Cons.prems(2) none Some free show ?thesis
      by (auto simp: e update_conv' frontend_keys_update simp del: map_of_eq_None_iff map_of_eq_Some_iff
          split: option.splits if_splits)
  qed
qed simp

text \<open>The index holds exactly the keys of the credentials of the compiled users.\<close>

definition frontend_index_ok :: "(string \<times> 'd user) list \<Rightarrow> frontend_map \<Rightarrow> bool" where
  "frontend_index_ok users ix \<longleftrightarrow>
     (\<forall>proto key n. map_of (frontend_keys ix proto) key = Some n \<longleftrightarrow>
        (\<exists>u c. map_of users n = Some u \<and> map_of (us_frontends u) proto = Some c \<and> cred_key (fc_uuid c) = Some key))"

definition user_ok :: "(string \<Rightarrow> 'd option) \<Rightarrow> raw_user \<Rightarrow> 'd user \<Rightarrow> bool" where
  "user_ok parse_date raw u \<longleftrightarrow>
     us_password u = raw_password raw \<and> us_policy u = raw_policy raw \<and> us_up_rate u = raw_up_rate raw \<and>
     us_down_rate u = raw_down_rate raw \<and> us_max_connections u = raw_max_connections raw \<and>
     us_expire u = (case raw_expire raw of
       Some s \<Rightarrow> if trim s = [] then None else parse_date (trim s) | None \<Rightarrow> None) \<and>
     (us_expire u = None \<longrightarrow> (case raw_expire raw of Some s \<Rightarrow> trim s = [] | None \<Rightarrow> True)) \<and>
     (\<forall>proto. map_of (us_frontends u) proto =
        map_option (\<lambda>c. \<lparr>fc_uuid = rfc_uuid c, fc_password = rfc_password c\<rparr>) (map_of (raw_frontends raw) proto))"

lemma compile_user_ok:
  assumes "compile_user parse_date name raw ix = Inr (u, ix')" and "distinct (map fst (raw_frontends raw))"
  shows "user_ok parse_date raw u"
    and "map_of (frontend_keys ix' proto) key = Some n \<longleftrightarrow> map_of (frontend_keys ix proto) key = Some n \<or>
      n = name \<and> (\<exists>c. map_of (us_frontends u) proto = Some c \<and> cred_key (fc_uuid c) = Some key)"
proof -
  from assms(1) obtain fr where fr: "index_frontends name (raw_frontends raw) ix [] = Inr (fr, ix')"
    and u: "us_frontends u = fr"
    by (auto simp: compile_user_def Let_def split: sum.splits prod.splits)
  have frontends: "map_of fr proto =
      map_option (\<lambda>c. \<lparr>fc_uuid = rfc_uuid c, fc_password = rfc_password c\<rparr>) (map_of (raw_frontends raw) proto)" for proto
    using index_frontends_ok [OF fr assms(2), of proto] by (simp split: option.split)
  then show "user_ok parse_date raw u"
    using assms(1) u
    by (auto simp: user_ok_def compile_user_def Let_def dest: sym [of "Some _" "parse_date _"]
        split: sum.splits prod.splits option.splits if_splits)
  show "map_of (frontend_keys ix' proto) key = Some n \<longleftrightarrow> map_of (frontend_keys ix proto) key = Some n \<or>
      n = name \<and> (\<exists>c. map_of (us_frontends u) proto = Some c \<and> cred_key (fc_uuid c) = Some key)"
    using index_frontends_ok [OF fr assms(2), of proto key n] frontends [of proto] by (auto simp: u)
qed

lemma compile_users_ok:
  "compile_users parse_date policies raws acc ix = Inr (users, ix') \<Longrightarrow> distinct (map fst raws) \<Longrightarrow>
   \<forall>(_, u) \<in> set raws. distinct (map fst (raw_frontends u)) \<Longrightarrow>
   \<forall>n \<in> fst ` set raws. map_of acc n = None \<Longrightarrow> frontend_index_ok acc ix \<Longrightarrow>
   frontend_index_ok users ix' \<and>
   (\<forall>n. case map_of raws n of
      None \<Rightarrow> map_of users n = map_of acc n
    | Some raw \<Rightarrow> (\<exists>u. map_of users n = Some u \<and> user_ok parse_date raw u \<and>
        map_of policies (raw_policy raw) \<noteq> None \<and> trim (raw_policy raw) \<noteq> []))"
proof (induction raws arbitrary: acc ix)
  case (Cons e raws)
  obtain k raw where e: "e = (k, raw)" by fastforce
  from Cons.prems(1) obtain u ix1 where
    pol: "trim (raw_policy raw) \<noteq> []" "map_of policies (raw_policy raw) \<noteq> None"
    and u: "compile_user parse_date k raw ix = Inr (u, ix1)"
    and rest: "compile_users parse_date policies raws (AList.update k u acc) ix1 = Inr (users, ix')"
    by (auto simp: e simp del: map_of_eq_None_iff split: if_splits sum.splits prod.splits)
  have dist: "distinct (map fst (raw_frontends raw))" using Cons.prems(3) by (simp add: e)
  have new: "map_of acc k = None" "map_of raws k = None"
    using Cons.prems(2,4) by (simp_all add: e map_of_eq_None_iff)
  have "frontend_index_ok (AList.update k u acc) ix1"
    using Cons.prems(5) new(1) unfolding frontend_index_ok_def compile_user_ok(2) [OF u dist] update_conv'
    by (intro allI) (auto simp del: map_of_eq_None_iff)
  moreover have "\<forall>n \<in> fst ` set raws. map_of (AList.update k u acc) n = None"
    using Cons.prems(2,4) by (auto simp: e update_conv' simp del: map_of_eq_None_iff)
  ultimately have IH: "frontend_index_ok users ix'" "case map_of raws n of
        None \<Rightarrow> map_of users n = map_of (AList.update k u acc) n
      | Some raw \<Rightarrow> (\<exists>u. map_of users n = Some u \<and> user_ok parse_date raw u \<and>
          map_of policies (raw_policy raw) \<noteq> None \<and> trim (raw_policy raw) \<noteq> [])" for n
    using Cons.IH [OF rest] Cons.prems(2,3) by (simp_all add: e)
  have "case map_of (e # raws) n of
        None \<Rightarrow> map_of users n = map_of acc n
      | Some raw \<Rightarrow> (\<exists>u. map_of users n = Some u \<and> user_ok parse_date raw u \<and>
          map_of policies (raw_policy raw) \<noteq> None \<and> trim (raw_policy raw) \<noteq> [])" for n
    using IH(2) [of n] pol compile_user_ok(1) [OF u dist] new
    by (cases "n = k")
      (simp_all add: e update_conv' del: map_of_eq_None_iff map_of_eq_Some_iff split: option.splits)
  with IH(1) show ?case by blast
qed simp

end
