(* ===== verification/Snapshot_Decide.thy ===== *)
theory Snapshot_Decide
  imports Snapshot_Compile
begin

text \<open>
  The decisions a compiled snapshot takes for authenticated users and the credential-free views
  it gives to operators (\<open>src/model.rs\<close>), and the properties of the whole path from a document
  to a decision.
\<close>

section \<open>Decisions\<close>

datatype decision = Direct | Via upstream | ViaChain chain | Block

record policy_attribution =
  pa_effective_policy_host :: string
  pa_policy_id :: "string option"
  pa_matched_route :: "nat option"

definition for_host :: "string \<Rightarrow> policy_attribution" where
  "for_host host = \<lparr>pa_effective_policy_host = host, pa_policy_id = None, pa_matched_route = None\<rparr>"

record resolved_decision =
  rd_decision :: decision
  rd_effective_policy_host :: string
  rd_snapshot_version :: u64
  rd_policy_id :: "string option"
  rd_matched_route :: "nat option"

definition attribution :: "resolved_decision \<Rightarrow> policy_attribution" where
  "attribution d =
     \<lparr>pa_effective_policy_host = rd_effective_policy_host d, pa_policy_id = rd_policy_id d,
      pa_matched_route = rd_matched_route d\<rparr>"

definition egress_decision :: "egress \<Rightarrow> decision" where
  "egress_decision eg =
     (case eg_kind eg of EgressUpstream up \<Rightarrow> Via up | EgressChain ch \<Rightarrow> ViaChain ch)"

definition route_action_decision :: "route_action \<Rightarrow> decision" where
  "route_action_decision a =
     (case a of ActEgress eg \<Rightarrow> egress_decision eg | ActDirect \<Rightarrow> Direct | ActBlock \<Rightarrow> Block)"

definition policy_first_match :: "'n ip_net \<Rightarrow> 'n routing_policy \<Rightarrow> string \<Rightarrow> (nat \<times> route_action) option" where
  "policy_first_match N p host =
     map_option (\<lambda>idx. (idx, ro_action (rp_routes p ! idx))) (first_match N (rp_index p) host)"

definition snapshot_user :: "('d, 'n) snapshot \<Rightarrow> string \<Rightarrow> 'd user option" where
  "snapshot_user s username = map_of (sn_users s) username"

definition frontend_user :: "('d, 'n) snapshot \<Rightarrow> string \<Rightarrow> string \<Rightarrow> (string \<times> 'd user) option" where
  "frontend_user s protocol key =
     (case map_of (sn_frontend_index s) protocol of
        None \<Rightarrow> None
      | Some keys \<Rightarrow> (case map_of keys (to_ascii_lowercase key) of
          None \<Rightarrow> None
        | Some name \<Rightarrow> map_option (Pair name) (map_of (sn_users s) name)))"

definition decide_with_sniff ::
  "'n ip_net \<Rightarrow> ('d, 'n) snapshot \<Rightarrow> string \<Rightarrow> string \<Rightarrow> string option \<Rightarrow> resolved_decision" where
  "decide_with_sniff N s username requested sniffed_host =
     (let unattributed_block = (\<lambda>host. \<lparr>rd_decision = Block, rd_effective_policy_host = host,
            rd_snapshot_version = sn_version s, rd_policy_id = None, rd_matched_route = None\<rparr>)
      in case map_of (sn_users s) username of
           None \<Rightarrow> unattributed_block requested
         | Some user \<Rightarrow> (case map_of (sn_policies s) (us_policy user) of
             None \<Rightarrow> unattributed_block requested
           | Some policy \<Rightarrow>
               let resolved = (\<lambda>decision host matched. \<lparr>rd_decision = decision, rd_effective_policy_host = host,
                     rd_snapshot_version = sn_version s, rd_policy_id = Some (us_policy user),
                     rd_matched_route = matched\<rparr>);
                   requested_action = policy_first_match N policy requested;
                   sniffed = map_option (\<lambda>host. (host, policy_first_match N policy host)) sniffed_host;
                   fallback = (case requested_action of
                       Some (idx, action) \<Rightarrow> resolved (route_action_decision action) requested (Some idx)
                     | None \<Rightarrow> resolved (route_action_decision (rp_default_action policy)) requested None)
               in case requested_action of
                    Some (idx, ActBlock) \<Rightarrow> resolved Block requested (Some idx)
                  | _ \<Rightarrow> (case sniffed of
                      Some (host, Some (idx, action)) \<Rightarrow>
                        if action = ActBlock then resolved Block host (Some idx)
                        else if parse_ip_addr requested \<noteq> None then
                          resolved (route_action_decision action) host (Some idx)
                        else fallback
                    | _ \<Rightarrow> fallback)))"

definition decide :: "'n ip_net \<Rightarrow> ('d, 'n) snapshot \<Rightarrow> string \<Rightarrow> string \<Rightarrow> decision" where
  "decide N s username host = rd_decision (decide_with_sniff N s username host None)"

section \<open>Credential-free views\<close>

record chain_member_view =
  cmv_id :: string
  cmv_priority :: u32
  cmv_kind :: string
  cmv_addr :: string
  cmv_tls :: bool
  cmv_auth :: bool

record upstream_view =
  uv_kind :: string
  uv_addr :: string
  uv_tls :: bool
  uv_auth :: bool
  uv_members :: "chain_member_view list option"

record egress_view =
  ev_id :: string
  ev_upstream :: upstream_view

record action_view =
  av_action :: string
  av_egress :: "egress_view option"

record route_view =
  rv_selectors :: "string list"
  rv_action :: action_view

record routing_policy_view =
  rpv_id :: string
  rpv_routes :: "route_view list"
  rpv_default_action :: action_view

record user_policy_view =
  upv_username :: string
  upv_expire :: "string option"
  upv_policy :: string
  upv_up_rate :: u64
  upv_down_rate :: u64
  upv_max_connections :: u64
  upv_routing_policy :: "routing_policy_view option"

definition upstream_kind_name :: "upstream_kind \<Rightarrow> string" where
  "upstream_kind_name k =
     (case k of Http \<Rightarrow> ''http'' | Socks5 \<Rightarrow> ''socks5'' | Reverse \<Rightarrow> ''reverse'' | Subnetra \<Rightarrow> ''subnetra'')"

definition upstream_view_from :: "upstream \<Rightarrow> upstream_view" where
  "upstream_view_from u =
     \<lparr>uv_kind = upstream_kind_name (u_kind u), uv_addr = u_addr u, uv_tls = u_tls u,
      uv_auth = (u_username u \<noteq> None \<or> u_password u \<noteq> None), uv_members = None\<rparr>"

definition member_view :: "chain_member \<Rightarrow> chain_member_view" where
  "member_view m =
     \<lparr>cmv_id = m_id m, cmv_priority = m_priority m, cmv_kind = upstream_kind_name (u_kind (m_upstream m)),
      cmv_addr = u_addr (m_upstream m), cmv_tls = u_tls (m_upstream m),
      cmv_auth = (u_username (m_upstream m) \<noteq> None \<or> u_password (m_upstream m) \<noteq> None)\<rparr>"

definition upstream_view_chain :: "chain \<Rightarrow> upstream_view" where
  "upstream_view_chain ch =
     \<lparr>uv_kind = ''chain'', uv_addr = ch_id ch, uv_tls = False, uv_auth = False,
      uv_members = Some (map member_view (ch_members ch))\<rparr>"

definition egress_view_of :: "egress \<Rightarrow> egress_view" where
  "egress_view_of eg =
     \<lparr>ev_id = eg_id eg,
      ev_upstream = (case eg_kind eg of
          EgressUpstream up \<Rightarrow> upstream_view_from up
        | EgressChain ch \<Rightarrow> upstream_view_chain ch)\<rparr>"

definition action_view_build :: "route_action \<Rightarrow> action_view" where
  "action_view_build a =
     (case a of
        ActEgress eg \<Rightarrow> \<lparr>av_action = ''egress'', av_egress = Some (egress_view_of eg)\<rparr>
      | ActDirect \<Rightarrow> \<lparr>av_action = ''direct'', av_egress = None\<rparr>
      | ActBlock \<Rightarrow> \<lparr>av_action = ''block'', av_egress = None\<rparr>)"

definition route_view_build :: "'n route \<Rightarrow> route_view" where
  "route_view_build r = \<lparr>rv_selectors = ro_selector_rules r, rv_action = action_view_build (ro_action r)\<rparr>"

definition policy_view_build :: "string \<Rightarrow> 'n routing_policy \<Rightarrow> routing_policy_view" where
  "policy_view_build pid p =
     \<lparr>rpv_id = pid, rpv_routes = map route_view_build (rp_routes p),
      rpv_default_action = action_view_build (rp_default_action p)\<rparr>"

definition user_policy :: "('d \<Rightarrow> string) \<Rightarrow> ('d, 'n) snapshot \<Rightarrow> string \<Rightarrow> user_policy_view option" where
  "user_policy show_date s username =
     (case map_of (sn_users s) username of
        None \<Rightarrow> None
      | Some user \<Rightarrow> Some
          \<lparr>upv_username = username, upv_expire = map_option show_date (us_expire user),
           upv_policy = us_policy user, upv_up_rate = us_up_rate user, upv_down_rate = us_down_rate user,
           upv_max_connections = us_max_connections user,
           upv_routing_policy = map_option (policy_view_build (us_policy user))
             (map_of (sn_policies s) (us_policy user))\<rparr>)"

section \<open>Decisions read off the document\<close>

definition doc_match ::
  "'n ip_net \<Rightarrow> addr_book option \<Rightarrow> raw_routing_policy \<Rightarrow> string \<Rightarrow> (nat \<times> raw_action) option" where
  "doc_match N book rp host =
     map_option (\<lambda>i. (i, rr_action (rrp_routes rp ! i)))
       (first_index (\<lambda>route. list_ex (\<lambda>r. rule_hits N book r host) (rr_selectors route)) (rrp_routes rp))"

text \<open>
  Which action decides, for which host and by which route: a block of either host, then for a
  requested address the action of the sniffed name, then the action of the requested host, then
  the default.
\<close>

definition doc_choice ::
  "(string \<Rightarrow> (nat \<times> raw_action) option) \<Rightarrow> raw_action \<Rightarrow> string \<Rightarrow> string option \<Rightarrow>
   raw_action \<times> string \<times> nat option" where
  "doc_choice m dflt requested sniffed =
     (let own = (case m requested of Some (i, a) \<Rightarrow> (a, requested, Some i) | None \<Rightarrow> (dflt, requested, None))
      in if fst own = RawBlock \<and> snd (snd own) \<noteq> None then own
         else case sniffed of
           None \<Rightarrow> own
         | Some h \<Rightarrow> (case m h of
             None \<Rightarrow> own
           | Some (i, a) \<Rightarrow>
               if a = RawBlock \<or> parse_ip_addr requested \<noteq> None then (a, h, Some i) else own))"

definition doc_default :: "raw_routing_policy \<Rightarrow> raw_action" where
  "doc_default rp = (case rrp_default_action rp of Some a \<Rightarrow> a | None \<Rightarrow> RawDirect)"

definition doc_decision :: "raw_snapshot \<Rightarrow> string \<Rightarrow> raw_action \<Rightarrow> decision" where
  "doc_decision raw node_id a =
     (case resolve_action raw node_id a of Some act \<Rightarrow> route_action_decision act | None \<Rightarrow> Block)"

definition doc_decide ::
  "'n ip_net \<Rightarrow> addr_book option \<Rightarrow> raw_snapshot \<Rightarrow> string \<Rightarrow> string \<Rightarrow> string \<Rightarrow> string option \<Rightarrow> resolved_decision" where
  "doc_decide N book raw node_id username requested sniffed =
     (case map_of (raw_users raw) username of
        None \<Rightarrow> \<lparr>rd_decision = Block, rd_effective_policy_host = requested, rd_snapshot_version = raw_version raw,
          rd_policy_id = None, rd_matched_route = None\<rparr>
      | Some u \<Rightarrow>
          let rp = the (map_of (raw_routing_policies raw) (raw_policy u));
              (a, host, i) = doc_choice (doc_match N book rp) (doc_default rp) requested sniffed
          in \<lparr>rd_decision = doc_decision raw node_id a, rd_effective_policy_host = host,
              rd_snapshot_version = raw_version raw, rd_policy_id = Some (raw_policy u), rd_matched_route = i\<rparr>)"

lemma first_index_all2:
  "list_all2 R xs ys \<Longrightarrow> (\<And>x y. R x y \<Longrightarrow> P x = Q y) \<Longrightarrow> first_index P xs = first_index Q ys"
  by (induction rule: list_all2_induct) auto

lemma first_index_map: "first_index P (map f xs) = first_index (P \<circ> f) xs"
  by (induction xs) auto

lemma policy_first_match_doc:
  assumes "policy_ok N book tbl rp p"
  shows "case doc_match N book rp host of
     None \<Rightarrow> policy_first_match N p host = None
   | Some (i, a) \<Rightarrow> (\<exists>act. compile_action tbl a = Inr act \<and> policy_first_match N p host = Some (i, act))"
proof -
  note routes = assms [unfolded policy_ok_def, THEN conjunct1]
  have wf: "matcher_wf (rs_domains rs)" if "rs \<in> set (map ro_selectors (rp_routes p))" for rs
    using that routes by (auto simp: list_all2_conv_all_nth in_set_conv_nth route_ok_def)
  have "length (rp_routes p) < 2 ^ 32 - 1"
    using assms by (simp add: policy_ok_def MAX_SNAPSHOT_RULES_def)
  then have "first_match N (rp_index p) host = first_index (\<lambda>rs. rs_matches N rs host) (map ro_selectors (rp_routes p))"
    using assms wf index_rules_first_match [of "map ro_selectors (rp_routes p)" N host]
    by (simp add: policy_ok_def)
  also have "\<dots> = first_index (\<lambda>route. list_ex (\<lambda>r. rule_hits N book r host) (rr_selectors route)) (rrp_routes rp)"
    unfolding first_index_map
    by (rule first_index_all2 [OF routes, symmetric]) (simp add: route_ok_def)
  finally have index: "first_match N (rp_index p) host =
      first_index (\<lambda>route. list_ex (\<lambda>r. rule_hits N book r host) (rr_selectors route)) (rrp_routes rp)" .
  have "compile_action tbl (rr_action (rrp_routes rp ! i)) = Inr (ro_action (rp_routes p ! i))"
    if "i < length (rrp_routes rp)" for i
    using that routes by (auto simp: list_all2_conv_all_nth route_ok_def)
  then show ?thesis
    using first_index_less by (auto simp: doc_match_def policy_first_match_def index split: option.split)
qed

definition compiled_from ::
  "'n ip_net \<Rightarrow> (string \<Rightarrow> 'd option) \<Rightarrow> addr_book option \<Rightarrow> raw_snapshot \<Rightarrow> string \<Rightarrow> (string \<rightharpoonup> egress) \<Rightarrow>
   ('d, 'n) snapshot \<Rightarrow> bool" where
  "compiled_from N parse_date book raw node_id tbl s \<longleftrightarrow>
     sn_version s = raw_version raw \<and> frontend_index_ok (sn_users s) (sn_frontend_index s) \<and>
     (\<forall>eid. case effective_egress raw node_id eid of
        None \<Rightarrow> tbl eid = None
      | Some re \<Rightarrow> (\<exists>eg. compile_egress eid re = Inr eg \<and> tbl eid = Some eg)) \<and>
     (\<forall>pid. case map_of (raw_routing_policies raw) pid of
        None \<Rightarrow> map_of (sn_policies s) pid = None
      | Some rp \<Rightarrow> (\<exists>p. map_of (sn_policies s) pid = Some p \<and> policy_ok N book tbl rp p)) \<and>
     (\<forall>n. case map_of (raw_users raw) n of
        None \<Rightarrow> map_of (sn_users s) n = None
      | Some u \<Rightarrow> (\<exists>user. map_of (sn_users s) n = Some user \<and> user_ok parse_date u user \<and>
          map_of (sn_policies s) (raw_policy u) \<noteq> None))"

lemma compile_checked_from:
  assumes "ipnet_ok N" and "env_ok env book" and "doc_ok raw"
    and "compile_checked N parse_date env raw node_id book = Inr s"
  obtains tbl where "compiled_from N parse_date book raw node_id tbl s"
proof -
  from assms(4) obtain egs tbl policies st users ix where
    egs: "node_egresses raw node_id = Inr egs" and tbl: "compile_egresses egs Map.empty = Inr tbl"
    and policies: "compile_policies N env tbl (raw_routing_policies raw) (build_start book) [] = Inr (policies, st)"
    and users: "compile_users parse_date policies (raw_users raw) [] [] = Inr (users, ix)"
    and s: "s = \<lparr>sn_version = raw_version raw, sn_schema_version = raw_schema_version raw, sn_users = users,
      sn_policies = policies, sn_frontend_index = ix\<rparr>"
    by (auto simp: compile_checked_def split: if_splits)
  have table: "case effective_egress raw node_id eid of
      None \<Rightarrow> tbl eid = None
    | Some re \<Rightarrow> (\<exists>eg. compile_egress eid re = Inr eg \<and> tbl eid = Some eg)" for eid
    using compile_egresses_map [OF tbl node_egresses_map(1) [OF assms(3) egs], of eid]
    by (simp add: node_egresses_map(2) [OF assms(3) egs])
  have "case map_of (raw_routing_policies raw) pid of
      None \<Rightarrow> map_of policies pid = None
    | Some rp \<Rightarrow> (\<exists>p. map_of policies pid = Some p \<and> policy_ok N book tbl rp p)" for pid
    using compile_policies_ok [OF assms(1,2) book_state_start [OF assms(2)] _ _ policies, of pid] assms(3)
    by (cases "map_of (raw_routing_policies raw) pid")
      (simp_all add: build_start_def doc_ok_def del: map_of_eq_Some_iff)
  moreover have all: "frontend_index_ok users ix \<and> (\<forall>n. case map_of (raw_users raw) n of
      None \<Rightarrow> map_of users n = map_of [] n
    | Some raw \<Rightarrow> (\<exists>u. map_of users n = Some u \<and> user_ok parse_date raw u \<and>
        map_of policies (raw_policy raw) \<noteq> None \<and> trim (raw_policy raw) \<noteq> []))"
    using assms(3) by (intro compile_users_ok [OF users])
      (auto simp: doc_ok_def list_all_iff frontend_index_ok_def frontend_keys_def)
  moreover have "case map_of (raw_users raw) n of
      None \<Rightarrow> map_of users n = None
    | Some u \<Rightarrow> (\<exists>user. map_of users n = Some user \<and> user_ok parse_date u user \<and>
        map_of policies (raw_policy u) \<noteq> None)" for n
    using all [THEN conjunct2, rule_format, of n] by (cases "map_of (raw_users raw) n") auto
  ultimately have "compiled_from N parse_date book raw node_id tbl s"
    unfolding compiled_from_def s snapshot.simps using table by blast
  then show thesis by (rule that)
qed

lemma compiled_fromD:
  assumes "compiled_from N parse_date book raw node_id tbl s"
  shows "sn_version s = raw_version raw" and "frontend_index_ok (sn_users s) (sn_frontend_index s)"
    and "case effective_egress raw node_id eid of
        None \<Rightarrow> tbl eid = None
      | Some re \<Rightarrow> (\<exists>eg. compile_egress eid re = Inr eg \<and> tbl eid = Some eg)"
    and "case map_of (raw_routing_policies raw) pid of
        None \<Rightarrow> map_of (sn_policies s) pid = None
      | Some rp \<Rightarrow> (\<exists>p. map_of (sn_policies s) pid = Some p \<and> policy_ok N book tbl rp p)"
    and "case map_of (raw_users raw) n of
        None \<Rightarrow> map_of (sn_users s) n = None
      | Some u \<Rightarrow> (\<exists>user. map_of (sn_users s) n = Some user \<and> user_ok parse_date u user \<and>
          map_of (sn_policies s) (raw_policy u) \<noteq> None)"
  using assms unfolding compiled_from_def by simp_all

lemma doc_decision_compiled:
  assumes "compiled_from N parse_date book raw node_id tbl s" and "compile_action tbl a = Inr act"
  shows "doc_decision raw node_id a = route_action_decision act"
proof -
  have "resolve_action raw node_id a = Some act"
    by (rule compile_action_resolves [OF compiled_fromD(3) [OF assms(1)] assms(2)])
  then show ?thesis by (simp add: doc_decision_def)
qed

lemma compile_action_block: "compile_action tbl a = Inr act \<Longrightarrow> act = ActBlock \<longleftrightarrow> a = RawBlock"
  by (auto simp: compile_action_def Let_def split: raw_action.splits if_splits option.splits)

lemma decide_compiled:
  assumes "compiled_from N parse_date book raw node_id tbl s"
  shows "decide_with_sniff N s username requested sniffed = doc_decide N book raw node_id username requested sniffed"
proof (cases "map_of (raw_users raw) username")
  case None
  then have "map_of (sn_users s) username = None" "sn_version s = raw_version raw"
    using compiled_fromD(1) [OF assms] compiled_fromD(5) [OF assms, of username] by simp_all
  with None show ?thesis by (simp add: decide_with_sniff_def doc_decide_def)
next
  case (Some u)
  then obtain user where user: "map_of (sn_users s) username = Some user" "user_ok parse_date u user"
    "map_of (sn_policies s) (raw_policy u) \<noteq> None" and version: "sn_version s = raw_version raw"
    using compiled_fromD(1) [OF assms] compiled_fromD(5) [OF assms, of username] by auto
  then obtain rp p where rp: "map_of (raw_routing_policies raw) (raw_policy u) = Some rp"
    and p: "map_of (sn_policies s) (raw_policy u) = Some p" and ok: "policy_ok N book tbl rp p"
    using compiled_fromD(4) [OF assms, of "raw_policy u"]
    by (cases "map_of (raw_routing_policies raw) (raw_policy u)") auto
  have pol: "us_policy user = raw_policy u" using user(2) by (simp add: user_ok_def)
  have dflt: "doc_decision raw node_id (doc_default rp) = route_action_decision (rp_default_action p)"
  proof (cases "rrp_default_action rp")
    case None
    with ok show ?thesis
      by (simp add: policy_ok_def doc_default_def doc_decision_def resolve_action_def)
  next
    case (Some a)
    with ok have "compile_action tbl a = Inr (rp_default_action p)" by (simp add: policy_ok_def)
    with Some doc_decision_compiled [OF assms] show ?thesis by (simp add: doc_default_def)
  qed
  have match: "(doc_match N book rp h = None \<and> policy_first_match N p h = None) \<or>
      (\<exists>i a act. doc_match N book rp h = Some (i, a) \<and> policy_first_match N p h = Some (i, act) \<and>
        doc_decision raw node_id a = route_action_decision act \<and> (act = ActBlock \<longleftrightarrow> a = RawBlock))" for h
  proof (cases "doc_match N book rp h")
    case None
    with policy_first_match_doc [OF ok, of h] show ?thesis by simp
  next
    case (Some ia)
    with policy_first_match_doc [OF ok, of h] obtain i a act where
      "ia = (i, a)" "compile_action tbl a = Inr act" "policy_first_match N p h = Some (i, act)"
      by (cases ia) auto
    with Some doc_decision_compiled [OF assms] compile_action_block show ?thesis by simp
  qed
  have block: "route_action_decision ActBlock = Block" by (simp add: route_action_decision_def)
  show ?thesis
  proof (cases sniffed)
    case None
    from match [of requested] show ?thesis
      by (elim disjE exE conjE)
        (auto simp: decide_with_sniff_def doc_decide_def doc_choice_def Some user(1) pol p rp None
          Let_def version dflt block split: route_action.splits)
  next
    case sniff: (Some h)
    from match [of requested] match [of h] show ?thesis
      by (elim disjE exE conjE)
        (auto simp: decide_with_sniff_def doc_decide_def doc_choice_def Some user(1) pol p rp sniff
          Let_def version dflt block split: route_action.splits)
  qed
qed

section \<open>Views do not depend on credentials\<close>

text \<open>Replace every secret by another one, keeping only which secrets are present.\<close>

definition scrub_upstream :: "(string \<Rightarrow> string) \<Rightarrow> upstream \<Rightarrow> upstream" where
  "scrub_upstream f u = u\<lparr>u_username := map_option f (u_username u), u_password := map_option f (u_password u)\<rparr>"

definition scrub_egress :: "(string \<Rightarrow> string) \<Rightarrow> egress \<Rightarrow> egress" where
  "scrub_egress f eg = eg\<lparr>eg_kind := (case eg_kind eg of
      EgressUpstream u \<Rightarrow> EgressUpstream (scrub_upstream f u)
    | EgressChain ch \<Rightarrow> EgressChain (ch\<lparr>ch_members :=
        map (\<lambda>m. m\<lparr>m_upstream := scrub_upstream f (m_upstream m)\<rparr>) (ch_members ch)\<rparr>))\<rparr>"

definition scrub_action :: "(string \<Rightarrow> string) \<Rightarrow> route_action \<Rightarrow> route_action" where
  "scrub_action f a = (case a of ActEgress eg \<Rightarrow> ActEgress (scrub_egress f eg) | _ \<Rightarrow> a)"

definition scrub_policy :: "(string \<Rightarrow> string) \<Rightarrow> 'n routing_policy \<Rightarrow> 'n routing_policy" where
  "scrub_policy f p = p\<lparr>rp_routes := map (\<lambda>r. r\<lparr>ro_action := scrub_action f (ro_action r)\<rparr>) (rp_routes p),
     rp_default_action := scrub_action f (rp_default_action p)\<rparr>"

definition scrub_user :: "(string \<Rightarrow> string) \<Rightarrow> 'd user \<Rightarrow> 'd user" where
  "scrub_user f u = u\<lparr>us_password := f (us_password u), us_frontends := []\<rparr>"

definition scrub_snapshot :: "(string \<Rightarrow> string) \<Rightarrow> ('d, 'n) snapshot \<Rightarrow> ('d, 'n) snapshot" where
  "scrub_snapshot f s = s\<lparr>sn_users := map (\<lambda>(n, u). (n, scrub_user f u)) (sn_users s),
     sn_policies := map (\<lambda>(n, p). (n, scrub_policy f p)) (sn_policies s), sn_frontend_index := []\<rparr>"

lemma action_view_scrub: "action_view_build (scrub_action f a) = action_view_build a"
  by (cases a)
    (simp_all add: action_view_build_def scrub_action_def egress_view_of_def scrub_egress_def
      upstream_view_from_def upstream_view_chain_def scrub_upstream_def member_view_def split: egress_kind.split)

lemma policy_view_scrub: "policy_view_build pid (scrub_policy f p) = policy_view_build pid p"
  by (simp add: policy_view_build_def scrub_policy_def route_view_build_def action_view_scrub)

section \<open>Properties\<close>

definition demo_upstream :: "string \<Rightarrow> string \<Rightarrow> raw_upstream" where
  "demo_upstream kind addr = \<lparr>ru_kind = kind, ru_addr = addr, ru_username = None, ru_password = None,
     ru_tls = False, ru_skip_cert_verify = False\<rparr>"

definition demo_doc :: raw_snapshot where
  "demo_doc = raw_snapshot_default\<lparr>raw_version := 7,
     raw_users := [(''alice'', \<lparr>raw_password = ''pw'', raw_expire = None, raw_up_rate = 0, raw_down_rate = 0,
       raw_max_connections = 0, raw_policy = ''p'',
       raw_frontends = [(''tuic'', \<lparr>rfc_uuid = Some ''AB'', rfc_password = Some ''x''\<rparr>)]\<rparr>)],
     raw_routing_policies := [(''p'', \<lparr>rrp_routes =
       [\<lparr>rr_selectors = [''full:bad.example.com''], rr_action = RawBlock\<rparr>,
        \<lparr>rr_selectors = [''example.com''], rr_action = RawEgressAction '' hop ''\<rparr>], rrp_default_action = None\<rparr>)],
     raw_egresses := [(''hop'', RawChainEgress
       [\<lparr>rcm_id = ''b'', rcm_priority = 2, rcm_backend = demo_upstream ''http'' ''h:1''\<rparr>,
        \<lparr>rcm_id = ''a'', rcm_priority = 1, rcm_backend = demo_upstream ''socks5'' ''h:2''\<rparr>])]\<rparr>"

definition demo_env :: compile_env where
  "demo_env = \<lparr>env_between = (\<lambda>_. id), env_address = id\<rparr>"

definition demo_compiled :: "snapshot_error + (nat, u32 \<times> nat) snapshot" where
  "demo_compiled = compile_checked demo_inet (\<lambda>_. None) demo_env demo_doc ''n1'' None"

definition demo_snapshot :: "(nat, u32 \<times> nat) snapshot" where
  "demo_snapshot = projr demo_compiled"

lemma demo_compiles: "compile_checked demo_inet (\<lambda>_. None) demo_env demo_doc ''n1'' None = Inr demo_snapshot"
proof -
  have "\<not> isl demo_compiled" by code_simp
  then show ?thesis by (simp add: demo_snapshot_def demo_compiled_def)
qed

lemma demo_doc_ok: "doc_ok demo_doc"
  by code_simp

lemma demo_env_ok: "env_ok demo_env None"
  by (simp add: env_ok_def)

text \<open>
  C1: the whole path from a document to a decision. A snapshot compiled for a node decides every
  connection as the document says: an unknown user is blocked without attribution; otherwise the
  first route, in declaration order, one of whose selector strings hits the host decides, with
  the block veto of either host, the preference for the sniffed name when an address was
  requested, the node's egress overrides, and the policy's default.
\<close>

theorem decide_refines_document:
  assumes "ipnet_ok N" and "env_ok env book" and "doc_ok raw"
    and "compile_checked N parse_date env raw node_id book = Inr s"
  shows "decide_with_sniff N s username requested sniffed = doc_decide N book raw node_id username requested sniffed"
  using compile_checked_from [OF assms] decide_compiled by metis

theorem decide_refines_document_witness:
  "decide_with_sniff demo_inet demo_snapshot ''alice'' ''1.2.3.4'' (Some ''www.example.com'') =
     doc_decide demo_inet None demo_doc ''n1'' ''alice'' ''1.2.3.4'' (Some ''www.example.com'') \<and>
   rd_matched_route (doc_decide demo_inet None demo_doc ''n1'' ''alice'' ''1.2.3.4'' (Some ''www.example.com'')) = Some 1"
proof
  show "decide_with_sniff demo_inet demo_snapshot ''alice'' ''1.2.3.4'' (Some ''www.example.com'') =
      doc_decide demo_inet None demo_doc ''n1'' ''alice'' ''1.2.3.4'' (Some ''www.example.com'')"
    by (rule decide_refines_document [OF demo_inet_ok demo_env_ok demo_doc_ok demo_compiles])
qed code_simp

text \<open>
  C17: a compiled snapshot is closed and well formed: every user is bound to a policy of the
  snapshot, and every egress a route or a default refers to is a valid one, reverse and overlay
  upstreams carrying no credentials and every chain being non-empty, at most 16 members long,
  strictly ordered by priority and with distinct non-empty member ids.
\<close>

theorem compiled_snapshot_sound:
  assumes "ipnet_ok N" and "env_ok env book" and "doc_ok raw"
    and "compile_checked N parse_date env raw node_id book = Inr s"
  shows "(map_of (sn_users s) n = Some u \<longrightarrow> map_of (sn_policies s) (us_policy u) \<noteq> None) \<and>
    (map_of (sn_policies s) pid = Some p \<longrightarrow>
      list_all (\<lambda>a. case a of ActEgress eg \<Rightarrow> egress_ok eg | _ \<Rightarrow> True)
        (rp_default_action p # map ro_action (rp_routes p)))"
proof -
  from compile_checked_from [OF assms] obtain tbl where s: "compiled_from N parse_date book raw node_id tbl s" .
  have users: "map_of (sn_policies s) (us_policy u) \<noteq> None" if "map_of (sn_users s) n = Some u"
    using that compiled_fromD(5) [OF s, of n]
    by (cases "map_of (raw_users raw) n") (auto simp: user_ok_def)
  have action: "case act of ActEgress eg \<Rightarrow> egress_ok eg | _ \<Rightarrow> True" if "compile_action tbl a = Inr act" for a act
    using resolve_action_ok compile_action_resolves [OF compiled_fromD(3) [OF s] that]
    by (auto split: route_action.split)
  have "list_all (\<lambda>a. case a of ActEgress eg \<Rightarrow> egress_ok eg | _ \<Rightarrow> True)
      (rp_default_action p # map ro_action (rp_routes p))" if p: "map_of (sn_policies s) pid = Some p"
  proof -
    from p compiled_fromD(4) [OF s, of pid] obtain rp where ok: "policy_ok N book tbl rp p"
      by (cases "map_of (raw_routing_policies raw) pid") auto
    have "\<exists>a. compile_action tbl a = Inr (ro_action r)" if "r \<in> set (rp_routes p)" for r
      using that ok by (auto simp: policy_ok_def route_ok_def list_all2_conv_all_nth in_set_conv_nth)
    moreover have "\<exists>a. compile_action tbl a = Inr (rp_default_action p)"
      using ok by (auto simp: policy_ok_def compile_action_def split: option.splits intro: exI [of _ RawDirect])
    ultimately show ?thesis
      using action by (auto simp: list_all_iff simp del: split_paired_Ex)
  qed
  with users show ?thesis by blast
qed

theorem compiled_snapshot_sound_witness:
  "case map_of (sn_policies demo_snapshot) ''p'' of
     None \<Rightarrow> False
   | Some p \<Rightarrow> list_all (\<lambda>a. case a of ActEgress eg \<Rightarrow> egress_ok eg | _ \<Rightarrow> True)
       (rp_default_action p # map ro_action (rp_routes p))"
proof -
  have "map_of (sn_policies demo_snapshot) ''p'' \<noteq> None" by code_simp
  then obtain p where p: "map_of (sn_policies demo_snapshot) ''p'' = Some p" by blast
  from compiled_snapshot_sound [OF demo_inet_ok demo_env_ok demo_doc_ok demo_compiles,
      THEN conjunct2, rule_format, OF p] show ?thesis
    unfolding p option.case .
qed

text \<open>
  C22: front-end identities are unambiguous: a key presented on a protocol identifies a user exactly
  when that user is in the snapshot and its credential for that protocol has that key up to
  case, so no key ever identifies two users.
\<close>

theorem frontend_user_exact:
  assumes "ipnet_ok N" and "env_ok env book" and "doc_ok raw"
    and "compile_checked N parse_date env raw node_id book = Inr s"
  shows "frontend_user s proto key = Some (n, u) \<longleftrightarrow>
    snapshot_user s n = Some u \<and>
    (\<exists>c. map_of (us_frontends u) proto = Some c \<and> cred_key (fc_uuid c) = Some (to_ascii_lowercase key))"
proof -
  from compile_checked_from [OF assms] obtain tbl where s: "compiled_from N parse_date book raw node_id tbl s" .
  have "frontend_user s proto key =
      (case map_of (frontend_keys (sn_frontend_index s) proto) (to_ascii_lowercase key) of
         None \<Rightarrow> None | Some name \<Rightarrow> map_option (Pair name) (map_of (sn_users s) name))"
    by (simp add: frontend_user_def frontend_keys_def split: option.split)
  then have "frontend_user s proto key = Some (n, u) \<longleftrightarrow>
      map_of (frontend_keys (sn_frontend_index s) proto) (to_ascii_lowercase key) = Some n \<and> map_of (sn_users s) n = Some u"
    by (auto split: option.splits)
  then show ?thesis
    using compiled_fromD(2) [OF s] unfolding frontend_index_ok_def snapshot_user_def by auto
qed

theorem frontend_user_exact_witness:
  "\<exists>u. frontend_user demo_snapshot ''tuic'' ''aB'' = Some (''alice'', u) \<and> snapshot_user demo_snapshot ''alice'' = Some u"
proof -
  have "map_option fst (frontend_user demo_snapshot ''tuic'' ''aB'') = Some ''alice''" by code_simp
  then obtain u where "frontend_user demo_snapshot ''tuic'' ''aB'' = Some (''alice'', u)" by auto
  with frontend_user_exact [OF demo_inet_ok demo_env_ok demo_doc_ok demo_compiles, of "''tuic''" "''aB''" "''alice''" u]
  show ?thesis by blast
qed

text \<open>
  C33: the operator view of a user carries no secret: it is the same for any two snapshots that
  differ only in user passwords, front-end credentials, and upstream user names and passwords.
\<close>

theorem user_policy_hides_credentials:
  "user_policy show_date (scrub_snapshot f s) username = user_policy show_date s username"
  by (simp add: user_policy_def scrub_snapshot_def map_of_map scrub_user_def policy_view_scrub
      option.map_comp comp_def split: option.split)

end
