(* ===== verification/Proxy_Util.thy ===== *)
theory Proxy_Util
  imports Rust_Cursor
begin

text \<open>
  Errors of the proxy and the protocol helpers shared by its connectors (\<open>src/error.rs\<close>,
  \<open>src/util.rs\<close>). A stream that is read is the list of the chunks its reads return; the end of
  the list is the end of the stream.
\<close>

section \<open>Errors\<close>

datatype proxy_error =
  AuthRequired | AuthFailed | Expired | ConnectionLimitExceeded nat nat
| Blocked string | BadRequest string | UpstreamFailed string | Dns string | Dial string | Tls string
| ReverseUnavailable string | ReverseOpen string | ReverseHopConnect string
| ChainExhausted string nat proxy_error | Io string

definition failure_stage :: "proxy_error \<Rightarrow> string" where
  "failure_stage e =
     (case e of
        AuthRequired \<Rightarrow> ''auth'' | AuthFailed \<Rightarrow> ''auth'' | Expired \<Rightarrow> ''auth''
      | ConnectionLimitExceeded _ _ \<Rightarrow> ''limit'' | Blocked _ \<Rightarrow> ''policy'' | BadRequest _ \<Rightarrow> ''parse''
      | Dns _ \<Rightarrow> ''dns'' | Dial _ \<Rightarrow> ''dial'' | Tls _ \<Rightarrow> ''tls'' | UpstreamFailed _ \<Rightarrow> ''outbound''
      | ReverseUnavailable _ \<Rightarrow> ''reverse_lookup'' | ReverseOpen _ \<Rightarrow> ''reverse_open''
      | ReverseHopConnect _ \<Rightarrow> ''hop_connect'' | ChainExhausted _ _ _ \<Rightarrow> ''chain_exhausted''
      | Io _ \<Rightarrow> ''outbound'')"

definition chain_attempts :: "proxy_error \<Rightarrow> nat option" where
  "chain_attempts e = (case e of ChainExhausted _ attempts _ \<Rightarrow> Some attempts | _ \<Rightarrow> None)"

section \<open>Searching and HTTP heads\<close>

text \<open>The position of the first window that satisfies a test, of \<open>n\<close> windows.\<close>

fun position_from :: "(nat \<Rightarrow> bool) \<Rightarrow> nat \<Rightarrow> nat \<Rightarrow> nat option" where
  "position_from P i 0 = None"
| "position_from P i (Suc n) = (if P i then Some i else position_from P (Suc i) n)"

definition find_sub :: "bytes \<Rightarrow> bytes \<Rightarrow> nat option" where
  "find_sub haystack needle =
     (if needle = [] \<or> length haystack < length needle then None
      else position_from (\<lambda>i. slice i (i + length needle) haystack = needle) 0
        (length haystack - length needle + 1))"

definition CRLF :: bytes where "CRLF = [13, 10]"
definition CRLF2 :: bytes where "CRLF2 = [13, 10, 13, 10]"

datatype head_error = ReadFailed | HeaderTooLarge

text \<open>\<open>None\<close> in the list of chunks is a read that fails.\<close>

fun read_head_loop :: "bytes option list \<Rightarrow> nat \<Rightarrow> bytes \<Rightarrow> head_error + bytes \<times> bytes" where
  "read_head_loop [] cap buf = Inr (buf, [])"
| "read_head_loop (None # chunks) cap buf = Inl ReadFailed"
| "read_head_loop (Some chunk # chunks) cap buf =
     (if chunk = [] then Inr (buf, [])
      else let buf' = buf @ chunk
           in case find_sub buf' CRLF2 of
                Some start \<Rightarrow>
                  (let stop = start + 4
                   in if cap < stop then Inl HeaderTooLarge else Inr (take stop buf', drop stop buf'))
              | None \<Rightarrow> if cap < length buf' then Inl HeaderTooLarge else read_head_loop chunks cap buf')"

definition read_http_head_with_remainder :: "bytes option list \<Rightarrow> nat \<Rightarrow> head_error + bytes \<times> bytes" where
  "read_http_head_with_remainder chunks cap = read_head_loop chunks cap []"

definition read_http_head :: "bytes option list \<Rightarrow> nat \<Rightarrow> head_error + bytes" where
  "read_http_head chunks cap =
     and_then (read_http_head_with_remainder chunks cap) (\<lambda>(head, rest). Inr (head @ rest))"

definition http_2xx :: "bytes \<Rightarrow> bool" where
  "http_2xx head =
     (let line_end = (case find_sub head CRLF of Some i \<Rightarrow> i | None \<Rightarrow> length head);
          s = of_bytes (from_utf8_lossy (take line_end head))
      in case split_whitespace s of _ # code # _ \<Rightarrow> starts_with code ''2'' | _ \<Rightarrow> False)"

text \<open>A found position is the first one, and stays the first when more bytes follow.\<close>

lemma position_from_Some:
  "position_from P i n = Some j \<longleftrightarrow> i \<le> j \<and> j < i + n \<and> P j \<and> (\<forall>k. i \<le> k \<and> k < j \<longrightarrow> \<not> P k)"
proof (induction n arbitrary: i)
  case (Suc n)
  show ?case using Suc.IH [of "Suc i"] by (auto simp: Suc_le_eq dest: le_neq_implies_less)
qed simp

lemma find_sub_Some:
  "find_sub h n = Some j \<longleftrightarrow>
     n \<noteq> [] \<and> j + length n \<le> length h \<and> take (length n) (drop j h) = n \<and> (\<forall>k < j. take (length n) (drop k h) \<noteq> n)"
  by (auto simp: find_sub_def position_from_Some slice_def simp del: position_from.simps)

lemma find_sub_append: "find_sub h n = Some j \<Longrightarrow> find_sub (h @ b) n = Some j"
  by (auto simp: find_sub_Some)

lemma find_sub_exists: "n \<noteq> [] \<Longrightarrow> find_sub (a @ n @ b) n \<noteq> None"
proof -
  assume n: "n \<noteq> []"
  define j where "j = (LEAST j. take (length n) (drop j (a @ n @ b)) = n)"
  have found: "take (length n) (drop (length a) (a @ n @ b)) = n" by simp
  have "take (length n) (drop j (a @ n @ b)) = n" unfolding j_def by (rule LeastI [of _ "length a"]) simp
  moreover have "j \<le> length a" unfolding j_def by (rule Least_le) simp
  moreover have "\<forall>k < j. take (length n) (drop k (a @ n @ b)) \<noteq> n" using not_less_Least unfolding j_def by blast
  ultimately have "find_sub (a @ n @ b) n = Some j" using n by (simp add: find_sub_Some)
  then show ?thesis by simp
qed

lemma find_sub_split: "find_sub h n = Some j \<Longrightarrow> \<exists>a b. h = a @ n @ b \<and> length a = j"
  by (metis append_take_drop_id find_sub_Some length_take min.absorb2 le_add1 le_trans)

lemma head_has_line: "find_sub h CRLF2 = Some j \<Longrightarrow> \<exists>k. find_sub h CRLF = Some k"
proof -
  assume "find_sub h CRLF2 = Some j"
  then obtain a b where "h = a @ CRLF2 @ b" using find_sub_split by blast
  then have "h = a @ CRLF @ (CRLF @ b)" by (simp add: CRLF2_def CRLF_def)
  then show ?thesis using find_sub_exists [of CRLF a "CRLF @ b"] by (auto simp: CRLF_def)
qed

lemma http_2xx_append: "find_sub h CRLF2 = Some j \<Longrightarrow> http_2xx (h @ b) = http_2xx h"
proof -
  assume "find_sub h CRLF2 = Some j"
  then obtain k where k: "find_sub h CRLF = Some k" using head_has_line by blast
  then have "k \<le> length h" by (simp add: find_sub_Some)
  then show ?thesis using k find_sub_append [OF k, of b] by (simp add: http_2xx_def)
qed

section \<open>Host and port\<close>

text \<open>\<open>split_once\<close> with a two-character separator.\<close>

definition split_once_str :: "string \<Rightarrow> string \<Rightarrow> (string \<times> string) option" where
  "split_once_str sep s =
     (case find_sub (as_bytes s) (as_bytes sep) of
        Some i \<Rightarrow> Some (take i s, drop (i + length sep) s)
      | None \<Rightarrow> None)"

definition split_host_port :: "string \<Rightarrow> (string \<times> u16) option" where
  "split_host_port t0 =
     (let t = trim t0
      in case strip_prefix t ''['' of
           Some rest \<Rightarrow> (case split_once_str '']:'' rest of
             None \<Rightarrow> None
           | Some (h, p) \<Rightarrow> map_option (Pair h) (parse_u16 p))
         | None \<Rightarrow> (case rsplit_once (CHR '':'') t of
             None \<Rightarrow> None
           | Some (h, p) \<Rightarrow> map_option (Pair h) (parse_u16 p)))"

definition host_of :: "string \<Rightarrow> string" where
  "host_of addr = (case rsplit_once (CHR '':'') addr of Some (h, _) \<Rightarrow> h | None \<Rightarrow> addr)"

section \<open>Comparison without early exit\<close>

definition byte_at :: "bytes \<Rightarrow> nat \<Rightarrow> u8" where
  "byte_at bs i = (if i < length bs then bs ! i else 0)"

definition constant_time_eq_bytes :: "bytes \<Rightarrow> bytes \<Rightarrow> bool" where
  "constant_time_eq_bytes left right =
     (let len = max (length left) (length right);
          diff = word_of_nat (length left) XOR (word_of_nat (length right) :: u64)
      in fold (\<lambda>i diff. diff OR ucast (byte_at left i XOR byte_at right i)) [0..<len] diff = 0)"

definition constant_time_eq :: "string \<Rightarrow> string \<Rightarrow> bool" where
  "constant_time_eq left right = constant_time_eq_bytes (as_bytes left) (as_bytes right)"

lemma or_eq_0: "(a OR b = (0 :: 'a::len word)) \<longleftrightarrow> a = 0 \<and> b = 0"
  by (auto simp: bit_eq_iff bit_or_iff)

lemma xor_eq_0: "(a XOR b = (0 :: 'a::len word)) \<longleftrightarrow> a = b"
  by (auto simp: bit_eq_iff bit_xor_iff)

lemma fold_or_zero:
  "fold (\<lambda>i diff. diff OR f i) is d = (0 :: 'a::len word) \<longleftrightarrow> d = 0 \<and> (\<forall>i \<in> set is. f i = 0)"
  by (induction "is" arbitrary: d) (auto simp: or_eq_0)

text \<open>The comparison is equality for any two strings of representable length.\<close>

lemma constant_time_eq_bytes_iff:
  assumes "length left < 2 ^ 64" and "length right < 2 ^ 64"
  shows "constant_time_eq_bytes left right \<longleftrightarrow> left = right"
proof -
  have ucast0: "(ucast x :: u64) = 0 \<longleftrightarrow> x = 0" for x :: u8
  proof
    assume zero: "(ucast x :: u64) = 0"
    show "x = 0"
    proof (rule bit_word_eqI)
      fix n
      assume "n < LENGTH(8)"
      then have "bit x n = bit (ucast x :: u64) n" by (simp add: bit_ucast_iff)
      then show "bit x n = bit (0 :: u8) n" by (simp add: zero)
    qed
  qed simp
  have "unat (word_of_nat n :: u64) = n" if "n < 2 ^ 64" for n
    using that by (simp add: of_nat_inverse)
  then have len: "(word_of_nat (length left) :: u64) = word_of_nat (length right) \<longleftrightarrow> length left = length right"
    using assms by metis
  show ?thesis
    by (auto simp: constant_time_eq_bytes_def Let_def fold_or_zero xor_eq_0 ucast0 len byte_at_def
        intro: nth_equalityI)
qed

end
