(* ===== verification/Proxy_Engine.thy ===== *)
theory Proxy_Engine
  imports Snapshot_Decide Proxy_Util "HOL-Library.Multiset"
begin

text \<open>
  The decision engine (\<open>src/engine.rs\<close>): the snapshot being served, the count of live
  connections per user, authentication and connection permits. The local date is an argument, and
  so is the TLS exporter of a TUIC session.
\<close>

section \<open>Engine\<close>

record auth_ok =
  ao_up_rate :: u64
  ao_down_rate :: u64
  ao_max_connections :: u64

record ('d, 'n) engine =
  en_snap :: "('d, 'n) snapshot"
  en_active_connections :: "string \<rightharpoonup> nat"

definition engine_new :: "('d, 'n) engine" where
  "engine_new = \<lparr>en_snap = snapshot_empty, en_active_connections = Map.empty\<rparr>"

definition replace_snapshot :: "('d, 'n) snapshot \<Rightarrow> ('d, 'n) engine \<Rightarrow> ('d, 'n) engine" where
  "replace_snapshot s E = E\<lparr>en_snap := s\<rparr>"

definition engine_version :: "('d, 'n) engine \<Rightarrow> u64" where
  "engine_version E = sn_version (en_snap E)"

definition engine_schema_version :: "('d, 'n) engine \<Rightarrow> u32" where
  "engine_schema_version E = sn_schema_version (en_snap E)"

definition auth_ok_of :: "'d user \<Rightarrow> auth_ok" where
  "auth_ok_of u = \<lparr>ao_up_rate = us_up_rate u, ao_down_rate = us_down_rate u, ao_max_connections = us_max_connections u\<rparr>"

definition expired :: "'d::linorder \<Rightarrow> 'd user \<Rightarrow> bool" where
  "expired now u = (case us_expire u of Some exp \<Rightarrow> exp < now | None \<Rightarrow> False)"

definition authenticate ::
  "'d::linorder \<Rightarrow> ('d, 'n) engine \<Rightarrow> string \<Rightarrow> string \<Rightarrow> proxy_error + auth_ok" where
  "authenticate now E username password =
     (case snapshot_user (en_snap E) username of
        None \<Rightarrow> Inl AuthFailed
      | Some user \<Rightarrow>
          if \<not> constant_time_eq (us_password user) password then Inl AuthFailed
          else if expired now user then Inl Expired
          else Inr (auth_ok_of user))"

definition authenticate_bound_identity ::
  "'d::linorder \<Rightarrow> ('d, 'n) engine \<Rightarrow> string \<Rightarrow> proxy_error + auth_ok" where
  "authenticate_bound_identity now E username =
     (case snapshot_user (en_snap E) username of
        None \<Rightarrow> Inl AuthFailed
      | Some user \<Rightarrow> if expired now user then Inl Expired else Inr (auth_ok_of user))"

definition format_uuid :: "bytes \<Rightarrow> string option" where
  "format_uuid b =
     (if length b \<noteq> 16 then None
      else let hex = show_hex b
           in Some (slice 0 8 hex @ ''-'' @ slice 8 12 hex @ ''-'' @ slice 12 16 hex @ ''-'' @
                    slice 16 20 hex @ ''-'' @ slice 20 32 hex))"

definition TUIC_TOKEN_LEN :: nat where "TUIC_TOKEN_LEN = 32"

definition authenticate_tuic ::
  "'d::linorder \<Rightarrow> (bytes \<Rightarrow> bytes \<Rightarrow> nat \<Rightarrow> bytes option) \<Rightarrow> ('d, 'n) engine \<Rightarrow> bytes \<Rightarrow> bytes \<Rightarrow>
   proxy_error + string \<times> auth_ok" where
  "authenticate_tuic now exporter E uuid_bytes token =
     (if length token \<noteq> TUIC_TOKEN_LEN then Inl AuthFailed
      else case format_uuid uuid_bytes of
        None \<Rightarrow> Inl AuthFailed
      | Some uuid \<Rightarrow> (case frontend_user (en_snap E) ''tuic'' uuid of
          None \<Rightarrow> Inl AuthFailed
        | Some (username, user) \<Rightarrow>
            (case Option.bind (map_of (us_frontends user) ''tuic'') fc_password of
               None \<Rightarrow> Inl AuthFailed
             | Some password \<Rightarrow> (case exporter uuid_bytes (as_bytes password) TUIC_TOKEN_LEN of
                 None \<Rightarrow> Inl AuthFailed
               | Some expected \<Rightarrow>
                   if \<not> constant_time_eq_bytes expected token then Inl AuthFailed
                   else if expired now user then Inl Expired
                   else Inr (username, auth_ok_of user)))))"

definition acquire_connection ::
  "string \<Rightarrow> nat \<Rightarrow> ('d, 'n) engine \<Rightarrow> (proxy_error + string) \<times> ('d, 'n) engine" where
  "acquire_connection username max_connections E =
     (let current = (case en_active_connections E username of Some c \<Rightarrow> c | None \<Rightarrow> 0)
      in if 0 < max_connections \<and> max_connections \<le> current
         then (Inl (ConnectionLimitExceeded current max_connections), E)
         else (Inr username, E\<lparr>en_active_connections := (en_active_connections E)(username \<mapsto> current + 1)\<rparr>))"

text \<open>Dropping a permit, which is the name of the user it was given to.\<close>

definition drop_permit :: "string \<Rightarrow> ('d, 'n) engine \<Rightarrow> ('d, 'n) engine" where
  "drop_permit username E =
     (case en_active_connections E username of
        None \<Rightarrow> E
      | Some c \<Rightarrow>
          if 1 < c then E\<lparr>en_active_connections := (en_active_connections E)(username \<mapsto> c - 1)\<rparr>
          else E\<lparr>en_active_connections := (en_active_connections E)(username := None)\<rparr>)"

definition engine_decide :: "'n ip_net \<Rightarrow> ('d, 'n) engine \<Rightarrow> string \<Rightarrow> string \<Rightarrow> decision" where
  "engine_decide N E username host = decide N (en_snap E) username host"

definition engine_decide_with_sniff ::
  "'n ip_net \<Rightarrow> ('d, 'n) engine \<Rightarrow> string \<Rightarrow> string \<Rightarrow> string option \<Rightarrow> resolved_decision" where
  "engine_decide_with_sniff N E username requested sniffed =
     decide_with_sniff N (en_snap E) username requested sniffed"

section \<open>Runs of an engine\<close>

text \<open>
  The operations of an engine in any interleaving, with the snapshots served so far, the users and
  limits that authentication has handed out so far, and the permits that are alive. The listeners
  ask for a permit with the user and the limit an authentication returned, as often as they like
  and however long ago that was. Every operation runs under the engine's lock, so a run is a
  sequence of them.
\<close>

inductive engine_run ::
  "('d :: linorder, 'n) snapshot set \<Rightarrow> (string \<times> nat) set \<Rightarrow> ('d, 'n) engine \<Rightarrow> string multiset \<Rightarrow> bool" where
  start: "engine_run {snapshot_empty} {} engine_new {#}"
| replaced: "engine_run S G E live \<Longrightarrow> engine_run (insert s S) G (replace_snapshot s E) live"
| logged_in: "engine_run S G E live \<Longrightarrow> authenticate now E u password = Inr ok \<Longrightarrow>
    engine_run S (insert (u, unat (ao_max_connections ok)) G) E live"
| identity_bound: "engine_run S G E live \<Longrightarrow> authenticate_bound_identity now E u = Inr ok \<Longrightarrow>
    engine_run S (insert (u, unat (ao_max_connections ok)) G) E live"
| tuic_opened: "engine_run S G E live \<Longrightarrow> authenticate_tuic now exporter E uuid token = Inr (u, ok) \<Longrightarrow>
    engine_run S (insert (u, unat (ao_max_connections ok)) G) E live"
| acquired: "engine_run S G E live \<Longrightarrow> (u, m) \<in> G \<Longrightarrow> acquire_connection u m E = (Inr p, E') \<Longrightarrow>
    engine_run S G E' (add_mset p live)"
| refused: "engine_run S G E live \<Longrightarrow> (u, m) \<in> G \<Longrightarrow> acquire_connection u m E = (Inl e, E') \<Longrightarrow> engine_run S G E' live"
| dropped: "engine_run S G E live \<Longrightarrow> p \<in># live \<Longrightarrow> engine_run S G (drop_permit p E) (live - {#p#})"

definition permits_counted :: "('d, 'n) engine \<Rightarrow> string multiset \<Rightarrow> bool" where
  "permits_counted E live \<longleftrightarrow>
     (\<forall>u. en_active_connections E u = (if count live u = 0 then None else Some (count live u)))"

lemma acquire_cases:
  assumes "acquire_connection u m E = (r, E')" and "permits_counted E live"
  shows "if 0 < m \<and> m \<le> count live u
    then r = Inl (ConnectionLimitExceeded (count live u) m) \<and> E' = E
    else r = Inr u \<and> permits_counted E' (add_mset u live)"
proof -
  have "(case en_active_connections E u of Some c \<Rightarrow> c | None \<Rightarrow> 0) = count live u"
    using assms(2) by (simp add: permits_counted_def)
  with assms show ?thesis
    by (auto simp: acquire_connection_def permits_counted_def)
qed

lemma drop_counted:
  assumes "permits_counted E live" and "p \<in># live"
  shows "permits_counted (drop_permit p E) (live - {#p#})"
proof -
  have "en_active_connections E p = Some (count live p)"
    using assms by (simp add: permits_counted_def count_eq_zero_iff)
  moreover have "0 < count live p" using assms(2) by simp
  ultimately show ?thesis
    using assms(1) by (auto simp: drop_permit_def permits_counted_def count_eq_zero_iff)
qed

lemma engine_run_counted: "engine_run S G E live \<Longrightarrow> permits_counted E live"
proof (induction rule: engine_run.induct)
  case (acquired S G E live u m p E')
  with acquire_cases [OF acquired.hyps(3) acquired.IH] show ?case by (auto split: if_splits)
next
  case (refused S G E live u m e E')
  with acquire_cases [OF refused.hyps(3) refused.IH] show ?case by (auto split: if_splits)
next
  case (dropped S G E live p)
  then show ?case by (simp add: drop_counted)
qed (simp_all add: permits_counted_def engine_new_def replace_snapshot_def)

text \<open>Whatever limit was handed out is the limit of the user in a snapshot that was served.\<close>

lemma authenticated_user:
  "authenticate now E u password = Inr ok \<Longrightarrow> \<exists>us. snapshot_user (en_snap E) u = Some us \<and> ok = auth_ok_of us"
  "authenticate_bound_identity now E u = Inr ok \<Longrightarrow> \<exists>us. snapshot_user (en_snap E) u = Some us \<and> ok = auth_ok_of us"
  "authenticate_tuic now exporter E uuid token = Inr (u, ok) \<Longrightarrow> \<exists>us. snapshot_user (en_snap E) u = Some us \<and> ok = auth_ok_of us"
  by (auto simp: authenticate_def authenticate_bound_identity_def authenticate_tuic_def frontend_user_def snapshot_user_def
      split: option.splits if_splits)

lemma granted_limit:
  "\<exists>us. snapshot_user (en_snap E) u = Some us \<and> ok = auth_ok_of us \<Longrightarrow> en_snap E \<in> S \<Longrightarrow>
     \<exists>s \<in> S. \<exists>us. snapshot_user s u = Some us \<and> unat (ao_max_connections ok) = unat (us_max_connections us)"
  by (auto simp: auth_ok_of_def intro!: bexI [of _ "en_snap E"])

lemma engine_run_granted:
  "engine_run S G E live \<Longrightarrow> en_snap E \<in> S \<and>
     (\<forall>(u, m) \<in> G. \<exists>s \<in> S. \<exists>us. snapshot_user s u = Some us \<and> m = unat (us_max_connections us))"
proof (induction rule: engine_run.induct)
  case (logged_in S G E live now u password ok)
  then show ?case using granted_limit [OF authenticated_user(1) [OF logged_in.hyps(2)]] by auto
next
  case (identity_bound S G E live now u ok)
  then show ?case using granted_limit [OF authenticated_user(2) [OF identity_bound.hyps(2)]] by auto
next
  case (tuic_opened S G E live now exporter uuid token u ok)
  then show ?case using granted_limit [OF authenticated_user(3) [OF tuic_opened.hyps(2)]] by auto
qed (auto simp: engine_new_def replace_snapshot_def acquire_connection_def drop_permit_def Let_def
    split: if_splits option.splits)

lemma engine_run_bounded:
  "engine_run S G E live \<Longrightarrow> \<forall>m. (u, m) \<in> G \<longrightarrow> 0 < m \<and> m \<le> L \<Longrightarrow> count live u \<le> L"
proof (induction rule: engine_run.induct)
  case (acquired S G E live v m p E')
  note cases = acquire_cases [OF acquired.hyps(3) engine_run_counted [OF acquired.hyps(1)]]
  then have p: "p = v" by (auto split: if_splits)
  show ?case
  proof (cases "v = u")
    case True
    then have "0 < m \<and> m \<le> L" using acquired.hyps(2) acquired.prems by blast
    then show ?thesis using cases True p by (auto split: if_splits)
  next
    case False
    then show ?thesis using acquired p by simp
  qed
next
  case (dropped S G E live p)
  then show ?case by (simp add: le_diff_conv)
qed auto

section \<open>Properties\<close>

text \<open>
  C4: connection limits hold over every run. Take any interleaving of snapshot swaps, logins by
  password, TUIC token or listener identity, connections and disconnections in which every snapshot
  served sets a limit between 1 and \<open>L\<close> for the user. Then the user never has more than \<open>L\<close> live
  permits; the count kept for the user is the number of the live permits; and a request for a
  permit is refused exactly when the limit it was authenticated with is reached. (Lowering a limit
  does not end connections that were admitted before.)
\<close>

theorem permits_exact:
  assumes "engine_run S G E live"
    and "\<forall>s \<in> S. \<forall>us. snapshot_user s u = Some us \<longrightarrow> 0 < unat (us_max_connections us) \<and> unat (us_max_connections us) \<le> L"
  shows "count live u \<le> L \<and>
    en_active_connections E u = (if count live u = 0 then None else Some (count live u)) \<and>
    (\<forall>m. fst (acquire_connection u m E) =
       (if 0 < m \<and> m \<le> count live u then Inl (ConnectionLimitExceeded (count live u) m) else Inr u))"
proof (intro conjI allI)
  have counted: "permits_counted E live" using engine_run_counted [OF assms(1)] .
  show "count live u \<le> L"
  proof (rule engine_run_bounded [OF assms(1)], intro allI impI)
    fix m
    assume "(u, m) \<in> G"
    then obtain s us where "s \<in> S" "snapshot_user s u = Some us" "m = unat (us_max_connections us)"
      using engine_run_granted [OF assms(1)] by blast
    then show "0 < m \<and> m \<le> L" using assms(2) by blast
  qed
  show "en_active_connections E u = (if count live u = 0 then None else Some (count live u))"
    using counted by (simp add: permits_counted_def)
  fix m
  obtain r E' where "acquire_connection u m E = (r, E')" by force
  then show "fst (acquire_connection u m E) =
      (if 0 < m \<and> m \<le> count live u then Inl (ConnectionLimitExceeded (count live u) m) else Inr u)"
    using acquire_cases [OF _ counted] by (metis fst_conv)
qed

definition demo_user :: "nat user" where
  "demo_user = \<lparr>us_password = ''pw'', us_expire = None, us_up_rate = 0, us_down_rate = 0, us_max_connections = 1,
     us_policy = ''p'', us_frontends = []\<rparr>"

definition limited_snapshot :: "(nat, nat) snapshot" where
  "limited_snapshot = snapshot_empty\<lparr>sn_users := [(''a'', demo_user)]\<rparr>"

lemma limited_run:
  "\<exists>E. engine_run {limited_snapshot, snapshot_empty} {(''a'', 1)} E {#''a''#}"
proof -
  let ?E = "replace_snapshot limited_snapshot (engine_new :: (nat, nat) engine)"
  have run: "engine_run {limited_snapshot, snapshot_empty} {} ?E {#}" by (rule engine_run.replaced [OF engine_run.start])
  have "authenticate 0 ?E ''a'' ''pw'' = Inr (auth_ok_of demo_user)" by code_simp
  from engine_run.logged_in [OF run this]
  have "engine_run {limited_snapshot, snapshot_empty} {(''a'', 1)} ?E {#}" by (simp add: auth_ok_of_def demo_user_def)
  moreover have "acquire_connection ''a'' 1 ?E = (Inr ''a'', ?E\<lparr>en_active_connections := [''a'' \<mapsto> 1]\<rparr>)"
    by (simp add: acquire_connection_def replace_snapshot_def engine_new_def)
  ultimately show ?thesis using engine_run.acquired [of _ _ ?E "{#}" "''a''" 1] by fastforce
qed

theorem permits_exact_witness:
  "\<exists>S G E live. engine_run S G (E :: (nat, nat) engine) live \<and> count live ''a'' = 1 \<and>
     fst (acquire_connection ''a'' 1 E) = Inl (ConnectionLimitExceeded 1 1)"
proof -
  obtain E where run: "engine_run {limited_snapshot, snapshot_empty} {(''a'', 1)} E {#''a''#}" using limited_run by blast
  have "\<forall>s \<in> {limited_snapshot, snapshot_empty}. \<forall>us. snapshot_user s ''a'' = Some us \<longrightarrow>
      0 < unat (us_max_connections us) \<and> unat (us_max_connections us) \<le> 1"
    by (simp add: limited_snapshot_def snapshot_empty_def snapshot_user_def demo_user_def)
  from permits_exact [OF run this] have "fst (acquire_connection ''a'' 1 E) = Inl (ConnectionLimitExceeded 1 1)" by simp
  then show ?thesis using run by (intro exI conjI) auto
qed

text \<open>
  C18: authentication admits exactly the right identities: a login succeeds exactly when the user
  exists in the snapshot being served, the password is the same and the account has not expired,
  and it then returns that user's limits; the reason of a refusal is expiry only for a correct
  password.
\<close>

theorem authenticate_exact:
  assumes "length password < 2 ^ 64"
    and "\<forall>u. snapshot_user (en_snap E) username = Some u \<longrightarrow> length (us_password u) < 2 ^ 64"
  shows "authenticate now E username password =
    (case snapshot_user (en_snap E) username of
       None \<Rightarrow> Inl AuthFailed
     | Some u \<Rightarrow>
         if us_password u \<noteq> password then Inl AuthFailed
         else if \<exists>d. us_expire u = Some d \<and> d < now then Inl Expired
         else Inr (auth_ok_of u))"
proof -
  have "constant_time_eq (us_password u) password \<longleftrightarrow> us_password u = password"
    if "snapshot_user (en_snap E) username = Some u" for u
  proof -
    have "as_bytes a = as_bytes b \<longleftrightarrow> a = b" for a b :: string by (metis of_as_bytes)
    then show ?thesis
      using assms that by (simp add: constant_time_eq_def constant_time_eq_bytes_iff)
  qed
  then show ?thesis
    by (auto simp: authenticate_def expired_def split: option.split)
qed

theorem authenticate_exact_witness:
  "authenticate 3 (replace_snapshot demo_snapshot engine_new) ''alice'' ''pw'' =
     Inr (auth_ok_of (the (snapshot_user demo_snapshot ''alice''))) \<and>
   authenticate 3 (replace_snapshot demo_snapshot engine_new) ''alice'' ''pw2'' = Inl AuthFailed"
proof -
  let ?E = "replace_snapshot demo_snapshot engine_new"
  have alice: "case snapshot_user demo_snapshot ''alice'' of None \<Rightarrow> False
      | Some u \<Rightarrow> us_password u = ''pw'' \<and> us_expire u = None"
    by code_simp
  then obtain u where u: "snapshot_user demo_snapshot ''alice'' = Some u" "us_password u = ''pw''" "us_expire u = None"
    by (auto split: option.splits)
  have "\<forall>u. snapshot_user (en_snap ?E) ''alice'' = Some u \<longrightarrow> length (us_password u) < 2 ^ 64"
    using u by (simp add: replace_snapshot_def)
  from authenticate_exact [of "''pw''", OF _ this, of 3] authenticate_exact [of "''pw2''", OF _ this, of 3]
  show ?thesis using u by (simp add: replace_snapshot_def)
qed

end
