(* ===== verification/Rust_Net_Text.thy ===== *)
theory Rust_Net_Text
  imports Rust_Net
begin

text \<open>
  Printing an address and parsing the text gives the address back, for every IPv4 and IPv6
  address and socket address without flow information. The protocols that carry addresses as
  text rest on this.
\<close>

section \<open>Numbers\<close>

lemma digit_run_append:
  assumes "\<forall>c \<in> set s. to_digit radix c \<noteq> None" and "r = [] \<or> to_digit radix (hd r) = None"
  shows "digit_run radix (s @ r) = (map (\<lambda>c. the (to_digit radix c)) s, r)"
  using assms
proof (induction s)
  case Nil
  then show ?case by (cases r) auto
qed auto

lemma digits_value_number:
  "\<forall>c \<in> set s. to_digit radix c \<noteq> None \<Longrightarrow>
     digits_value radix acc s = Some (foldl (\<lambda>acc d. acc * radix + d) acc (map (\<lambda>c. the (to_digit radix c)) s))"
  by (induction s arbitrary: acc) auto

lemma read_number_append:
  assumes "\<forall>c \<in> set s. to_digit radix c \<noteq> None" and "r = [] \<or> to_digit radix (hd r) = None"
    and "s \<noteq> []" and "length s \<le> m" and "digits_value radix 0 s = Some n" and "n \<le> most"
    and "zeros \<or> hd s \<noteq> CHR ''0'' \<or> length s = 1"
  shows "read_number radix (Some m) zeros most (s @ r) = Some (n, r)"
  using assms digit_run_append [OF assms(1,2)] digits_value_number [OF assms(1), of 0]
  by (auto simp: read_number_def number_of_def)

lemma to_digit_10: "is_ascii_digit c \<Longrightarrow> to_digit 10 c \<noteq> None"
  by (auto simp: is_ascii_digit_def char_in_def to_digit_def Let_def)

lemma show_nat_zero: "hd (show_nat n) = CHR ''0'' \<Longrightarrow> length (show_nat n) = 1"
proof (induction n rule: show_nat.induct)
  case (1 n)
  show ?case
  proof (cases "n < 10")
    case False
    then have "hd (show_nat (n div 10)) = CHR ''0''" "show_nat n = show_nat (n div 10) @ [digit_char (n mod 10)]"
      using "1.prems" by (simp_all add: show_nat.simps [of n])
    with 1 False have "length (show_nat (n div 10)) = 1" by simp
    then have "n div 10 < 10" by (cases "n div 10 < 10") (simp_all add: show_nat.simps [of "n div 10"])
    then have "hd (show_nat (n div 10)) = digit_char (n div 10)" by (simp add: show_nat.simps [of "n div 10"])
    with \<open>hd (show_nat (n div 10)) = CHR ''0''\<close> have "to_digit 10 (digit_char (n div 10)) = Some 0"
      by (simp add: to_digit_def)
    with \<open>n div 10 < 10\<close> False show ?thesis by (simp add: to_digit_digit_char)
  qed (simp add: show_nat.simps)
qed

lemma read_decimal:
  assumes "n \<le> 255" and "r = [] \<or> to_digit 10 (hd r) = None"
  shows "read_number 10 (Some 3) False 255 (show_nat n @ r) = Some (n, r)"
proof (rule read_number_append)
  show "\<forall>c \<in> set (show_nat n). to_digit 10 c \<noteq> None" using to_digit_10 show_nat_digits by blast
qed (use assms show_nat_zero [of n] length_show_nat [of n 3] in \<open>auto simp: digits_value_show_nat\<close>)

section \<open>IPv4\<close>

lemma to_digit_stop: "to_digit 10 (CHR ''.'') = None" "to_digit 10 (CHR '':'') = None" "to_digit 16 (CHR '':'') = None"
  by (simp_all add: to_digit_def)

lemma read_octets_show:
  assumes "r = [] \<or> to_digit 10 (hd r) = None"
  shows "os \<noteq> [] \<Longrightarrow> read_octets (length os) i
     ((if 0 < i then ''.'' else []) @ join ''.'' (map (\<lambda>b. show_nat (unat b)) os) @ r) = Some (os, r)"
proof (induction os arbitrary: i)
  case (Cons b os)
  have b: "unat b \<le> 255" using unat_byte_lt [of b] by linarith
  define t where "t = (if os = [] then r else CHR ''.'' # join ''.'' (map (\<lambda>b. show_nat (unat b)) os) @ r)"
  have shown: "join ''.'' (map (\<lambda>b. show_nat (unat b)) (b # os)) @ r = show_nat (unat b) @ t"
    by (cases os) (simp_all add: t_def)
  have "read_octets (length os) (Suc i) t = Some (os, r)"
    using Cons.IH [of "Suc i"] by (cases "os = []") (simp_all add: t_def)
  moreover have "read_number 10 (Some 3) False 255 (show_nat (unat b) @ t) = Some (unat b, t)"
    using assms to_digit_stop by (intro read_decimal b) (simp add: t_def)
  ultimately show ?case
    unfolding shown by (cases "i = 0") (simp_all add: read_separator_def read_given_char_def)
qed simp

lemma read_ipv4_show:
  assumes "r = [] \<or> to_digit 10 (hd r) = None"
  shows "read_ipv4_addr (show_ipv4 a @ r) = Some (a, r)"
proof -
  have "length (ipv4_octets a) = 4" by simp
  moreover have "ipv4_octets a \<noteq> []" by (metis calculation length_0_conv zero_neq_numeral)
  ultimately have "read_octets 4 0 (show_ipv4 a @ r) = Some (ipv4_octets a, r)"
    using read_octets_show [OF assms, of "ipv4_octets a" 0] by (simp add: show_ipv4_def)
  then show ?thesis by (simp add: read_ipv4_addr_def ipv4_octets_def)
qed

text \<open>Text whose first run of digits is not followed by a dot is no IPv4 address.\<close>

lemma read_ipv4_none:
  assumes "snd (digit_run 10 s) = [] \<or> hd (snd (digit_run 10 s)) \<noteq> CHR ''.''"
  shows "read_ipv4_addr s = None"
proof -
  have "read_given_char (CHR ''.'') (snd (digit_run 10 s)) = None"
    using assms by (cases "snd (digit_run 10 s)") (auto simp: read_given_char_def)
  moreover have "read_number 10 (Some 3) False 255 s = Some (n, t) \<Longrightarrow> t = snd (digit_run 10 s)" for n t
    by (auto simp: read_number_def Let_def split_beta split: if_splits)
  ultimately have "read_octets 4 0 s = None"
    by (auto simp: numeral_eq_Suc read_separator_def split: option.splits)
  then show ?thesis by (simp add: read_ipv4_addr_def)
qed

section \<open>Groups of an IPv6 address\<close>

lemma to_digit_16_hex: "d < 16 \<Longrightarrow> to_digit 16 (hex_char d) = Some d"
  by (rule to_digit_hex_char)

lemma digits_value_show_hex: "digits_value 16 0 (show_hex_nat n) = Some n"
proof (induction n rule: show_hex_nat.induct)
  case (1 n)
  then show ?case
    by (subst show_hex_nat.simps) (auto simp: digits_value_append to_digit_hex_char)
qed

lemma show_hex_nat_ne [simp]: "show_hex_nat n \<noteq> []"
  by (subst show_hex_nat.simps) simp

lemma show_hex_nat_char: "c \<in> set (show_hex_nat n) \<Longrightarrow> \<exists>d < 16. c = hex_char d"
proof (induction n rule: show_hex_nat.induct)
  case (1 n)
  then show ?case
    by (subst (asm) show_hex_nat.simps) (auto split: if_splits intro: exI [of _ "n mod 16"])
qed

lemma length_show_hex_nat: "n < 16 ^ k \<Longrightarrow> 0 < k \<Longrightarrow> length (show_hex_nat n) \<le> k"
proof (induction k arbitrary: n)
  case (Suc k)
  then show ?case
  proof (cases "n < 16")
    case False
    with Suc.prems have "n div 16 < 16 ^ k" by (simp add: less_mult_imp_div_less)
    with False Suc.IH [of "n div 16"] show ?thesis
      by (cases k) (simp_all add: show_hex_nat.simps [of n])
  qed (simp add: show_hex_nat.simps [of n])
qed simp

lemma read_group:
  assumes "r = [] \<or> to_digit 16 (hd r) = None"
  shows "read_number 16 (Some 4) True 65535 (show_hex_nat (unat (g :: u16)) @ r) = Some (unat g, r)"
proof (rule read_number_append)
  have g: "unat g < 65536" using unsigned_less [where ?'a = nat, of g] by simp
  show "unat g \<le> 65535" using g by simp
  show "length (show_hex_nat (unat g)) \<le> 4" using g by (intro length_show_hex_nat) simp_all
  show "\<forall>c \<in> set (show_hex_nat (unat g)). to_digit 16 c \<noteq> None"
    using show_hex_nat_char to_digit_hex_char by fastforce
qed (simp_all add: assms digits_value_show_hex)

text \<open>A hexadecimal group is not the start of an IPv4 address unless a dot follows.\<close>

lemma digit_run_rest:
  "snd (digit_run 10 s) = dropWhile (\<lambda>c. to_digit 10 c \<noteq> None) s"
  by (induction s) (auto simp: split_beta Let_def split: option.splits)

lemma hex_char_no_dot: "d < 16 \<Longrightarrow> hex_char d \<noteq> CHR ''.'' \<and> hex_char d \<noteq> CHR '':''"
proof -
  assume "d < 16"
  then have "to_digit 16 (hex_char d) \<noteq> None" by (simp add: to_digit_hex_char)
  moreover have "to_digit 16 (CHR ''.'') = None" "to_digit 16 (CHR '':'') = None" by (simp_all add: to_digit_def)
  ultimately show ?thesis by metis
qed

lemma group_no_ipv4:
  assumes "r = [] \<or> hd r \<noteq> CHR ''.'' \<and> to_digit 10 (hd r) = None"
  shows "read_ipv4_addr (show_hex_nat n @ r) = None"
proof (rule read_ipv4_none)
  let ?s = "dropWhile (\<lambda>c. to_digit 10 c \<noteq> None) (show_hex_nat n @ r)"
  have "?s = [] \<or> hd ?s \<in> set (show_hex_nat n) \<or> r \<noteq> [] \<and> hd ?s = hd r"
  proof (cases "\<exists>c \<in> set (show_hex_nat n). to_digit 10 c = None")
    case True
    then have "?s = dropWhile (\<lambda>c. to_digit 10 c \<noteq> None) (show_hex_nat n) @ r"
      "dropWhile (\<lambda>c. to_digit 10 c \<noteq> None) (show_hex_nat n) \<noteq> []"
      by (auto simp: dropWhile_append1)
    then show ?thesis by (metis hd_append2 hd_in_set set_dropWhileD)
  next
    case False
    then have "?s = dropWhile (\<lambda>c. to_digit 10 c \<noteq> None) r" by (simp add: dropWhile_append2)
    with assms show ?thesis by (cases r) auto
  qed
  then show "snd (digit_run 10 (show_hex_nat n @ r)) = [] \<or> hd (snd (digit_run 10 (show_hex_nat n @ r))) \<noteq> CHR ''.''"
    unfolding digit_run_rest using assms show_hex_nat_char hex_char_no_dot by metis
qed

text \<open>
  Where a list of groups ends: at the end of the text, at a bracket or scope, or at a double
  colon.
\<close>

definition groups_end :: "string \<Rightarrow> bool" where
  "groups_end r \<longleftrightarrow> r = [] \<or> hd r = CHR '']'' \<or> hd r = CHR ''%'' \<or> (\<exists>t. r = CHR '':'' # CHR '':'' # t)"

lemma groups_end_hd:
  "groups_end r \<Longrightarrow> r = [] \<or> hd r \<noteq> CHR ''.'' \<and> to_digit 10 (hd r) = None \<and> to_digit 16 (hd r) = None"
  by (auto simp: groups_end_def to_digit_def)

lemma read_nothing:
  assumes "r = [] \<or> hd r \<noteq> CHR ''.'' \<and> to_digit 10 (hd r) = None \<and> to_digit 16 (hd r) = None"
  shows "read_ipv4_addr r = None" and "read_number 16 m z k r = None"
proof -
  show "read_ipv4_addr r = None"
    using assms by (intro read_ipv4_none) (cases r; auto simp: digit_run_rest)
  show "read_number 16 m z k r = None"
    using assms by (cases r) (auto simp: read_number_def split: option.splits)
qed

lemma read_groups_stop:
  assumes "groups_end r"
  shows "read_groups left i r = ([], False, r)"
proof (cases left)
  case (Suc n)
  have none: "read_ipv4_addr r = None" "read_number 16 (Some 4) True 65535 r = None"
    by (rule read_nothing [OF groups_end_hd [OF assms]])+
  have colon: "read_ipv4_addr (CHR '':'' # t) = None" "read_number 16 (Some 4) True 65535 (CHR '':'' # t) = None" for t
    using read_nothing [of "CHR '':'' # t"] to_digit_stop by simp_all
  have "read_given_char (CHR '':'') r = None \<or>
      (\<exists>t. read_given_char (CHR '':'') r = Some ((), CHR '':'' # t))"
    using assms by (cases r) (auto simp: groups_end_def read_given_char_def)
  then have "read_separator (CHR '':'') i read_ipv4_addr r = None"
    "read_separator (CHR '':'') i (read_number 16 (Some 4) True 65535) r = None"
    by (elim disjE exE; simp add: read_separator_def none colon)+
  with Suc show ?thesis by simp
qed simp

lemma read_groups_show:
  assumes "groups_end r"
  shows "gs \<noteq> [] \<Longrightarrow> length gs \<le> left \<Longrightarrow>
     read_groups left i ((if 0 < i then '':'' else []) @ fmt_subslice gs @ r) = (gs, False, r)"
proof (induction gs arbitrary: left i)
  case (Cons g gs)
  then obtain n where left: "left = Suc n" by (cases left) auto
  define t where "t = (if gs = [] then r else CHR '':'' # fmt_subslice gs @ r)"
  have shown: "fmt_subslice (g # gs) @ r = show_hex_nat (unat g) @ t"
    by (cases gs) (simp_all add: fmt_subslice_def t_def)
  have t: "t = [] \<or> hd t \<noteq> CHR ''.'' \<and> to_digit 10 (hd t) = None \<and> to_digit 16 (hd t) = None"
    using groups_end_hd [OF assms] to_digit_stop by (simp add: t_def)
  have "read_groups n (Suc i) t = (gs, False, r)"
  proof (cases "gs = []")
    case True
    with read_groups_stop [OF assms] show ?thesis by (simp add: t_def)
  next
    case False
    with Cons.IH [of n "Suc i"] Cons.prems(2) left show ?thesis by (simp add: t_def)
  qed
  moreover have "read_ipv4_addr (show_hex_nat (unat g) @ t) = None" using t by (intro group_no_ipv4) auto
  moreover have "read_number 16 (Some 4) True 65535 (show_hex_nat (unat g) @ t) = Some (unat g, t)"
    using t by (intro read_group) auto
  ultimately show ?case unfolding shown left by (cases "i = 0"; cases n) (simp_all add: read_separator_def read_given_char_def)
qed simp

lemma read_groups_text:
  assumes "groups_end r" and "length gs \<le> left"
  shows "read_groups left 0 (fmt_subslice gs @ r) = (gs, False, r)"
  using assms read_groups_show [of r gs left 0] read_groups_stop [of r left 0]
  by (cases "gs = []") (simp_all add: fmt_subslice_def)

section \<open>IPv6\<close>

lemma length_segments [simp]: "length (segments a) = 8"
  by (simp add: segments_def)

lemma drop_bit_group:
  "drop_bit k a = drop_bit (k + 16) a * 65536 + ucast (ucast (drop_bit k a) :: u16)" for a :: u128
proof -
  have "drop_bit k a = push_bit 16 (drop_bit 16 (drop_bit k a)) + take_bit 16 (drop_bit k a)"
    by (simp only: bits_ident)
  moreover have "take_bit 16 x = (ucast (ucast x :: u16) :: u128)" for x :: u128
    by (rule bit_word_eqI) (auto simp: bit_simps)
  ultimately show ?thesis
    by (simp add: push_bit_eq_mult add.commute)
qed

lemma groups_prefix:
  "k \<le> 8 \<Longrightarrow> ipv6_of_groups (take k (segments a)) = drop_bit (128 - 16 * k) a"
proof (induction k)
  case 0
  have "drop_bit 128 a = 0" by (rule bit_word_eqI) (simp add: bit_simps)
  then show ?case by (simp add: ipv6_of_groups_def)
next
  case (Suc k)
  then have "take (Suc k) (segments a) = take k (segments a) @ [segments a ! k]"
    by (intro take_Suc_conv_app_nth) simp
  moreover have "segments a ! k = ucast (drop_bit (112 - 16 * k) a)"
    using Suc.prems by (simp add: segments_def diff_mult_distrib2)
  moreover have "128 - 16 * k = (112 - 16 * k) + 16" using Suc.prems by simp
  ultimately show ?case
    using Suc drop_bit_group [of "112 - 16 * k" a] by (simp add: ipv6_of_groups_def)
qed

lemma ipv6_of_segments [simp]: "ipv6_of_groups (segments a) = a"
  using groups_prefix [of 8 a] by simp

text \<open>The abbreviated span lies within the groups and holds only zeros.\<close>

definition span_ok :: "u16 list \<Rightarrow> nat \<Rightarrow> nat \<times> nat \<Rightarrow> bool" where
  "span_ok gs i s \<longleftrightarrow> fst s + snd s \<le> i \<and> take (snd s) (drop (fst s) gs) = replicate (snd s) 0"

lemma span_ok_mono: "span_ok gs i s \<Longrightarrow> i \<le> j \<Longrightarrow> span_ok gs j s"
  by (simp add: span_ok_def)

lemma zero_span_ok:
  assumes "span_ok (pre @ gs) (length pre) longest" and "span_ok (pre @ gs) (length pre) current"
    and "snd current \<noteq> 0 \<Longrightarrow> fst current + snd current = length pre"
  shows "span_ok (pre @ gs) (length (pre @ gs)) (zero_span gs (length pre) longest current)"
  using assms
proof (induction gs arbitrary: pre longest current)
  case (Cons g gs)
  show ?case
  proof (cases "g = 0")
    case True
    define cur where "cur = (if snd current = 0 then length pre else fst current, Suc (snd current))"
    have "span_ok (pre @ g # gs) (length (pre @ [g])) cur"
    proof (cases "snd current = 0")
      case False
      with Cons.prems(3) have "Suc (snd current + fst current) - length pre = 1" by simp
      with Cons.prems(2,3) True False show ?thesis
        by (auto simp: cur_def span_ok_def replicate_append_same [symmetric])
    qed (use True in \<open>simp add: cur_def span_ok_def\<close>)
    moreover have "span_ok (pre @ g # gs) (length (pre @ [g])) longest"
      using Cons.prems(1) by (rule span_ok_mono) simp
    moreover have "fst cur + snd cur = length (pre @ [g])" using Cons.prems(3) by (simp add: cur_def)
    moreover have "zero_span (g # gs) (length pre) longest current =
        zero_span gs (length (pre @ [g])) (if snd longest < snd cur then cur else longest) cur"
      by (simp add: True cur_def Let_def)
    ultimately show ?thesis
      using Cons.IH [of "pre @ [g]" "if snd longest < snd cur then cur else longest" cur] by simp
  next
    case False
    have "span_ok (pre @ g # gs) (length (pre @ [g])) longest"
      using Cons.prems(1) by (rule span_ok_mono) simp
    with False Cons.IH [of "pre @ [g]" longest "(0, 0)"] show ?thesis by (simp add: span_ok_def [of _ _ "(0, 0)"])
  qed
qed simp

lemma groups_around_span:
  assumes "span_ok gs (length gs) (start, len)"
  shows "take start gs @ replicate len 0 @ drop (start + len) gs = gs" "start + len \<le> length gs"
proof -
  show "take start gs @ replicate len 0 @ drop (start + len) gs = gs"
  proof -
    have "take len (drop start gs) = replicate len 0" using assms by (simp add: span_ok_def)
    moreover have "take start gs @ take len (drop start gs) @ drop len (drop start gs) = gs"
      by (simp only: append_take_drop_id)
    ultimately show ?thesis by (simp only: drop_drop add.commute)
  qed
  show "start + len \<le> length gs" using assms by (simp add: span_ok_def)
qed

lemma read_ipv6_compressed:
  assumes "start + len \<le> 8" and "1 < len" and "length gs = 8" and "groups_end r"
    and "take start gs @ replicate len 0 @ drop (start + len) gs = gs" and "r = [] \<or> hd r \<noteq> CHR '':''"
  shows "read_ipv6_addr (fmt_subslice (take start gs) @ ''::'' @ fmt_subslice (drop (start + len) gs) @ r) =
     Some (ipv6_of_groups gs, r)"
proof -
  define t where "t = fmt_subslice (drop (start + len) gs) @ r"
  have front: "read_groups 8 0 (fmt_subslice (take start gs) @ CHR '':'' # CHR '':'' # t) =
      (take start gs, False, CHR '':'' # CHR '':'' # t)"
    using assms(1-3) by (intro read_groups_text) (simp_all add: groups_end_def)
  have rear: "read_groups (8 - (start + 1)) 0 t = (drop (start + len) gs, False, r)"
    unfolding t_def using assms(1-4) by (intro read_groups_text) simp_all
  have "length (take start gs) = start" "start \<noteq> 8" "8 - start - (8 - (start + len)) = len"
    using assms(1-3) by simp_all
  with front rear assms(3,5) show ?thesis
    by (simp add: read_ipv6_addr_def t_def read_given_char_def)
qed

lemma read_ipv6_full:
  assumes "length gs = 8" and "groups_end r"
  shows "read_ipv6_addr (fmt_subslice gs @ r) = Some (ipv6_of_groups gs, r)"
  using read_groups_text [OF assms(2), of gs 8] assms(1) by (simp add: read_ipv6_addr_def)

lemma read_ipv6_mapped:
  assumes "to_ipv4_mapped a = Some v4" and "r = [] \<or> to_digit 10 (hd r) = None"
  shows "read_ipv6_addr (''::ffff:'' @ show_ipv4 v4 @ r) = Some (a, r)"
proof -
  have hi: "drop_bit 32 a = 0xffff" and v4: "v4 = ucast a" using assms(1) by (simp_all add: to_ipv4_mapped_def split: if_splits)
  have front: "read_groups 8 0 (''::ffff:'' @ show_ipv4 v4 @ r) = ([], False, ''::ffff:'' @ show_ipv4 v4 @ r)"
    by (rule read_groups_stop) (simp add: groups_end_def)
  have sizes: "(6 :: nat) = Suc 5" "(7 :: nat) = Suc 6" by simp_all
  have tail: "read_groups 6 (Suc 0) (CHR '':'' # show_ipv4 v4 @ r) = ([ucast (drop_bit 16 v4), ucast v4], True, r)"
    unfolding sizes(1) read_groups.simps(2) using read_ipv4_show [OF assms(2), of v4]
    by (simp add: read_separator_def read_given_char_def)
  have none: "read_ipv4_addr (''ffff'' @ CHR '':'' # show_ipv4 v4 @ r) = None"
    by (rule read_ipv4_none) (simp add: to_digit_def)
  have group: "read_number 16 (Some 4) True 65535 (''ffff'' @ CHR '':'' # show_ipv4 v4 @ r) =
      Some (65535, CHR '':'' # show_ipv4 v4 @ r)"
    by (rule read_number_append) (simp_all add: to_digit_def)
  have rear: "read_groups 7 0 (''ffff'' @ CHR '':'' # show_ipv4 v4 @ r) = ([0xffff, ucast (drop_bit 16 v4), ucast v4], True, r)"
    unfolding sizes(2) read_groups.simps(2) using tail none group by (simp add: read_separator_def)
  have "drop_bit 16 a = 0xffff * 65536 + ucast (ucast (drop_bit 16 a) :: u16)"
    using drop_bit_group [of 16 a] hi by simp
  moreover have "a = drop_bit 16 a * 65536 + ucast (ucast a :: u16)" using drop_bit_group [of 0 a] by simp
  moreover have "(ucast (drop_bit 16 v4) :: u16) = ucast (drop_bit 16 a)" "(ucast v4 :: u16) = ucast a"
    unfolding v4 by (rule bit_word_eqI, simp add: bit_simps)+
  ultimately have "ipv6_of_groups [0, 0, 0, 0, 0, 0xffff, ucast (drop_bit 16 v4), ucast v4] = a"
    by (simp add: ipv6_of_groups_def)
  moreover have "replicate 5 (0 :: u16) = [0, 0, 0, 0, 0]" by (simp add: eval_nat_numeral)
  ultimately show ?thesis
    using front rear by (simp add: read_ipv6_addr_def read_given_char_def)
qed

text \<open>What may follow a printed IPv6 address: nothing, a scope or a closing bracket.\<close>

definition addr_end :: "string \<Rightarrow> bool" where
  "addr_end r \<longleftrightarrow> r = [] \<or> hd r = CHR '']'' \<or> hd r = CHR ''%''"

lemma addr_end_facts:
  assumes "addr_end r"
  shows "groups_end r" "r = [] \<or> hd r \<noteq> CHR '':''" "r = [] \<or> to_digit 10 (hd r) = None"
  using assms by (auto simp: addr_end_def groups_end_def to_digit_def)

lemma read_ipv6_show:
  assumes "addr_end r"
  shows "read_ipv6_addr (show_ipv6 a @ r) = Some (a, r)"
proof (cases "to_ipv4_mapped a")
  case (Some v4)
  with read_ipv6_mapped [OF Some addr_end_facts(3) [OF assms]] show ?thesis by (simp add: show_ipv6_def)
next
  case None
  obtain start len where span: "zero_span (segments a) 0 (0, 0) (0, 0) = (start, len)" by force
  have "span_ok ([] @ segments a) (length ([] @ segments a)) (zero_span (segments a) (length ([] :: u16 list)) (0, 0) (0, 0))"
    by (rule zero_span_ok) (simp_all add: span_ok_def)
  then have "span_ok (segments a) (length (segments a)) (start, len)" using span by simp
  note around = groups_around_span [OF this]
  show ?thesis
  proof (cases "1 < len")
    case True
    with read_ipv6_compressed [of start len "segments a" r] around addr_end_facts [OF assms] span None
    show ?thesis by (simp add: show_ipv6_def Let_def)
  next
    case False
    with read_ipv6_full [of "segments a" r] addr_end_facts [OF assms] span None
    show ?thesis by (simp add: show_ipv6_def Let_def)
  qed
qed

lemma fmt_subslice_Cons:
  "\<exists>t. fmt_subslice (g # gs) = show_hex_nat (unat g) @ t \<and> (t = [] \<longleftrightarrow> gs = []) \<and> (t \<noteq> [] \<longrightarrow> hd t = CHR '':'')"
  by (cases gs) (simp_all add: fmt_subslice_def)

text \<open>A printed IPv6 address does not parse as an IPv4 address.\<close>

lemma show_ipv6_no_ipv4: "read_ipv4_addr (show_ipv6 a @ r) = None"
proof -
  have colon: "read_ipv4_addr (CHR '':'' # t) = None" for t
    by (rule read_ipv4_none) (simp add: to_digit_def)
  have group: "read_ipv4_addr (fmt_subslice (g # gs) @ CHR '':'' # t) = None" for g gs t
  proof -
    obtain u where u: "fmt_subslice (g # gs) = show_hex_nat (unat g) @ u" "u \<noteq> [] \<longrightarrow> hd u = CHR '':''"
      using fmt_subslice_Cons [of g gs] by metis
    show ?thesis
      unfolding u(1) append_assoc using u(2) to_digit_stop
      by (intro group_no_ipv4) (cases u; simp)
  qed
  have full: "read_ipv4_addr (fmt_subslice gs @ r) = None" if two: "2 \<le> length gs" for gs
  proof -
    obtain g h rest where gs: "gs = g # h # rest" using two by (cases gs; cases "tl gs") auto
    obtain u where u: "fmt_subslice gs = show_hex_nat (unat g) @ u" "u \<noteq> []" "hd u = CHR '':''"
      using fmt_subslice_Cons [of g "h # rest"] unfolding gs by auto
    show ?thesis
      unfolding u(1) append_assoc using u(2,3) to_digit_stop
      by (intro group_no_ipv4) (cases u; simp)
  qed
  have front: "read_ipv4_addr (fmt_subslice gs @ ''::'' @ t) = None" for gs t
    using group colon by (cases gs) (simp_all add: fmt_subslice_def)
  show ?thesis
  proof (cases "to_ipv4_mapped a")
    case (Some v4)
    with colon show ?thesis by (simp add: show_ipv6_def)
  next
    case None
    with front full [of "segments a"] show ?thesis by (simp add: show_ipv6_def Let_def split_beta)
  qed
qed

lemma read_ip_show: "addr_end r \<Longrightarrow> read_ip_addr (show_ip ip @ r) = Some (ip, r)"
  by (cases ip)
    (simp_all add: show_ip_def read_ip_addr_def read_ipv4_show read_ipv6_show addr_end_facts show_ipv6_no_ipv4)

lemma parse_show_ip: "parse_ip_addr (show_ip ip) = Some ip"
  using read_ip_show [of "[]" ip] by (simp add: parse_ip_addr_def parse_with_def addr_end_def)

section \<open>Socket addresses\<close>

lemma read_whole_number:
  assumes "n \<le> most" and "r = [] \<or> to_digit 10 (hd r) = None"
  shows "read_number 10 None True most (show_nat n @ r) = Some (n, r)"
proof -
  have digits: "\<forall>c \<in> set (show_nat n). to_digit 10 c \<noteq> None" using to_digit_10 show_nat_digits by blast
  show ?thesis
    using assms digit_run_append [OF digits assms(2)] digits_value_number [OF digits, of 0]
    by (simp add: read_number_def number_of_def digits_value_show_nat)
qed

lemma read_port_show: "read_port (CHR '':'' # show_nat (unat p)) = Some (p, [])"
  using read_whole_number [of "unat p" 65535 "[]"] unsigned_less [where ?'a = nat, of p]
  by (simp add: read_port_def read_given_char_def)

lemma read_scope_show:
  assumes "r = [] \<or> to_digit 10 (hd r) = None"
  shows "read_scope_id (CHR ''%'' # show_nat (unat s) @ r) = Some (s, r)"
  using read_whole_number [OF _ assms, of "unat s" 4294967295] unsigned_less [where ?'a = nat, of s]
  by (simp add: read_scope_id_def read_given_char_def)

lemma parse_show_socket_addr:
  assumes "\<And>a p f s. sa = SockV6 a p f s \<Longrightarrow> f = 0"
  shows "parse_socket_addr (show_socket_addr sa) = Some sa"
proof (cases sa)
  case (SockV4 a p)
  have "read_ipv4_addr (show_ipv4 a @ CHR '':'' # show_nat (unat p)) = Some (a, CHR '':'' # show_nat (unat p))"
    by (rule read_ipv4_show) (simp add: to_digit_stop)
  then show ?thesis
    by (simp add: SockV4 parse_socket_addr_def parse_with_def show_socket_addr_def read_socket_addr_v4_def read_port_show)
next
  case (SockV6 a p f s)
  define r where "r = '']:'' @ show_nat (unat p)"
  define q where "q = (if s = 0 then [] else ''%'' @ show_nat (unat s)) @ r"
  have shown: "show_socket_addr sa = CHR ''['' # show_ipv6 a @ q"
    by (simp add: SockV6 show_socket_addr_def q_def r_def)
  have "read_ipv6_addr (show_ipv6 a @ q) = Some (a, q)"
    by (rule read_ipv6_show) (simp add: q_def r_def addr_end_def)
  moreover have "(case read_scope_id q of None \<Rightarrow> (0, q) | Some x \<Rightarrow> x) = (s, r)"
  proof (cases "s = 0")
    case True
    then have "read_scope_id q = None" by (simp add: q_def r_def read_scope_id_def read_given_char_def)
    with True show ?thesis by (simp add: q_def)
  next
    case False
    then have "read_scope_id q = Some (s, r)" using read_scope_show [of r s] by (simp add: q_def r_def to_digit_def)
    then show ?thesis by simp
  qed
  moreover have "read_ipv4_addr (CHR ''['' # t) = None" for t
    by (rule read_ipv4_none) (simp add: to_digit_def)
  moreover have "f = 0" using assms SockV6 by blast
  ultimately show ?thesis
    unfolding shown unfolding SockV6
    by (simp add: parse_socket_addr_def parse_with_def read_socket_addr_v4_def read_socket_addr_v6_def
        read_given_char_def r_def read_port_show)
qed

section \<open>Printed addresses are plain text\<close>

lemma visible_append [simp]: "visible (a @ b) \<longleftrightarrow> visible a \<and> visible b"
  by (simp add: visible_def)

lemma visible_join: "list_all visible cs \<Longrightarrow> visible sep \<Longrightarrow> visible (join sep cs)"
  by (induction sep cs rule: join.induct) (simp_all add: visible_def)

lemma visible_show_nat: "visible (show_nat n)"
  by (auto simp: visible_def list_all_iff char_in_def is_ascii_digit_def dest!: show_nat_digits)

lemma visible_show_hex_nat: "visible (show_hex_nat n)"
  unfolding visible_def list_all_iff
proof
  fix c assume "c \<in> set (show_hex_nat n)"
  then obtain d where "d < 16" "c = hex_char d" using show_hex_nat_char by blast
  then show "char_in 33 126 c" using hex_char_visible [of d] by (auto simp: char_in_def)
qed

lemma visible_show_ipv4: "visible (show_ipv4 a)"
  unfolding show_ipv4_def
  by (rule visible_join) (simp_all add: list_all_iff visible_show_nat, simp add: visible_def char_in_def)

lemma visible_fmt: "visible (fmt_subslice gs)"
  unfolding fmt_subslice_def
  by (rule visible_join) (simp_all add: list_all_iff visible_show_hex_nat, simp add: visible_def char_in_def)

lemma visible_show_ipv6: "visible (show_ipv6 a)"
proof -
  have "visible ''::ffff:''" "visible ''::''" by (simp_all add: visible_def char_in_def)
  then show ?thesis
    unfolding show_ipv6_def Let_def split_beta
    by (simp only: option.case_eq_if if_split visible_append visible_fmt visible_show_ipv4) auto
qed

lemma visible_show_socket_addr: "visible (show_socket_addr sa)"
proof -
  have "visible '':''" "visible ''[''" "visible '']:''" "visible ''%''" by (simp_all add: visible_def char_in_def)
  then show ?thesis
    unfolding show_socket_addr_def
    by (cases sa) (simp_all only: socket_addr.case visible_append visible_show_ipv4 visible_show_ipv6
        visible_show_nat if_split, simp_all add: visible_def)
qed

end
