(* ===== verification/Frame_Text.thy ===== *)
theory Frame_Text
  imports Rust_Net_Text Rust_Cursor
begin

text \<open>
  Line-oriented frames, as the reverse-hop and ingress protocols use them: header lines ended by
  a line feed, closed by a blank line, read byte by byte so that nothing behind the blank line
  is consumed. A stream is the list of bytes still to arrive; its end and a failing transport
  are the same error to a reader that has not yet seen the whole frame.
\<close>

section \<open>Reading a frame\<close>

definition LF :: char where "LF = CHR 0x0A"
definition CR :: char where "CR = CHR 0x0D"

datatype frame_io_error = UnexpectedEof | FrameTooLarge | NotUtf8

fun read_block :: "(bytes \<Rightarrow> bool) \<Rightarrow> nat \<Rightarrow> bytes \<Rightarrow> bytes \<Rightarrow> frame_io_error + bytes \<times> bytes" where
  "read_block stop cap buf [] = Inl UnexpectedEof"
| "read_block stop cap buf (b # stream) =
     (let buf' = buf @ [b]
      in if cap < length buf' then Inl FrameTooLarge
         else if stop buf' then Inr (buf', stream)
         else read_block stop cap buf' stream)"

lemma read_block_exact:
  assumes "fr \<noteq> []" and "length (buf @ fr) \<le> cap" and "stop (buf @ fr)"
    and "\<And>k. 0 < k \<Longrightarrow> k < length fr \<Longrightarrow> \<not> stop (buf @ take k fr)"
  shows "read_block stop cap buf (fr @ rest) = Inr (buf @ fr, rest)"
  using assms
proof (induction fr arbitrary: buf)
  case (Cons b fr)
  show ?case
  proof (cases "fr = []")
    case False
    have "\<not> stop (buf @ [b])" using Cons.prems(4) [of 1] False by simp
    moreover have "read_block stop cap (buf @ [b]) (fr @ rest) = Inr ((buf @ [b]) @ fr, rest)"
    proof (rule Cons.IH [OF False])
      show "\<not> stop ((buf @ [b]) @ take k fr)" if "0 < k" "k < length fr" for k
        using Cons.prems(4) [of "Suc k"] that by simp
    qed (use Cons.prems in simp_all)
    ultimately show ?thesis using Cons.prems(2) False by (simp add: Let_def)
  qed (use Cons.prems in \<open>simp add: Let_def\<close>)
qed simp

text \<open>Reading never consumes more than the limit and gives back every byte it did not use.\<close>

lemma read_block_bound:
  "read_block stop cap buf stream = Inr (fr, rest) \<Longrightarrow>
     buf @ stream = fr @ rest \<and> length fr \<le> cap \<and> stop fr"
  by (induction stop cap buf stream rule: read_block.induct) (auto simp: Let_def split: if_splits)

section \<open>Blocks of lines\<close>

definition block :: "string list \<Rightarrow> string" where
  "block ls = concat (map (\<lambda>l. l @ [LF]) ls) @ [LF]"

definition line_ok :: "string \<Rightarrow> bool" where
  "line_ok l \<longleftrightarrow> l \<noteq> [] \<and> LF \<notin> set l"

text \<open>No line feed follows another.\<close>

abbreviation no_blank :: "string \<Rightarrow> bool" where
  "no_blank \<equiv> successively (\<lambda>x y. x \<noteq> LF \<or> y \<noteq> LF)"

lemma no_blank_line: "LF \<notin> set l \<Longrightarrow> no_blank l"
  by (induction l rule: induct_list012) auto

lemma lines_no_blank:
  assumes "\<forall>l \<in> set ls. line_ok l"
  shows "no_blank (concat (map (\<lambda>l. l @ [LF]) ls))"
  using assms
proof (induction ls)
  case (Cons l ls)
  have l: "l \<noteq> []" "LF \<notin> set l" using Cons.prems by (simp_all add: line_ok_def)
  have "last l \<noteq> LF" using l last_in_set [OF l(1)] by metis
  then have "no_blank (l @ [LF])"
    unfolding successively_append_iff using no_blank_line [OF l(2)] by auto
  moreover have "ls \<noteq> [] \<Longrightarrow> hd (concat (map (\<lambda>l. l @ [LF]) ls)) \<noteq> LF"
    using Cons.prems by (cases ls) (auto simp: line_ok_def neq_Nil_conv)
  moreover have "no_blank (concat (map (\<lambda>l. l @ [LF]) ls))" using Cons by simp
  ultimately have "no_blank ((l @ [LF]) @ concat (map (\<lambda>l. l @ [LF]) ls))"
    by (subst successively_append_iff) (cases ls; auto)
  then show ?case by simp
qed simp

lemma take_block:
  "k < length (block ls) \<Longrightarrow> take k (block ls) = take k (concat (map (\<lambda>l. l @ [LF]) ls))"
  by (simp add: block_def)

lemma block_first_blank:
  assumes "\<forall>l \<in> set ls. line_ok l" and "k < length (block ls)"
  shows "\<not> suffix [LF, LF] (take k (block ls))"
proof
  assume "suffix [LF, LF] (take k (block ls))"
  then obtain p where "take k (concat (map (\<lambda>l. l @ [LF]) ls)) = p @ [LF, LF]"
    unfolding take_block [OF assms(2)] by (auto simp: suffix_def)
  then have "concat (map (\<lambda>l. l @ [LF]) ls) = p @ [LF, LF] @ drop k (concat (map (\<lambda>l. l @ [LF]) ls))"
    by (metis append.assoc append_take_drop_id)
  with lines_no_blank [OF assms(1)] have "no_blank (p @ [LF, LF] @ drop k (concat (map (\<lambda>l. l @ [LF]) ls)))"
    by metis
  then show False by (simp add: successively_append_iff successively_Cons)
qed

lemma block_ends_blank: "ls \<noteq> [] \<Longrightarrow> suffix [LF, LF] (block ls)"
  by (induction ls rule: rev_induct) (auto simp: block_def suffix_def)

lemma split_block: "\<forall>l \<in> set ls. LF \<notin> set l \<Longrightarrow> split_on LF (block ls) = ls @ [[], []]"
  unfolding block_def by (induction ls) (auto simp: split_on_append)

section \<open>Valid text\<close>

text \<open>Every \<open>str\<close> is valid UTF-8; joining texts keeps that.\<close>

definition is_str :: "string \<Rightarrow> bool" where
  "is_str s \<longleftrightarrow> utf8_valid (as_bytes s)"

lemma cont_0 [simp]: "\<not> utf8_cont 0" "\<not> second_ok b 0"
  by (simp_all add: utf8_cont_def second_ok_def)

lemma utf8_step_append:
  assumes "a \<noteq> []" and "snd (utf8_step a)"
  shows "utf8_step (a @ b) = utf8_step a \<and> fst (utf8_step a) \<le> length a"
proof -
  consider x where "a = [x]" | x y where "a = [x, y]" | x y z where "a = [x, y, z]"
    | x y z w r where "a = x # y # z # w # r"
    using assms(1) by (metis list.exhaust)
  then show ?thesis
    using assms(2) by cases (auto simp: utf8_step_def Let_def split: if_splits)
qed

lemma utf8_valid_append: "utf8_valid a \<Longrightarrow> utf8_valid b \<Longrightarrow> utf8_valid (a @ b)"
proof (induction a rule: utf8_valid.induct)
  case (1 a)
  show ?case
  proof (cases "a = []")
    case False
    from 1 False have step: "snd (utf8_step a)" "utf8_valid (drop (fst (utf8_step a)) a)"
      using utf8_valid.simps [of a] by simp_all
    with utf8_step_append [OF False step(1), of b] 1 False show ?thesis
      by (subst utf8_valid.simps) simp
  qed (use 1 in simp)
qed

lemma is_str_Nil [simp]: "is_str []"
  by (simp add: is_str_def as_bytes_def utf8_valid.simps)

lemma is_str_append: "is_str a \<Longrightarrow> is_str b \<Longrightarrow> is_str (a @ b)"
  by (simp add: is_str_def as_bytes_def utf8_valid_append)

lemma is_str_ascii: "\<forall>c \<in> set s. of_char c < (128 :: nat) \<Longrightarrow> is_str s"
  unfolding is_str_def by (rule utf8_valid_ascii) (auto simp: as_bytes_def word_less_nat_alt)

lemma is_str_concat: "\<forall>l \<in> set ls. is_str l \<Longrightarrow> is_str (concat ls)"
  by (induction ls) (auto intro: is_str_append)

lemma is_str_block: "\<forall>l \<in> set ls. is_str l \<Longrightarrow> is_str (block ls)"
  unfolding block_def
  using is_str_append [OF _ is_str_ascii [of "[LF]"]]
  by (intro is_str_append is_str_concat) (auto intro!: is_str_ascii simp: LF_def)

lemma is_str_lossy: "is_str s \<Longrightarrow> from_utf8_lossy (as_bytes s) = as_bytes s"
  by (simp add: is_str_def from_utf8_lossy_valid)

lemma as_bytes_append: "as_bytes (a @ b) = as_bytes a @ as_bytes b"
  by (simp add: as_bytes_def)

lemma take_as_bytes: "take k (as_bytes s) = as_bytes (take k s)"
  by (simp add: as_bytes_def take_map)

lemma suffix_as_bytes: "suffix (as_bytes a) (as_bytes b) \<longleftrightarrow> suffix a b"
proof
  assume "suffix (as_bytes a) (as_bytes b)"
  then obtain p where "as_bytes b = p @ as_bytes a" by (auto simp: suffix_def)
  then have "as_bytes b = as_bytes (of_bytes p @ a)" by (simp add: as_bytes_append)
  then have "b = of_bytes p @ a" by (metis of_as_bytes)
  then show "suffix a b" by (simp add: suffix_def)
qed (auto simp: suffix_def as_bytes_append)

lemma blank_bytes: "([10, 10] :: bytes) = as_bytes [LF, LF]"
  by (simp add: as_bytes_def LF_def)

section \<open>Words and header lines\<close>

text \<open>A non-empty text without white space, also where it is followed by ASCII.\<close>

definition word_ok :: "string \<Rightarrow> bool" where
  "word_ok w \<longleftrightarrow> w \<noteq> [] \<and> list_all (\<lambda>t. t = [] \<or> ws_len t = 0) (suffixes w)"

lemma ws_len_append_space:
  assumes "t \<noteq> []" and "ws_len t = 0"
  shows "ws_len (t @ CHR '' '' # r) = 0"
proof -
  consider x where "t = [x]" | x y where "t = [x, y]" | x y z q where "t = x # y # z # q"
    using assms(1) by (metis list.exhaust)
  then show ?thesis
    using assms(2) by cases (auto simp: ws_len_def code_at_def Let_def split: if_splits)
qed

lemma word_run_word:
  assumes "\<forall>t \<in> set (suffixes w). t = [] \<or> ws_len t = 0"
  shows "word_run w = (w, [])" and "word_run (w @ CHR '' '' # r) = (w, CHR '' '' # r)"
proof -
  have ws: "ws_len (CHR '' '' # r) = 1" by (simp add: ws_len_def code_at_def)
  show "word_run w = (w, [])"
    using assms by (induction w) (subst word_run.simps, auto)+
  show "word_run (w @ CHR '' '' # r) = (w, CHR '' '' # r)"
    using assms
  proof (induction w)
    case Nil
    then show ?case using ws by (simp add: word_run.simps)
  next
    case (Cons x w)
    have "ws_len (x # w) = 0" using Cons.prems by simp
    from ws_len_append_space [OF _ this, of r] Cons show ?case
      by (subst word_run.simps) auto
  qed
qed

lemma split_words:
  assumes "word_ok a" and "word_ok b"
  shows "split_whitespace (a @ CHR '' '' # b) = [a, b]"
proof -
  have suffs: "\<forall>t \<in> set (suffixes w). t = [] \<or> ws_len t = 0" "w \<noteq> []" if "word_ok w" for w
    using that by (simp_all add: word_ok_def list_all_iff)
  have self: "ws_len w = 0" if "word_ok w" for w
    using suffs [OF that] by auto
  have "trim_start (a @ CHR '' '' # b) = a @ CHR '' '' # b"
    using ws_len_append_space [OF suffs(2) self, OF assms(1) assms(1)] by (simp add: trim_start.simps)
  moreover have "trim_start (CHR '' '' # b) = b" "trim_start b = b" "trim_start [] = []"
    using self [OF assms(2)] by (simp_all add: trim_start.simps ws_len_def code_at_def)
  ultimately show ?thesis
    using word_run_word [OF suffs(1)] assms suffs(2)
    by (simp add: split_whitespace.simps [of "a @ _"] split_whitespace.simps [of "CHR '' '' # b"]
        split_whitespace.simps [of "[]"] Let_def)
qed

lemma word_ok_no_newline: "word_ok w \<Longrightarrow> LF \<notin> set w \<and> CR \<notin> set w"
proof -
  assume w: "word_ok w"
  have "c \<notin> set w" if c: "\<And>r. ws_len (c # r) \<noteq> 0" for c
  proof
    assume "c \<in> set w"
    then obtain p q where "w = p @ c # q" by (meson split_list)
    then have "c # q \<in> set (suffixes w)" by (simp add: suffixI)
    with w have "ws_len (c # q) = 0" unfolding word_ok_def list_all_iff by blast
    with c show False by blast
  qed
  then show ?thesis by (simp add: LF_def CR_def ws_len_def code_at_def)
qed

lemma visible_word: "visible w \<Longrightarrow> w \<noteq> [] \<Longrightarrow> word_ok w"
proof -
  assume w: "visible w" "w \<noteq> []"
  have "ws_len t = 0" if "suffix t w" for t
    using ws_len_visible [OF w(1)] that by (metis suffixE append_eq_conv_conj)
  with w(2) show ?thesis by (simp add: word_ok_def list_all_iff)
qed

definition header_line :: "string \<Rightarrow> string \<Rightarrow> string" where
  "header_line n v = n @ '': '' @ v"

text \<open>A header value: valid text on one line that trimming keeps.\<close>

definition value_ok :: "string \<Rightarrow> bool" where
  "value_ok v \<longleftrightarrow> is_str v \<and> LF \<notin> set v \<and> trim v = v"

lemma header_line_ok:
  assumes "value_ok v" and "visible n"
  shows "line_ok (header_line n v)" "is_str (header_line n v)" "last (header_line n v) \<noteq> CR"
proof -
  have n: "LF \<notin> set n" "is_str n"
    using assms(2) by (auto simp: visible_def list_all_iff char_in_def LF_def intro!: is_str_ascii)
  show "line_ok (header_line n v)"
    using assms(1) n(1) by (auto simp: line_ok_def header_line_def value_ok_def LF_def)
  show "is_str (header_line n v)"
    using assms(1) n(2) is_str_ascii [of "'': ''"]
    unfolding header_line_def by (intro is_str_append) (auto simp: value_ok_def)
  show "last (header_line n v) \<noteq> CR"
    using trim_last [of v] assms(1)
    by (auto simp: header_line_def value_ok_def CR_def ws_len_def code_at_def)
qed

lemma split_header_line: "CHR '':'' \<notin> set n \<Longrightarrow> split_once (CHR '':'') (header_line n v) = Some (n, CHR '' '' # v)"
  by (simp add: header_line_def split_once_eq_Some)

lemma value_ok_visible: "visible v \<Longrightarrow> value_ok v"
  by (auto simp: value_ok_def trim_visible visible_def list_all_iff char_in_def LF_def intro!: is_str_ascii)

definition frame :: "string \<Rightarrow> (string \<times> string) list \<Rightarrow> bytes" where
  "frame l hs = as_bytes (block (l # map (\<lambda>(n, v). header_line n v) hs))"

definition name_ok :: "string \<Rightarrow> bool" where
  "name_ok n \<longleftrightarrow> visible n \<and> CHR '':'' \<notin> set n \<and> to_ascii_lowercase n = n"

definition start_ok :: "string \<Rightarrow> bool" where
  "start_ok l \<longleftrightarrow> line_ok l \<and> is_str l \<and> last l \<noteq> CR"

definition headers_ok :: "(string \<times> string) list \<Rightarrow> bool" where
  "headers_ok hs \<longleftrightarrow> list_all (\<lambda>(n, v). name_ok n \<and> value_ok v) hs"

end
