(* ===== verification/Reverse_Frame.thy ===== *)
theory Reverse_Frame
  imports Frame_Text
begin

text \<open>
  The reverse-hop protocol of \<open>reverse/frame.rs\<close>: registration, tunnel and association
  requests, replies, and the datagrams of UDP associations. The theorems say that every
  well-formed frame is read back and leaves the bytes behind it untouched, what a datagram
  carries, and that a tunnel request does not protect the host it names.
\<close>

section \<open>Requests and replies\<close>

definition PROTOCOL_VERSION :: string where "PROTOCOL_VERSION = ''rove-reverse/1''"
definition MAX_FRAME_BYTES :: nat where "MAX_FRAME_BYTES = 4096"

datatype frame_error =
    EmptyFrame | WrongVerb | UnsupportedVersion | MissingHopId | MissingToken
  | MissingHost | MissingPort | TrailingTokens | BadPort | BadHostLength | BadSessionId | BadReply
  | DatagramShort | DatagramTruncated | DatagramEmptyDomain | DatagramBadAtyp

record register_request =
  rr_hop_id :: string
  rr_token :: string
  rr_edge_id :: "string option"
  rr_caps :: "string list"

record tunnel_request =
  tr_host :: string
  tr_port :: u16
  tr_tunnel_id :: "string option"

record associate_request =
  ar_session_id :: u32
  ar_assoc_id :: "string option"

record dissociate_request =
  dr_session_id :: u32

datatype reply = ReplyOk | ReplyErr string

definition supports_udp :: "register_request \<Rightarrow> bool" where
  "supports_udp r = list_ex ((=) ''udp'') (rr_caps r)"

definition optional_line :: "string \<Rightarrow> string option \<Rightarrow> string" where
  "optional_line n v = (case v of None \<Rightarrow> [] | Some x \<Rightarrow> header_line n x @ [LF])"

definition register_encode :: "register_request \<Rightarrow> bytes" where
  "register_encode r = as_bytes
     (''REGISTER '' @ PROTOCOL_VERSION @ [LF] @
      header_line ''hop-id'' (rr_hop_id r) @ [LF] @
      header_line ''token'' (rr_token r) @ [LF] @
      optional_line ''edge-id'' (rr_edge_id r) @
      (if rr_caps r = [] then [] else header_line ''caps'' (join '','' (rr_caps r)) @ [LF]) @ [LF])"

definition tunnel_encode :: "tunnel_request \<Rightarrow> bytes" where
  "tunnel_encode r = as_bytes
     (''CONNECT '' @ tr_host r @ '' '' @ show_nat (unat (tr_port r)) @ [LF] @
      optional_line ''tunnel-id'' (tr_tunnel_id r) @ [LF])"

definition associate_encode :: "associate_request \<Rightarrow> bytes" where
  "associate_encode r = as_bytes
     (''ASSOCIATE '' @ show_nat (unat (ar_session_id r)) @ [LF] @
      optional_line ''assoc-id'' (ar_assoc_id r) @ [LF])"

definition dissociate_encode :: "dissociate_request \<Rightarrow> bytes" where
  "dissociate_encode r = as_bytes (''DISSOCIATE '' @ show_nat (unat (dr_session_id r)) @ [LF, LF])"

definition reply_encode :: "reply \<Rightarrow> bytes" where
  "reply_encode r =
     (case r of ReplyOk \<Rightarrow> as_bytes (''OK'' @ [LF, LF])
      | ReplyErr code \<Rightarrow> as_bytes (''ERR '' @ code @ [LF, LF]))"

section \<open>Reading and parsing\<close>

definition split_lines :: "bytes \<Rightarrow> string list" where
  "split_lines buf =
     rev (dropWhile ((=) []) (rev
       (map (\<lambda>l. case strip_suffix l [CR] of Some m \<Rightarrow> m | None \<Rightarrow> l)
          (split_on LF (of_bytes (from_utf8_lossy buf))))))"

definition read_frame :: "bytes \<Rightarrow> frame_io_error + string list \<times> bytes" where
  "read_frame stream =
     and_then (read_block (suffix [10, 10]) MAX_FRAME_BYTES [] stream)
       (\<lambda>(buf, rest). Inr (split_lines buf, rest))"

definition parse_headers :: "string list \<Rightarrow> (string \<times> string) list" where
  "parse_headers ls =
     List.map_filter (\<lambda>l. map_option (\<lambda>(n, v). (to_ascii_lowercase (trim n), trim v))
       (split_once (CHR '':'') l)) ls"

definition header :: "(string \<times> string) list \<Rightarrow> string \<Rightarrow> string option" where
  "header hs n = map_option snd (List.find (\<lambda>(k, v). k = n) hs)"

definition non_empty :: "string option \<Rightarrow> string option" where
  "non_empty v = (case v of Some s \<Rightarrow> if s = [] then None else Some s | None \<Rightarrow> None)"

definition first_line :: "string list \<Rightarrow> frame_error + string" where
  "first_line ls = (case ls of l # _ \<Rightarrow> Inr l | [] \<Rightarrow> Inl EmptyFrame)"

definition verb_rest :: "string \<Rightarrow> string list \<Rightarrow> frame_error + string" where
  "verb_rest verb ls = and_then (first_line ls) (\<lambda>l. ok_or (strip_prefix l verb) WrongVerb)"

definition parse_caps :: "string option \<Rightarrow> string list" where
  "parse_caps v =
     (case v of None \<Rightarrow> []
      | Some s \<Rightarrow> filter (\<lambda>c. c \<noteq> []) (map (\<lambda>c. to_ascii_lowercase (trim c)) (split_on (CHR '','') s)))"

definition register_parse :: "string list \<Rightarrow> frame_error + register_request" where
  "register_parse ls =
     and_then (verb_rest ''REGISTER '' ls) (\<lambda>version.
     and_then (ensure (trim version = PROTOCOL_VERSION) UnsupportedVersion) (\<lambda>_.
     let hs = parse_headers (tl ls) in
     and_then (ok_or (non_empty (header hs ''hop-id'')) MissingHopId) (\<lambda>hop_id.
     and_then (ok_or (header hs ''token'') MissingToken) (\<lambda>token.
     Inr \<lparr>rr_hop_id = hop_id, rr_token = token, rr_edge_id = non_empty (header hs ''edge-id''),
          rr_caps = parse_caps (header hs ''caps'')\<rparr>))))"

definition tunnel_parse :: "string list \<Rightarrow> frame_error + tunnel_request" where
  "tunnel_parse ls =
     and_then (verb_rest ''CONNECT '' ls) (\<lambda>rest.
     case split_whitespace rest of
       [] \<Rightarrow> Inl MissingHost
     | [host] \<Rightarrow> Inl MissingPort
     | [host, port] \<Rightarrow>
         and_then (ok_or (parse_u16 port) BadPort) (\<lambda>port.
         and_then (ensure (host \<noteq> [] \<and> length host \<le> 255) BadHostLength) (\<lambda>_.
         Inr \<lparr>tr_host = host, tr_port = port,
              tr_tunnel_id = non_empty (header (parse_headers (tl ls)) ''tunnel-id'')\<rparr>))
     | _ \<Rightarrow> Inl TrailingTokens)"

definition parse_u32 :: "string \<Rightarrow> u32 option" where
  "parse_u32 s = map_option word_of_nat (from_str_radix 4294967295 10 s)"

definition associate_parse :: "string list \<Rightarrow> frame_error + associate_request" where
  "associate_parse ls =
     and_then (verb_rest ''ASSOCIATE '' ls) (\<lambda>rest.
     and_then (ok_or (parse_u32 (trim rest)) BadSessionId) (\<lambda>sid.
     Inr \<lparr>ar_session_id = sid,
          ar_assoc_id = non_empty (header (parse_headers (tl ls)) ''assoc-id'')\<rparr>))"

definition dissociate_parse :: "string list \<Rightarrow> frame_error + dissociate_request" where
  "dissociate_parse ls =
     and_then (verb_rest ''DISSOCIATE '' ls) (\<lambda>rest.
     and_then (ok_or (parse_u32 (trim rest)) BadSessionId) (\<lambda>sid. Inr \<lparr>dr_session_id = sid\<rparr>))"

definition reply_parse :: "string list \<Rightarrow> frame_error + reply" where
  "reply_parse ls =
     (let first = trim (case ls of l # _ \<Rightarrow> l | [] \<Rightarrow> [])
      in if first = ''OK'' then Inr ReplyOk
         else if first = ''ERR'' then Inr (ReplyErr [])
         else case strip_prefix first ''ERR '' of
                Some code \<Rightarrow> Inr (ReplyErr (trim code))
              | None \<Rightarrow> Inl BadReply)"

section \<open>Datagrams\<close>

definition ATYP_V4 :: u8 where "ATYP_V4 = 1"
definition ATYP_DOMAIN :: u8 where "ATYP_DOMAIN = 3"
definition ATYP_V6 :: u8 where "ATYP_V6 = 4"

record datagram =
  dg_session_id :: u32
  dg_host :: string
  dg_port :: u16
  dg_payload :: bytes

definition encode_host :: "string \<Rightarrow> bytes option" where
  "encode_host host =
     (case parse_ip_addr host of
        Some (V4 a) \<Rightarrow> Some (ATYP_V4 # ipv4_octets a)
      | Some (V6 a) \<Rightarrow> Some (ATYP_V6 # ipv6_octets a)
      | None \<Rightarrow>
          if 255 < length host then None
          else Some (ATYP_DOMAIN # word_of_nat (length host) # as_bytes host))"

definition encode_datagram :: "u32 \<Rightarrow> string \<Rightarrow> u16 \<Rightarrow> bytes \<Rightarrow> bytes option" where
  "encode_datagram session_id host port payload =
     map_option (\<lambda>h. to_be_bytes 4 session_id @ h @ to_be_bytes 2 port @ payload) (encode_host host)"

text \<open>The host of a datagram and the offset behind it.\<close>

definition parse_host :: "bytes \<Rightarrow> frame_error + string \<times> nat" where
  "parse_host buf =
     (let atyp = buf ! 4; off = 5
      in if atyp = ATYP_V4 then
           (if length buf < off + 4 then Inl DatagramTruncated
            else Inr (show_ipv4 (from_be_bytes (slice off (off + 4) buf)), off + 4))
         else if atyp = ATYP_V6 then
           (if length buf < off + 16 then Inl DatagramTruncated
            else Inr (show_ipv6 (from_be_bytes (slice off (off + 16) buf)), off + 16))
         else if atyp = ATYP_DOMAIN then
           (if length buf \<le> off then Inl DatagramTruncated
            else let len = unat (buf ! off); off = off + 1
                 in if len = 0 then Inl DatagramEmptyDomain
                    else if length buf < off + len then Inl DatagramTruncated
                    else Inr (of_bytes (from_utf8_lossy (slice off (off + len) buf)), off + len))
         else Inl DatagramBadAtyp)"

definition parse_datagram :: "bytes \<Rightarrow> frame_error + datagram" where
  "parse_datagram buf =
     and_then (ensure (5 \<le> length buf) DatagramShort) (\<lambda>_.
     and_then (parse_host buf) (\<lambda>(host, off).
     and_then (ensure (off + 2 \<le> length buf) DatagramTruncated) (\<lambda>_.
     Inr \<lparr>dg_session_id = from_be_bytes (slice 0 4 buf), dg_host = host,
          dg_port = from_be_bytes (slice off (off + 2) buf), dg_payload = drop (off + 2) buf\<rparr>)))"

section \<open>Delivery of frames\<close>

lemma strip_cr: "last l \<noteq> CR \<Longrightarrow> strip_suffix l [CR] = None"
  by (auto simp: strip_suffix_def suffix_def)

lemma split_lines_block:
  assumes "ls \<noteq> []" and "\<forall>l \<in> set ls. start_ok l"
  shows "split_lines (as_bytes (block ls)) = ls"
proof -
  have "of_bytes (from_utf8_lossy (as_bytes (block ls))) = block ls"
    using is_str_lossy [OF is_str_block] assms(2) by (simp add: start_ok_def)
  moreover have "split_on LF (block ls) = ls @ [[], []]"
    using assms(2) by (intro split_block) (auto simp: start_ok_def line_ok_def)
  moreover have "map (\<lambda>l. case strip_suffix l [CR] of Some m \<Rightarrow> m | None \<Rightarrow> l) ls = ls"
    using assms(2) by (intro map_idI) (simp add: strip_cr start_ok_def)
  moreover have "last ls \<noteq> []"
    using assms last_in_set [OF assms(1)] by (auto simp: start_ok_def line_ok_def)
  then have "dropWhile ((=) []) (rev ls) = rev ls"
    using assms(1) by (cases ls rule: rev_cases) auto
  ultimately show ?thesis
    by (simp add: split_lines_def strip_suffix_def)
qed

lemma read_frame_block:
  assumes "ls \<noteq> []" and "\<forall>l \<in> set ls. start_ok l" and "length (block ls) \<le> MAX_FRAME_BYTES"
  shows "read_frame (as_bytes (block ls) @ rest) = Inr (ls, rest)"
proof -
  have "read_block (suffix [10, 10]) MAX_FRAME_BYTES [] (as_bytes (block ls) @ rest) = Inr ([] @ as_bytes (block ls), rest)"
  proof (rule read_block_exact)
    show "as_bytes (block ls) \<noteq> []" by (simp add: block_def as_bytes_def)
    show "suffix [10, 10] ([] @ as_bytes (block ls))"
      unfolding blank_bytes using block_ends_blank [OF assms(1)] by (simp add: suffix_as_bytes)
    show "\<not> suffix [10, 10] ([] @ take k (as_bytes (block ls)))" if "k < length (as_bytes (block ls))" for k
      using block_first_blank [of ls k] assms(2) that
      by (simp add: start_ok_def blank_bytes take_as_bytes suffix_as_bytes)
  qed (use assms(3) in simp)
  then show ?thesis
    using split_lines_block [OF assms(1,2)] by (simp add: read_frame_def)
qed

lemma frame_delivered:
  assumes "start_ok l" and "headers_ok hs" and "length (frame l hs) \<le> MAX_FRAME_BYTES"
  shows "read_frame (frame l hs @ rest) = Inr (l # map (\<lambda>(n, v). header_line n v) hs, rest)"
  unfolding frame_def
proof (rule read_frame_block)
  show "\<forall>l' \<in> set (l # map (\<lambda>(n, v). header_line n v) hs). start_ok l'"
    using assms(1,2) header_line_ok
    by (auto simp: headers_ok_def list_all_iff name_ok_def start_ok_def)
qed (use assms(3) in \<open>simp_all add: frame_def\<close>)

lemma parse_headers_lines: "headers_ok hs \<Longrightarrow> parse_headers (map (\<lambda>(n, v). header_line n v) hs) = hs"
proof (induction hs)
  case (Cons h hs)
  obtain n v where h: "h = (n, v)" by force
  with Cons.prems have "name_ok n" "value_ok v" by (simp_all add: headers_ok_def)
  then have "split_once (CHR '':'') (header_line n v) = Some (n, CHR '' '' # v)"
    "to_ascii_lowercase (trim n) = n" "trim (CHR '' '' # v) = v"
    by (simp_all add: split_header_line name_ok_def value_ok_def trim_visible)
  with Cons h show ?case by (simp add: parse_headers_def headers_ok_def List.map_filter_def)
qed (simp add: parse_headers_def List.map_filter_def)

text \<open>What a peer that reads one frame and parses it is left with.\<close>

definition receive :: "(string list \<Rightarrow> frame_error + 'a) \<Rightarrow> bytes \<Rightarrow> ('a \<times> bytes) option" where
  "receive parse stream =
     (case read_frame stream of
        Inl _ \<Rightarrow> None
      | Inr (ls, rest) \<Rightarrow> (case parse ls of Inl _ \<Rightarrow> None | Inr x \<Rightarrow> Some (x, rest)))"

lemma receive_frame:
  assumes "start_ok l" and "headers_ok hs" and "length (frame l hs) \<le> MAX_FRAME_BYTES"
    and "parse (l # map (\<lambda>(n, v). header_line n v) hs) = Inr x"
  shows "receive parse (frame l hs @ rest) = Some (x, rest)"
  using frame_delivered [OF assms(1-3)] assms(4) by (simp add: receive_def)

definition opt_ok :: "string option \<Rightarrow> bool" where
  "opt_ok v \<longleftrightarrow> (case v of None \<Rightarrow> True | Some s \<Rightarrow> s \<noteq> [] \<and> value_ok s)"

definition opt_header :: "string \<Rightarrow> string option \<Rightarrow> (string \<times> string) list" where
  "opt_header n v = (case v of None \<Rightarrow> [] | Some s \<Rightarrow> [(n, s)])"

definition cap_ok :: "string \<Rightarrow> bool" where
  "cap_ok c \<longleftrightarrow> c \<noteq> [] \<and> visible c \<and> CHR '','' \<notin> set c \<and> to_ascii_lowercase c = c"

definition register_ok :: "register_request \<Rightarrow> bool" where
  "register_ok r \<longleftrightarrow> rr_hop_id r \<noteq> [] \<and> value_ok (rr_hop_id r) \<and> value_ok (rr_token r) \<and>
     opt_ok (rr_edge_id r) \<and> list_all cap_ok (rr_caps r) \<and> length (register_encode r) \<le> MAX_FRAME_BYTES"

definition tunnel_ok :: "tunnel_request \<Rightarrow> bool" where
  "tunnel_ok r \<longleftrightarrow> word_ok (tr_host r) \<and> is_str (tr_host r) \<and> length (tr_host r) \<le> 255 \<and>
     opt_ok (tr_tunnel_id r) \<and> length (tunnel_encode r) \<le> MAX_FRAME_BYTES"

definition associate_ok :: "associate_request \<Rightarrow> bool" where
  "associate_ok r \<longleftrightarrow> opt_ok (ar_assoc_id r) \<and> length (associate_encode r) \<le> MAX_FRAME_BYTES"

definition reply_ok :: "reply \<Rightarrow> bool" where
  "reply_ok r \<longleftrightarrow> (case r of ReplyOk \<Rightarrow> True | ReplyErr code \<Rightarrow> visible code) \<and>
     length (reply_encode r) \<le> MAX_FRAME_BYTES"

lemma optional_line_header:
  "optional_line n v = concat (map (\<lambda>l. l @ [LF]) (map (\<lambda>(n, v). header_line n v) (opt_header n v)))"
  by (simp add: optional_line_def opt_header_def split: option.splits)

lemma opt_header_ok: "opt_ok v \<Longrightarrow> name_ok n \<Longrightarrow> headers_ok (opt_header n v)"
  by (simp add: opt_ok_def opt_header_def headers_ok_def split: option.splits)

lemma opt_header_lookup: "opt_ok v \<Longrightarrow> non_empty (header (opt_header n v) n) = v"
  by (auto simp: opt_ok_def opt_header_def header_def non_empty_def split: option.splits)

lemma names_ok [simp]:
  "name_ok ''hop-id''" "name_ok ''token''" "name_ok ''edge-id''" "name_ok ''caps''"
  "name_ok ''tunnel-id''" "name_ok ''assoc-id''"
  by code_simp+

lemma tunnel_frame:
  "tunnel_encode r = frame (''CONNECT '' @ tr_host r @ '' '' @ show_nat (unat (tr_port r)))
     (opt_header ''tunnel-id'' (tr_tunnel_id r))"
  by (simp add: tunnel_encode_def frame_def block_def optional_line_header)

lemma associate_frame:
  "associate_encode r = frame (''ASSOCIATE '' @ show_nat (unat (ar_session_id r)))
     (opt_header ''assoc-id'' (ar_assoc_id r))"
  by (simp add: associate_encode_def frame_def block_def optional_line_header)

lemma dissociate_frame: "dissociate_encode r = frame (''DISSOCIATE '' @ show_nat (unat (dr_session_id r))) []"
  by (simp add: dissociate_encode_def frame_def block_def)

lemma reply_frame:
  "reply_encode r = frame (case r of ReplyOk \<Rightarrow> ''OK'' | ReplyErr code \<Rightarrow> ''ERR '' @ code) []"
  by (simp add: reply_encode_def frame_def block_def split: reply.splits)

definition register_headers :: "register_request \<Rightarrow> (string \<times> string) list" where
  "register_headers r =
     [(''hop-id'', rr_hop_id r), (''token'', rr_token r)] @ opt_header ''edge-id'' (rr_edge_id r) @
     (if rr_caps r = [] then [] else [(''caps'', join '','' (rr_caps r))])"

lemma register_frame: "register_encode r = frame (''REGISTER '' @ PROTOCOL_VERSION) (register_headers r)"
  by (simp add: register_encode_def frame_def block_def optional_line_header register_headers_def)

lemma parse_u32_show: "parse_u32 (show_nat (unat n)) = Some n"
  using from_str_radix_show_nat [of "unat n" 4294967295] unsigned_less [where ?'a = nat, of n]
  by (simp add: parse_u32_def)

lemma start_ok_append:
  assumes "visible v" and "t \<noteq> []" and "is_str t" and "LF \<notin> set t" and "last t \<noteq> CR"
  shows "start_ok (v @ CHR '' '' # t)"
proof -
  have "is_str ((v @ '' '') @ t)"
    using assms(1,3) by (intro is_str_append) (auto intro!: is_str_ascii simp: visible_def list_all_iff char_in_def)
  moreover have "LF \<notin> set v" using assms(1) by (auto simp: visible_def list_all_iff char_in_def LF_def)
  ultimately show ?thesis using assms by (simp add: start_ok_def line_ok_def LF_def)
qed

lemma last_visible: "visible v \<Longrightarrow> v \<noteq> [] \<Longrightarrow> last v \<noteq> CR"
proof
  assume v: "visible v" "v \<noteq> []" "last v = CR"
  then have "char_in 33 126 CR" using last_in_set [OF v(2)] by (metis list_all_iff visible_def)
  then show False by (simp add: char_in_def CR_def)
qed

lemma start_ok_number: "visible v \<Longrightarrow> start_ok (v @ CHR '' '' # show_nat n)"
  using value_ok_visible [OF visible_show_nat]
  by (intro start_ok_append) (auto simp: value_ok_def last_visible visible_show_nat)

lemma strip_verb: "strip_prefix (v @ t) v = Some t"
  by (simp add: strip_prefix_def)

lemma target_start:
  assumes host: "word_ok h" "is_str h"
  shows "start_ok (''CONNECT'' @ CHR '' '' # h @ CHR '' '' # show_nat (unat p))"
    and "split_whitespace (h @ CHR '' '' # show_nat (unat p)) = [h, show_nat (unat p)]"
proof -
  define target where "target = h @ CHR '' '' # show_nat (unat p)"
  have port: "word_ok (show_nat (unat p))" by (intro visible_word visible_show_nat) simp
  have "is_str target" "LF \<notin> set target" "last target \<noteq> CR" "target \<noteq> []"
    using host word_ok_no_newline port last_visible [OF visible_show_nat]
      is_str_append [OF host(2) is_str_append [OF is_str_ascii [of "'' ''"]]] value_ok_visible [OF visible_show_nat]
    by (auto simp: target_def value_ok_def LF_def)
  then show "start_ok (''CONNECT'' @ CHR '' '' # h @ CHR '' '' # show_nat (unat p))"
    unfolding target_def by (intro start_ok_append) (auto simp: visible_def char_in_def)
  show "split_whitespace (h @ CHR '' '' # show_nat (unat p)) = [h, show_nat (unat p)]"
    by (rule split_words [OF host(1) port])
qed

lemma tunnel_delivered:
  assumes ok: "tunnel_ok r"
  shows "receive tunnel_parse (tunnel_encode r @ rest) = Some (r, rest)"
proof -
  define target where "target = tr_host r @ CHR '' '' # show_nat (unat (tr_port r))"
  have host: "word_ok (tr_host r)" "is_str (tr_host r)" "length (tr_host r) \<le> 255" "opt_ok (tr_tunnel_id r)"
    using ok by (simp_all add: tunnel_ok_def)
  have start: "start_ok (''CONNECT'' @ CHR '' '' # target)"
    and words: "split_whitespace target = [tr_host r, show_nat (unat (tr_port r))]"
    using target_start [OF host(1,2)] unfolding target_def by simp_all
  have hs: "headers_ok (opt_header ''tunnel-id'' (tr_tunnel_id r))" by (intro opt_header_ok host) simp
  have "tunnel_parse ((''CONNECT '' @ target) # map (\<lambda>(n, v). header_line n v) (opt_header ''tunnel-id'' (tr_tunnel_id r))) = Inr r"
    using host word_ok_def words
    by (simp add: tunnel_parse_def verb_rest_def first_line_def strip_verb parse_u16_show ensure_def
        parse_headers_lines [OF hs] opt_header_lookup del: append_Cons)
  then show ?thesis
    using receive_frame [OF _ hs, of "''CONNECT '' @ target" tunnel_parse] start ok
    by (simp add: tunnel_frame tunnel_ok_def target_def)
qed

lemma associate_delivered:
  assumes ok: "associate_ok r"
  shows "receive associate_parse (associate_encode r @ rest) = Some (r, rest)"
proof -
  have hs: "headers_ok (opt_header ''assoc-id'' (ar_assoc_id r))"
    using ok by (intro opt_header_ok) (simp_all add: associate_ok_def)
  have start: "start_ok (''ASSOCIATE'' @ CHR '' '' # show_nat (unat (ar_session_id r)))"
    by (rule start_ok_number) (simp add: visible_def char_in_def)
  have "associate_parse ((''ASSOCIATE '' @ show_nat (unat (ar_session_id r))) #
      map (\<lambda>(n, v). header_line n v) (opt_header ''assoc-id'' (ar_assoc_id r))) = Inr r"
    using ok by (simp add: associate_parse_def verb_rest_def first_line_def strip_verb parse_u32_show
        trim_visible visible_show_nat parse_headers_lines [OF hs] opt_header_lookup associate_ok_def del: append_Cons)
  then show ?thesis
    using receive_frame [OF _ hs, of "''ASSOCIATE '' @ show_nat (unat (ar_session_id r))" associate_parse] start ok
    by (simp add: associate_frame associate_ok_def)
qed

lemma dissociate_delivered: "receive dissociate_parse (dissociate_encode r @ rest) = Some (r, rest)"
proof -
  have start: "start_ok (''DISSOCIATE'' @ CHR '' '' # show_nat (unat (dr_session_id r)))"
    by (rule start_ok_number) (simp add: visible_def char_in_def)
  have "length (show_nat (unat (dr_session_id r))) \<le> 10"
    using unsigned_less [where ?'a = nat, of "dr_session_id r"] by (intro length_show_nat) simp_all
  then have "length (frame (''DISSOCIATE '' @ show_nat (unat (dr_session_id r))) []) \<le> MAX_FRAME_BYTES"
    by (simp add: frame_def block_def MAX_FRAME_BYTES_def)
  moreover have "dissociate_parse [''DISSOCIATE '' @ show_nat (unat (dr_session_id r))] = Inr r"
    by (simp add: dissociate_parse_def verb_rest_def first_line_def strip_verb parse_u32_show
        trim_visible visible_show_nat del: append_Cons)
  ultimately show ?thesis
    using receive_frame [of "''DISSOCIATE '' @ show_nat (unat (dr_session_id r))" "[]" dissociate_parse] start
    by (simp add: dissociate_frame headers_ok_def)
qed

lemma trim_ascii:
  assumes "s \<noteq> []" and "\<forall>c \<in> set s. of_char c < (128 :: nat)"
    and "char_in 33 126 (hd s)" and "char_in 33 126 (last s)"
  shows "trim s = s"
proof (rule trim_id)
  show "ws_len s = 0" using assms(1,3) by (rule ws_len_ascii)
  have le: "ws_len (drop k s) \<le> 1" for k
  proof (cases "drop k s")
    case (Cons c t)
    then have "c \<in> set s" by (metis in_set_dropD list.set_intros(1))
    with assms(2) have "of_char c < (128 :: nat)" by blast
    then have "of_char c \<noteq> (0xC2 :: nat)" "of_char c \<noteq> (0xE1 :: nat)" "of_char c \<noteq> (0xE2 :: nat)"
      "of_char c \<noteq> (0xE3 :: nat)" by linarith+
    then show ?thesis by (simp only: ws_len_def code_at_def Let_def Cons nth_Cons_0) simp
  qed simp
  have "drop (length s - 1) s = [last s]" using assms(1) by (cases s rule: rev_cases) simp_all
  then have "ws_len (drop (length s - 1) s) = 0" using assms(4) by (simp add: ws_len_ascii)
  with le [of "length s - 2"] le [of "length s - 3"] show "ws_len_end s = 0" by (simp add: ws_len_end_def)
qed

lemma trim_err:
  assumes "visible code"
  shows "trim (''ERR '' @ code) = (if code = [] then ''ERR'' else ''ERR '' @ code)"
proof (cases "code = []")
  case True
  have "trim ''ERR '' = ''ERR''" by code_simp
  with True show ?thesis by simp
next
  case False
  then have "char_in 33 126 (last code)"
    using assms last_in_set [OF False] by (metis list_all_iff visible_def)
  with False assms show ?thesis
    by (simp, intro trim_ascii) (auto simp: visible_def list_all_iff char_in_def)
qed

lemma reply_delivered:
  assumes ok: "reply_ok r"
  shows "receive reply_parse (reply_encode r @ rest) = Some (r, rest)"
proof -
  define l where "l = (case r of ReplyOk \<Rightarrow> ''OK'' | ReplyErr code \<Rightarrow> ''ERR '' @ code)"
  have "start_ok l \<and> reply_parse [l] = Inr r"
  proof (cases r)
    case ReplyOk
    have "start_ok ''OK'' \<and> reply_parse [''OK''] = Inr ReplyOk" by code_simp
    with ReplyOk show ?thesis by (simp add: l_def)
  next
    case (ReplyErr code)
    then have v: "visible code" using ok by (simp add: reply_ok_def)
    have "start_ok (''ERR'' @ CHR '' '' # code)" if "code \<noteq> []"
      using that v value_ok_visible [OF v] last_visible [OF v]
      by (intro start_ok_append) (auto simp: value_ok_def visible_def char_in_def)
    moreover have "start_ok ''ERR ''" by code_simp
    moreover have "reply_parse [''ERR '' @ code] = Inr (ReplyErr code)"
      using trim_err [OF v] trim_visible [OF v]
      by (cases "code = []") (simp_all add: reply_parse_def strip_prefix_def)
    ultimately show ?thesis by (cases "code = []") (simp_all add: ReplyErr l_def)
  qed
  then show ?thesis
    using receive_frame [of l "[]" reply_parse] ok
    by (simp add: reply_frame reply_ok_def l_def headers_ok_def)
qed

lemma parse_caps_join:
  assumes "cs \<noteq> []" and "list_all cap_ok cs"
  shows "parse_caps (Some (join '','' cs)) = cs"
proof -
  have "split_on (CHR '','') (join '','' cs) = cs"
    using assms by (intro split_on_join) (auto simp: list_all_iff cap_ok_def)
  moreover have "map (\<lambda>c. to_ascii_lowercase (trim c)) cs = cs" "filter (\<lambda>c. c \<noteq> []) cs = cs"
    using assms(2) by (auto simp: list_all_iff cap_ok_def trim_visible intro!: map_idI filter_True)
  ultimately show ?thesis by (simp add: parse_caps_def)
qed

lemma register_delivered:
  assumes ok: "register_ok r"
  shows "receive register_parse (register_encode r @ rest) = Some (r, rest)"
proof -
  have caps: "list_all cap_ok (rr_caps r)" "opt_ok (rr_edge_id r)" using ok by (simp_all add: register_ok_def)
  then have "value_ok (join '','' (rr_caps r))"
    by (intro value_ok_visible visible_join) (simp_all add: list_all_iff cap_ok_def, simp add: visible_def char_in_def)
  then have hs: "headers_ok (register_headers r)"
    using ok opt_header_ok [OF caps(2), of "''edge-id''"]
    by (auto simp: register_headers_def headers_ok_def register_ok_def)
  have lookups: "non_empty (header (register_headers r) ''hop-id'') = Some (rr_hop_id r)"
    "header (register_headers r) ''token'' = Some (rr_token r)"
    "non_empty (header (register_headers r) ''edge-id'') = rr_edge_id r"
    "parse_caps (header (register_headers r) ''caps'') = rr_caps r"
    using ok caps(2) parse_caps_join [OF _ caps(1)]
    by (auto simp: register_headers_def header_def non_empty_def register_ok_def opt_ok_def opt_header_def
        parse_caps_def split: option.splits)
  have start: "start_ok (''REGISTER '' @ PROTOCOL_VERSION)" and version: "trim PROTOCOL_VERSION = PROTOCOL_VERSION"
    by code_simp+
  have "register_parse ((''REGISTER '' @ PROTOCOL_VERSION) # map (\<lambda>(n, v). header_line n v) (register_headers r)) = Inr r"
    using lookups version
    by (simp add: register_parse_def verb_rest_def first_line_def strip_verb ensure_def parse_headers_lines [OF hs]
        del: append_Cons)
  then show ?thesis
    using receive_frame [OF start hs, of register_parse] ok by (simp add: register_frame register_ok_def)
qed

interpretation register_wire: codec register_encode "receive register_parse" register_ok
  by unfold_locales (rule register_delivered)

interpretation tunnel_wire: codec tunnel_encode "receive tunnel_parse" tunnel_ok
  by unfold_locales (rule tunnel_delivered)

interpretation associate_wire: codec associate_encode "receive associate_parse" associate_ok
  by unfold_locales (rule associate_delivered)

interpretation dissociate_wire: codec dissociate_encode "receive dissociate_parse" "\<lambda>_. True"
  by unfold_locales (rule dissociate_delivered)

interpretation reply_wire: codec reply_encode "receive reply_parse" reply_ok
  by unfold_locales (rule reply_delivered)

text \<open>
  C23: every well-formed frame of the reverse protocol arrives: read from a stream on which
  arbitrary payload bytes follow, each of the five frames is parsed back to the value that was
  encoded, and exactly the payload is left on the stream. A request is well formed when its
  texts are single trimmed lines, a host is one word of at most 255 bytes, and the frame has at
  most 4096 bytes.
\<close>

theorem reverse_frames_delivered:
  assumes "register_ok a" and "tunnel_ok b" and "associate_ok c" and "reply_ok e"
  shows "receive register_parse (register_encode a @ payload) = Some (a, payload) \<and>
     receive tunnel_parse (tunnel_encode b @ payload) = Some (b, payload) \<and>
     receive associate_parse (associate_encode c @ payload) = Some (c, payload) \<and>
     receive dissociate_parse (dissociate_encode d @ payload) = Some (d, payload) \<and>
     receive reply_parse (reply_encode e @ payload) = Some (e, payload)"
  using assms register_wire.parse_encode tunnel_wire.parse_encode associate_wire.parse_encode
    dissociate_wire.parse_encode reply_wire.parse_encode by blast

theorem reverse_frames_delivered_witness:
  "receive register_parse (register_encode
      \<lparr>rr_hop_id = ''hop-1'', rr_token = ''s3cret'', rr_edge_id = None, rr_caps = [''udp'']\<rparr> @ [22, 3, 1]) =
    Some (\<lparr>rr_hop_id = ''hop-1'', rr_token = ''s3cret'', rr_edge_id = None, rr_caps = [''udp'']\<rparr>, [22, 3, 1]) \<and>
   receive tunnel_parse (tunnel_encode
      \<lparr>tr_host = ''example.com'', tr_port = 443, tr_tunnel_id = Some ''edge-1-7''\<rparr> @ [22, 3, 1]) =
    Some (\<lparr>tr_host = ''example.com'', tr_port = 443, tr_tunnel_id = Some ''edge-1-7''\<rparr>, [22, 3, 1])"
proof -
  have "register_ok \<lparr>rr_hop_id = ''hop-1'', rr_token = ''s3cret'', rr_edge_id = None, rr_caps = [''udp'']\<rparr>"
    by code_simp
  moreover have "tunnel_ok \<lparr>tr_host = ''example.com'', tr_port = 443, tr_tunnel_id = Some ''edge-1-7''\<rparr>" by code_simp
  moreover have "associate_ok \<lparr>ar_session_id = 5, ar_assoc_id = None\<rparr>" "reply_ok (ReplyErr ''at_capacity'')"
    by code_simp+
  ultimately show ?thesis
    using reverse_frames_delivered [where payload = "[22, 3, 1]"] by blast
qed

text \<open>
  C34: a tunnel request does not protect the host it names. The encoder writes the host as it is,
  so a host that contains a space, a port and a line feed is read by the hop as a request for
  another target: whatever host and port precede the line feed, they are what the hop connects
  to, although the edge decided on the whole string and asked for another port.
\<close>

theorem tunnel_request_redirected:
  assumes "word_ok h" and "is_str h" and "length h \<le> 255" and "opt_ok t"
    and "is_str x" and "LF \<notin> set x" and "CHR '':'' \<notin> set x"
    and "length (tunnel_encode \<lparr>tr_host = h @ '' '' @ show_nat (unat p) @ [LF] @ x, tr_port = q, tr_tunnel_id = t\<rparr>)
      \<le> MAX_FRAME_BYTES"
  shows "receive tunnel_parse (tunnel_encode
      \<lparr>tr_host = h @ '' '' @ show_nat (unat p) @ [LF] @ x, tr_port = q, tr_tunnel_id = t\<rparr> @ payload) =
    Some (\<lparr>tr_host = h, tr_port = p, tr_tunnel_id = t\<rparr>, payload)"
proof -
  define target where "target = h @ CHR '' '' # show_nat (unat p)"
  define stray where "stray = x @ CHR '' '' # show_nat (unat q)"
  define hs where "hs = opt_header ''tunnel-id'' t"
  define ls where "ls = (''CONNECT'' @ CHR '' '' # target) # stray # map (\<lambda>(n, v). header_line n v) hs"
  have hs: "headers_ok hs" unfolding hs_def by (intro opt_header_ok assms) simp
  have "start_ok stray"
    using assms(5,6) is_str_append [OF assms(5) is_str_append [OF is_str_ascii [of "'' ''"]]]
      value_ok_visible [OF visible_show_nat] last_visible [OF visible_show_nat]
    by (auto simp: start_ok_def line_ok_def stray_def value_ok_def LF_def)
  moreover have "start_ok (''CONNECT'' @ CHR '' '' # target)" and words: "split_whitespace target = [h, show_nat (unat p)]"
    using target_start [OF assms(1,2)] unfolding target_def by simp_all
  moreover have "\<forall>l \<in> set (map (\<lambda>(n, v). header_line n v) hs). start_ok l"
    using hs header_line_ok by (auto simp: headers_ok_def list_all_iff name_ok_def start_ok_def)
  moreover have encoded: "tunnel_encode \<lparr>tr_host = h @ '' '' @ show_nat (unat p) @ [LF] @ x, tr_port = q, tr_tunnel_id = t\<rparr>
      = as_bytes (block ls)"
    by (simp add: tunnel_frame frame_def block_def ls_def target_def stray_def hs_def)
  ultimately have "read_frame (as_bytes (block ls) @ payload) = Inr (ls, payload)"
    using assms(8) by (intro read_frame_block) (auto simp: ls_def)
  moreover have "parse_headers (stray # map (\<lambda>(n, v). header_line n v) hs) = hs"
  proof -
    have "CHR '':'' \<notin> set stray"
      using assms(7) show_nat_digits [of "CHR '':''"] by (auto simp: stray_def is_ascii_digit_def char_in_def)
    then have "split_once (CHR '':'') stray = None" by (simp add: split_once_eq_None)
    with parse_headers_lines [OF hs] show ?thesis by (simp add: parse_headers_def List.map_filter_def)
  qed
  then have "tunnel_parse ls = Inr \<lparr>tr_host = h, tr_port = p, tr_tunnel_id = t\<rparr>"
    using words assms(1,3,4) strip_verb [of "''CONNECT ''" target]
    by (simp add: ls_def tunnel_parse_def verb_rest_def first_line_def parse_u16_show ensure_def word_ok_def
        hs_def opt_header_lookup)
  ultimately show ?thesis unfolding encoded by (simp add: receive_def)
qed

theorem tunnel_request_redirected_witness:
  "receive tunnel_parse (tunnel_encode
      \<lparr>tr_host = ''blocked.example 22'' @ [LF] @ ''x.allowed.example'', tr_port = 443, tr_tunnel_id = None\<rparr> @ []) =
    Some (\<lparr>tr_host = ''blocked.example'', tr_port = 22, tr_tunnel_id = None\<rparr>, [])"
proof -
  have "show_nat (unat (22 :: u16)) = ''22''" by code_simp
  moreover have "word_ok ''blocked.example'' \<and> is_str ''blocked.example'' \<and> is_str ''x.allowed.example''" by code_simp
  moreover have "length (tunnel_encode \<lparr>tr_host = ''blocked.example'' @ '' '' @ show_nat (unat (22 :: u16)) @ [LF] @
      ''x.allowed.example'', tr_port = 443, tr_tunnel_id = None\<rparr>) \<le> MAX_FRAME_BYTES" by code_simp
  ultimately show ?thesis
    using tunnel_request_redirected [of "''blocked.example''" None "''x.allowed.example''" 22 443 "[]"]
    by (simp add: opt_ok_def LF_def)
qed

section \<open>Delivery of datagrams\<close>

text \<open>The text a host is delivered as: an address in its canonical form, a name unchanged.\<close>

definition canonical_host :: "string \<Rightarrow> string" where
  "canonical_host host = (case parse_ip_addr host of Some ip \<Rightarrow> show_ip ip | None \<Rightarrow> host)"

lemma parse_host_encoded:
  assumes "encode_host host = Some hb" and "host \<noteq> []" and "is_str host" and "length sid = 4"
  shows "parse_host (sid @ hb @ rest) = Inr (canonical_host host, 4 + length hb)"
proof (cases "parse_ip_addr host")
  case None
  then have hb: "hb = ATYP_DOMAIN # word_of_nat (length host) # as_bytes host" "length host \<le> 255"
    using assms(1) by (simp_all add: encode_host_def split: if_splits)
  have len: "unat (word_of_nat (length host) :: u8) = length host" using hb(2) by simp
  have "slice 6 (6 + length host) (sid @ hb @ rest) = as_bytes host"
    using slice_mid [of "sid @ [ATYP_DOMAIN, word_of_nat (length host)]" "as_bytes host" rest] assms(4)
    by (simp add: hb)
  then show ?thesis
    using assms hb len None is_str_lossy [OF assms(3)]
    by (simp add: parse_host_def nth_append ATYP_V4_def ATYP_V6_def ATYP_DOMAIN_def canonical_host_def Let_def)
next
  case (Some ip)
  define atyp octets where "atyp = (case ip of V4 _ \<Rightarrow> ATYP_V4 | V6 _ \<Rightarrow> ATYP_V6)"
    and "octets = (case ip of V4 a \<Rightarrow> ipv4_octets a | V6 a \<Rightarrow> ipv6_octets a)"
  have hb: "hb = atyp # octets"
    using assms(1) Some by (auto simp: encode_host_def atyp_def octets_def split: ip_addr.splits)
  have "slice 5 (5 + length octets) (sid @ hb @ rest) = octets"
    using slice_mid [of "sid @ [atyp]" octets rest] assms(4) by (simp add: hb)
  then show ?thesis
    using assms(4) Some hb
    by (cases ip) (simp_all add: parse_host_def nth_append atyp_def octets_def ATYP_V4_def ATYP_V6_def
        canonical_host_def show_ip_def ipv4_octets_def ipv6_octets_def Let_def)
qed

text \<open>
  A UDP packet sent through a reverse hop arrives whole: the datagram the edge encodes for a
  session, host, port and payload is parsed by the hop to the same session, port and payload and
  to the same host, an address in its canonical text, which denotes the same address. Encoding
  refuses exactly the names of more than 255 bytes.
\<close>

lemma reverse_datagram_round_trip:
  assumes "host \<noteq> []" and "is_str host"
  shows "(case encode_datagram sid host port payload of
       Some bs \<Rightarrow> parse_datagram bs =
         Inr \<lparr>dg_session_id = sid, dg_host = canonical_host host, dg_port = port, dg_payload = payload\<rparr>
     | None \<Rightarrow> parse_ip_addr host = None \<and> 255 < length host) \<and>
     parse_ip_addr (canonical_host host) = parse_ip_addr host"
proof (cases "encode_host host")
  case None
  then show ?thesis
    by (auto simp: encode_datagram_def encode_host_def canonical_host_def parse_show_ip
        split: option.splits ip_addr.splits if_splits)
next
  case (Some hb)
  define bs where "bs = to_be_bytes 4 sid @ hb @ to_be_bytes 2 port @ payload"
  have "parse_host bs = Inr (canonical_host host, 4 + length hb)"
    unfolding bs_def by (rule parse_host_encoded [OF Some assms]) simp
  moreover have "hb \<noteq> []" using Some by (auto simp: encode_host_def split: option.splits ip_addr.splits if_splits)
  moreover have "slice 0 4 bs = to_be_bytes 4 sid" "drop (4 + length hb + 2) bs = payload"
    "slice (4 + length hb) (4 + length hb + 2) bs = to_be_bytes 2 port"
    using slice_mid [of "[]" "to_be_bytes 4 sid"] slice_mid [of "to_be_bytes 4 sid @ hb" "to_be_bytes 2 port"]
    by (simp_all add: bs_def)
  moreover have "5 \<le> length bs" "4 + length hb + 2 \<le> length bs"
    using \<open>hb \<noteq> []\<close> by (cases hb; simp add: bs_def)+
  ultimately have "parse_datagram bs =
      Inr \<lparr>dg_session_id = sid, dg_host = canonical_host host, dg_port = port, dg_payload = payload\<rparr>"
    by (simp add: parse_datagram_def ensure_def)
  then show ?thesis
    using Some by (auto simp: encode_datagram_def bs_def canonical_host_def parse_show_ip split: option.splits)
qed

lemma reverse_datagram_round_trip_witness:
  "\<exists>bs. encode_datagram 7 ''2001:DB8::1'' 53 [1, 2] = Some bs \<and> parse_datagram bs =
     Inr \<lparr>dg_session_id = 7, dg_host = ''2001:db8::1'', dg_port = 53, dg_payload = [1, 2]\<rparr>"
proof -
  have "is_str ''2001:DB8::1'' \<and> canonical_host ''2001:DB8::1'' = ''2001:db8::1''" by code_simp
  moreover have "encode_datagram 7 ''2001:DB8::1'' 53 [1, 2] \<noteq> None" by code_simp
  ultimately show ?thesis
    using reverse_datagram_round_trip [of "''2001:DB8::1''" 7 53 "[1, 2]"] by (auto split: option.splits)
qed

end
