(* ===== verification/Ingress_Frame.thy ===== *)
theory Ingress_Frame
  imports Frame_Text "HOL-Library.Char_ord" "HOL-Library.List_Lexorder" "HOL-Library.AList"
begin

text \<open>
  The reverse-ingress protocol of \<open>ingress/frame.rs\<close>: identifiers, registration, lease and
  open requests, replies and datagrams. A hash map of headers is an association list with
  distinct names. The theorems say what the receiver of an accepted frame is left with, and that
  datagrams arrive whole.
\<close>

section \<open>Errors, identifiers and transports\<close>

definition INGRESS_VERSION :: string where "INGRESS_VERSION = ''rove-ingress/1''"
definition MAX_INGRESS_BYTES :: nat where "MAX_INGRESS_BYTES = 4096"
definition MAX_NODE_ID_BYTES :: nat where "MAX_NODE_ID_BYTES = 128"
definition MAX_LISTENER_ID_BYTES :: nat where "MAX_LISTENER_ID_BYTES = 128"
definition MAX_TOKEN_BYTES :: nat where "MAX_TOKEN_BYTES = 1024"

datatype ingress_error = Malformed string | IngressVersion | TooLarge | RandomFailed

text \<open>A 128-bit identifier is its 16 bytes.\<close>

type_synonym id128 = bytes

definition is_ascii_hexdigit :: "char \<Rightarrow> bool" where
  "is_ascii_hexdigit c \<longleftrightarrow> char_in 48 57 c \<or> char_in 97 102 c \<or> char_in 65 70 c"

text \<open>The last arm covers the upper-case digits; no other byte reaches it.\<close>

definition hex_nibble :: "char \<Rightarrow> u8" where
  "hex_nibble c =
     (let v = word_of_nat (of_char c)
      in if char_in 48 57 c then v - 48 else if char_in 97 102 c then v - 97 + 10 else v - 65 + 10)"

fun hex_pairs :: "string \<Rightarrow> bytes" where
  "hex_pairs (a # b # rest) = (push_bit 4 (hex_nibble a) OR hex_nibble b) # hex_pairs rest"
| "hex_pairs _ = []"

definition id_parse_hex :: "string \<Rightarrow> ingress_error + id128" where
  "id_parse_hex v =
     (if length v \<noteq> 32 \<or> \<not> list_all is_ascii_hexdigit v then Inl (Malformed ''id must be 32 hex characters'')
      else Inr (hex_pairs v))"

definition id_show :: "id128 \<Rightarrow> string" where
  "id_show i = show_hex i"

datatype transport = Tcp | Udp

definition transport_str :: "transport \<Rightarrow> string" where
  "transport_str t = (case t of Tcp \<Rightarrow> ''tcp'' | Udp \<Rightarrow> ''udp'')"

definition transport_parse :: "string \<Rightarrow> ingress_error + transport" where
  "transport_parse v =
     (let s = to_ascii_lowercase (trim v)
      in if s = ''tcp'' then Inr Tcp else if s = ''udp'' then Inr Udp
         else Inl (Malformed ''transport must be tcp or udp''))"

section \<open>Fields and headers\<close>

definition validate_field :: "string \<Rightarrow> nat \<Rightarrow> string \<Rightarrow> ingress_error + unit" where
  "validate_field v most e =
     (if v = [] \<or> most < length v \<or> list_ex (\<lambda>c. c = CR \<or> c = LF \<or> c = CHR 0x00) v then Inl (Malformed e)
      else Inr ())"

definition validate_header_name :: "string \<Rightarrow> ingress_error + unit" where
  "validate_header_name n =
     (if n = [] \<or> 64 < length n \<or> \<not> list_all (\<lambda>c. is_ascii_lowercase c \<or> is_ascii_digit c \<or> c = CHR ''-'') n
      then Inl (Malformed ''invalid header name'') else Inr ())"

fun parse_headers_unrestricted :: "string list \<Rightarrow> (string \<times> string) list \<Rightarrow> ingress_error + (string \<times> string) list" where
  "parse_headers_unrestricted [] hs = Inr hs"
| "parse_headers_unrestricted (l # ls) hs =
     (case split_once (CHR '':'') l of
        None \<Rightarrow> Inl (Malformed ''header missing colon'')
      | Some (n, v) \<Rightarrow>
          let n = to_ascii_lowercase (trim n); v = trim v
          in and_then (validate_header_name n) (\<lambda>_.
             if n \<in> set (map fst hs) then Inl (Malformed ''duplicate header'')
             else parse_headers_unrestricted ls (hs @ [(n, v)])))"

definition parse_headers_allowed :: "string list \<Rightarrow> string list \<Rightarrow> ingress_error + (string \<times> string) list" where
  "parse_headers_allowed ls allowed =
     and_then (parse_headers_unrestricted ls []) (\<lambda>hs.
     and_then (ensure (list_all (\<lambda>h. fst h \<in> set allowed) hs) (Malformed ''unknown header'')) (\<lambda>_. Inr hs))"

definition required :: "(string \<times> string) list \<Rightarrow> string \<Rightarrow> ingress_error + string" where
  "required hs n =
     (case map_of hs n of
        Some v \<Rightarrow> if v = [] then Inl (Malformed ''required header missing'') else Inr v
      | None \<Rightarrow> Inl (Malformed ''required header missing''))"

section \<open>Requests\<close>

record ingress_register =
  ig_node_id :: string
  ig_token :: string

record lease_request =
  lq_listener_id :: string
  lq_transport :: transport
  lq_public_port :: u16

record open_tcp_request =
  ot_lease_id :: u64
  ot_ingress_id :: id128
  ot_client_addr :: socket_addr
  ot_public_addr :: socket_addr
  ot_relay_instance_id :: string
  ot_tunnel_session_id :: id128

definition lines_text :: "string list \<Rightarrow> bytes" where
  "lines_text ls = as_bytes (block ls)"

definition ingress_register_encode :: "ingress_register \<Rightarrow> ingress_error + bytes" where
  "ingress_register_encode r =
     and_then (validate_field (ig_node_id r) MAX_NODE_ID_BYTES ''invalid node id'') (\<lambda>_.
     and_then (validate_field (ig_token r) MAX_TOKEN_BYTES ''invalid token'') (\<lambda>_.
     Inr (lines_text [''REGISTER '' @ INGRESS_VERSION, header_line ''node-id'' (ig_node_id r),
       header_line ''token'' (ig_token r)])))"

definition ingress_register_parse :: "string list \<Rightarrow> ingress_error + ingress_register" where
  "ingress_register_parse ls =
     (case ls of [] \<Rightarrow> Inl (Malformed ''empty register frame'')
      | l # rest \<Rightarrow>
          and_then (ok_or (strip_prefix l ''REGISTER '') (Malformed ''expected REGISTER verb'')) (\<lambda>version.
          and_then (ensure (trim version = INGRESS_VERSION) IngressVersion) (\<lambda>_.
          and_then (parse_headers_allowed rest [''node-id'', ''token'']) (\<lambda>hs.
          and_then (required hs ''node-id'') (\<lambda>node_id.
          and_then (required hs ''token'') (\<lambda>token.
          and_then (validate_field node_id MAX_NODE_ID_BYTES ''invalid node id'') (\<lambda>_.
          and_then (validate_field token MAX_TOKEN_BYTES ''invalid token'') (\<lambda>_.
          Inr \<lparr>ig_node_id = node_id, ig_token = token\<rparr>))))))))"

definition lease_encode :: "lease_request \<Rightarrow> ingress_error + bytes" where
  "lease_encode r =
     and_then (validate_field (lq_listener_id r) MAX_LISTENER_ID_BYTES ''invalid listener id'') (\<lambda>_.
     Inr (lines_text [''LEASE'', header_line ''listener-id'' (lq_listener_id r),
       header_line ''transport'' (transport_str (lq_transport r)),
       header_line ''public-port'' (show_nat (unat (lq_public_port r)))]))"

definition lease_parse :: "string list \<Rightarrow> ingress_error + lease_request" where
  "lease_parse ls =
     (if ls = [] \<or> hd ls \<noteq> ''LEASE'' then Inl (Malformed ''expected LEASE verb'')
      else
        and_then (parse_headers_allowed (tl ls) [''listener-id'', ''transport'', ''public-port'']) (\<lambda>hs.
        and_then (required hs ''listener-id'') (\<lambda>listener_id.
        and_then (validate_field listener_id MAX_LISTENER_ID_BYTES ''invalid listener id'') (\<lambda>_.
        and_then (required hs ''transport'') (\<lambda>t.
        and_then (transport_parse t) (\<lambda>transport.
        and_then (required hs ''public-port'') (\<lambda>p.
        and_then (ok_or (parse_u16 p) (Malformed ''public port is not a u16'')) (\<lambda>port.
        Inr \<lparr>lq_listener_id = listener_id, lq_transport = transport, lq_public_port = port\<rparr>))))))))"

definition parse_u64 :: "string \<Rightarrow> u64 option" where
  "parse_u64 s = map_option word_of_nat (from_str_radix 18446744073709551615 10 s)"

definition open_tcp_encode :: "open_tcp_request \<Rightarrow> ingress_error + bytes" where
  "open_tcp_encode r =
     and_then (validate_field (ot_relay_instance_id r) MAX_NODE_ID_BYTES ''invalid relay instance id'') (\<lambda>_.
     Inr (lines_text [''OPEN_TCP'', header_line ''lease-id'' (show_nat (unat (ot_lease_id r))),
       header_line ''ingress-id'' (id_show (ot_ingress_id r)),
       header_line ''client-addr'' (show_socket_addr (ot_client_addr r)),
       header_line ''public-addr'' (show_socket_addr (ot_public_addr r)),
       header_line ''relay-id'' (ot_relay_instance_id r),
       header_line ''session-id'' (id_show (ot_tunnel_session_id r))]))"

definition open_tcp_parse :: "string list \<Rightarrow> ingress_error + open_tcp_request" where
  "open_tcp_parse ls =
     (if ls = [] \<or> hd ls \<noteq> ''OPEN_TCP'' then Inl (Malformed ''expected OPEN_TCP verb'')
      else
        and_then (parse_headers_allowed (tl ls)
          [''lease-id'', ''ingress-id'', ''client-addr'', ''public-addr'', ''relay-id'', ''session-id'']) (\<lambda>hs.
        and_then (required hs ''relay-id'') (\<lambda>relay.
        and_then (validate_field relay MAX_NODE_ID_BYTES ''invalid relay instance id'') (\<lambda>_.
        and_then (required hs ''lease-id'') (\<lambda>l.
        and_then (ok_or (parse_u64 l) (Malformed ''lease id is not a u64'')) (\<lambda>lease.
        and_then (required hs ''ingress-id'') (\<lambda>i.
        and_then (id_parse_hex i) (\<lambda>ingress.
        and_then (required hs ''client-addr'') (\<lambda>c.
        and_then (ok_or (parse_socket_addr c) (Malformed ''invalid client address'')) (\<lambda>client.
        and_then (required hs ''public-addr'') (\<lambda>p.
        and_then (ok_or (parse_socket_addr p) (Malformed ''invalid public address'')) (\<lambda>public.
        and_then (required hs ''session-id'') (\<lambda>s.
        and_then (id_parse_hex s) (\<lambda>session.
        Inr \<lparr>ot_lease_id = lease, ot_ingress_id = ingress, ot_client_addr = client, ot_public_addr = public,
             ot_relay_instance_id = relay, ot_tunnel_session_id = session\<rparr>))))))))))))))"

section \<open>Replies\<close>

datatype ingress_reply = IngressOk "(string \<times> string) list" | IngressErr string

definition reply_ok_with :: "(string \<times> string) list \<Rightarrow> ingress_reply" where
  "reply_ok_with hs = IngressOk (foldl (\<lambda>m (n, v). AList.update n v m) [] hs)"

fun encode_reply_headers :: "(string \<times> string) list \<Rightarrow> ingress_error + string list" where
  "encode_reply_headers [] = Inr []"
| "encode_reply_headers ((n, v) # hs) =
     and_then (validate_header_name n) (\<lambda>_.
     and_then (validate_field v 1024 ''invalid reply header'') (\<lambda>_.
     and_then (encode_reply_headers hs) (\<lambda>ls. Inr (header_line n v # ls))))"

definition ingress_reply_encode :: "ingress_reply \<Rightarrow> ingress_error + bytes" where
  "ingress_reply_encode r =
     (case r of
        IngressErr code \<Rightarrow>
          and_then (validate_field code 64 ''invalid error code'') (\<lambda>_. Inr (lines_text [''ERR '' @ code]))
      | IngressOk headers \<Rightarrow>
          and_then (encode_reply_headers (sort_key fst headers)) (\<lambda>ls.
          let out = lines_text (''OK'' # ls)
          in if MAX_INGRESS_BYTES < length out then Inl TooLarge else Inr out))"

definition ingress_reply_parse :: "string list \<Rightarrow> ingress_error + ingress_reply" where
  "ingress_reply_parse ls =
     (case ls of [] \<Rightarrow> Inl (Malformed ''empty reply'')
      | l # rest \<Rightarrow>
          if l = ''OK'' then and_then (parse_headers_unrestricted rest []) (\<lambda>hs. Inr (IngressOk hs))
          else
            and_then (ok_or (strip_prefix l ''ERR '') (Malformed ''expected OK or ERR reply'')) (\<lambda>code.
            and_then (validate_field code 64 ''invalid error code'') (\<lambda>_.
            and_then (ensure (rest = []) (Malformed ''ERR reply must not have headers'')) (\<lambda>_.
            Inr (IngressErr code)))))"

definition reply_header :: "ingress_reply \<Rightarrow> string \<Rightarrow> string option" where
  "reply_header r n = (case r of IngressOk hs \<Rightarrow> map_of hs n | IngressErr _ \<Rightarrow> None)"

section \<open>Reading and writing frames\<close>

fun replace_crlf :: "string \<Rightarrow> string" where
  "replace_crlf [] = []"
| "replace_crlf [c] = [c]"
| "replace_crlf (c # d # s) = (if c = CR \<and> d = LF then LF # replace_crlf s else c # replace_crlf (d # s))"

definition ingress_stop :: "bytes \<Rightarrow> bool" where
  "ingress_stop buf \<longleftrightarrow> suffix [10, 10] buf \<or> suffix [13, 10, 13, 10] buf"

definition ingress_read_frame :: "bytes \<Rightarrow> frame_io_error + string list \<times> bytes" where
  "ingress_read_frame stream =
     and_then (read_block ingress_stop MAX_INGRESS_BYTES [] stream) (\<lambda>(buf, rest).
     and_then (ensure (utf8_valid buf) NotUtf8) (\<lambda>_.
     Inr (split_on LF (trim_end_matches LF (replace_crlf (of_bytes buf))), rest)))"

definition ingress_write_frame :: "bytes \<Rightarrow> frame_io_error + bytes" where
  "ingress_write_frame bs = (if MAX_INGRESS_BYTES < length bs then Inl FrameTooLarge else Inr bs)"

section \<open>Datagrams\<close>

definition DATAGRAM_MAGIC :: bytes where "DATAGRAM_MAGIC = as_bytes ''RI''"
definition DATAGRAM_VERSION :: u8 where "DATAGRAM_VERSION = 1"
definition DATAGRAM_UPLINK :: u8 where "DATAGRAM_UPLINK = 1"
definition DATAGRAM_DOWNLINK :: u8 where "DATAGRAM_DOWNLINK = 2"
definition DATAGRAM_FIXED :: nat where "DATAGRAM_FIXED = 2 + 1 + 1 + 8 + 16"

datatype ingress_datagram =
    Uplink (dg_lease: u64) (dg_flow: id128) (dg_client: socket_addr) (dg_body: bytes)
  | Downlink (dg_lease: u64) (dg_flow: id128) (dg_body: bytes)

definition encode_addr :: "socket_addr \<Rightarrow> bytes" where
  "encode_addr sa =
     (case sa of
        SockV4 a p \<Rightarrow> 4 # ipv4_octets a @ to_be_bytes 2 p
      | SockV6 a p _ _ \<Rightarrow> 6 # ipv6_octets a @ to_be_bytes 2 p)"

definition decode_addr :: "bytes \<Rightarrow> nat \<Rightarrow> ingress_error + socket_addr \<times> nat" where
  "decode_addr bs offset =
     (if length bs \<le> offset then Inl (Malformed ''missing address type'')
      else if bs ! offset = 4 then
        (let stop = offset + 1 + 4 + 2
         in if length bs < stop then Inl (Malformed ''truncated ipv4 address'')
            else Inr (SockV4 (from_be_bytes (slice (offset + 1) (offset + 5) bs))
                        (from_be_bytes (slice (offset + 5) stop bs)), stop))
      else if bs ! offset = 6 then
        (let stop = offset + 1 + 16 + 2
         in if length bs < stop then Inl (Malformed ''truncated ipv6 address'')
            else Inr (SockV6 (from_be_bytes (slice (offset + 1) (offset + 17) bs))
                        (from_be_bytes (slice (offset + 17) stop bs)) 0 0, stop))
      else Inl (Malformed ''invalid address type''))"

definition datagram_encode :: "ingress_datagram \<Rightarrow> bytes" where
  "datagram_encode d =
     DATAGRAM_MAGIC @ [DATAGRAM_VERSION] @
     [case d of Uplink _ _ _ _ \<Rightarrow> DATAGRAM_UPLINK | Downlink _ _ _ \<Rightarrow> DATAGRAM_DOWNLINK] @
     to_be_bytes 8 (dg_lease d) @ dg_flow d @
     (case d of Uplink _ _ client _ \<Rightarrow> encode_addr client | Downlink _ _ _ \<Rightarrow> []) @ dg_body d"

definition datagram_parse :: "bytes \<Rightarrow> ingress_error + ingress_datagram" where
  "datagram_parse bs =
     and_then (ensure (DATAGRAM_FIXED \<le> length bs) (Malformed ''datagram too short'')) (\<lambda>_.
     and_then (ensure (take 2 bs = DATAGRAM_MAGIC \<and> bs ! 2 = DATAGRAM_VERSION) IngressVersion) (\<lambda>_.
     let kind = bs ! 3; lease = from_be_bytes (slice 4 12 bs); flow = slice 12 28 bs
     in if kind = DATAGRAM_UPLINK then
          and_then (decode_addr bs DATAGRAM_FIXED) (\<lambda>(client, offset).
          Inr (Uplink lease flow client (drop offset bs)))
        else if kind = DATAGRAM_DOWNLINK then Inr (Downlink lease flow (drop DATAGRAM_FIXED bs))
        else Inl (Malformed ''unknown datagram type'')))"

section \<open>Delivery of datagrams\<close>

text \<open>What a socket address keeps on the wire: flow information and scope are dropped.\<close>

definition wire_addr :: "socket_addr \<Rightarrow> socket_addr" where
  "wire_addr sa = (case sa of SockV4 a p \<Rightarrow> SockV4 a p | SockV6 a p _ _ \<Rightarrow> SockV6 a p 0 0)"

definition wire_datagram :: "ingress_datagram \<Rightarrow> ingress_datagram" where
  "wire_datagram d =
     (case d of Uplink l f c b \<Rightarrow> Uplink l f (wire_addr c) b | Downlink l f b \<Rightarrow> Downlink l f b)"

lemma decode_encode_addr:
  "decode_addr (pre @ encode_addr sa @ rest) (length pre) = Inr (wire_addr sa, length (pre @ encode_addr sa))"
proof (cases sa)
  case (SockV4 a p)
  have "slice (length pre + 1) (length pre + 5) ((pre @ [4]) @ ipv4_octets a @ to_be_bytes 2 p @ rest) = ipv4_octets a"
    "slice (length pre + 5) (length pre + 7) ((pre @ [4] @ ipv4_octets a) @ to_be_bytes 2 p @ rest) = to_be_bytes 2 p"
    by (rule slice_mid_eq; simp)+
  with SockV4 show ?thesis
    by (simp add: decode_addr_def encode_addr_def wire_addr_def ipv4_octets_def Let_def add.commute)
next
  case (SockV6 a p f s)
  have "slice (length pre + 1) (length pre + 17) ((pre @ [6]) @ ipv6_octets a @ to_be_bytes 2 p @ rest) = ipv6_octets a"
    "slice (length pre + 17) (length pre + 19) ((pre @ [6] @ ipv6_octets a) @ to_be_bytes 2 p @ rest) = to_be_bytes 2 p"
    by (rule slice_mid_eq; simp)+
  with SockV6 show ?thesis
    by (simp add: decode_addr_def encode_addr_def wire_addr_def ipv6_octets_def Let_def add.commute)
qed

lemma datagram_back:
  assumes "length (dg_flow d) = 16"
  shows "datagram_parse (datagram_encode d) = Inr (wire_datagram d)"
proof -
  define kind where "kind = (case d of Uplink _ _ _ _ \<Rightarrow> DATAGRAM_UPLINK | Downlink _ _ _ \<Rightarrow> DATAGRAM_DOWNLINK)"
  define start where "start = [0x52, 0x49, DATAGRAM_VERSION, kind]"
  define fixed where "fixed = start @ to_be_bytes 8 (dg_lease d) @ dg_flow d"
  define tail where "tail = (case d of Uplink _ _ c b \<Rightarrow> encode_addr c @ b | Downlink _ _ b \<Rightarrow> b)"
  have enc: "datagram_encode d = fixed @ tail"
    by (cases d) (simp_all add: datagram_encode_def fixed_def start_def kind_def tail_def DATAGRAM_MAGIC_def as_bytes_def)
  have len: "length fixed = DATAGRAM_FIXED" by (simp add: fixed_def start_def DATAGRAM_FIXED_def assms)
  have "slice 4 12 (start @ to_be_bytes 8 (dg_lease d) @ dg_flow d @ tail) = to_be_bytes 8 (dg_lease d)"
    "slice 12 28 ((start @ to_be_bytes 8 (dg_lease d)) @ dg_flow d @ tail) = dg_flow d"
    by (rule slice_mid_eq; simp add: start_def assms)+
  then have parts: "slice 4 12 (fixed @ tail) = to_be_bytes 8 (dg_lease d)" "slice 12 28 (fixed @ tail) = dg_flow d"
    by (simp_all add: fixed_def)
  have heads: "take 2 (fixed @ tail) = DATAGRAM_MAGIC" "(fixed @ tail) ! 2 = DATAGRAM_VERSION" "(fixed @ tail) ! 3 = kind"
    by (simp_all add: fixed_def start_def DATAGRAM_MAGIC_def as_bytes_def)
  show ?thesis
  proof (cases d)
    case (Uplink l f c b)
    have "decode_addr (fixed @ tail) DATAGRAM_FIXED = Inr (wire_addr c, length (fixed @ encode_addr c))"
      using decode_encode_addr [of fixed c b] by (simp add: tail_def Uplink len)
    with Uplink heads parts len show ?thesis
      unfolding enc by (simp add: datagram_parse_def ensure_def kind_def wire_datagram_def Let_def tail_def)
  next
    case (Downlink l f b)
    with heads parts len show ?thesis
      unfolding enc by (simp add: datagram_parse_def ensure_def kind_def wire_datagram_def Let_def tail_def
          DATAGRAM_UPLINK_def DATAGRAM_DOWNLINK_def)
  qed
qed

text \<open>
  An ingress datagram arrives whole: parsing what was encoded gives back the direction, the
  lease, the flow identifier, the client's address and port, and the payload, whatever the
  payload holds; of an IPv6 client only the flow information and scope are not carried.
\<close>

lemma ingress_datagram_round_trip:
  assumes "length (dg_flow d) = 16"
  shows "datagram_parse (datagram_encode d) = Inr (wire_datagram d)"
  by (rule datagram_back [OF assms])

lemma ingress_datagram_round_trip_witness:
  "datagram_parse (datagram_encode (Uplink 7 (replicate 16 0xAB) (SockV4 0xCB007109 50000) [1, 2, 3])) =
     Inr (Uplink 7 (replicate 16 0xAB) (SockV4 0xCB007109 50000) [1, 2, 3])"
  using ingress_datagram_round_trip [of "Uplink 7 (replicate 16 0xAB) (SockV4 0xCB007109 50000) [1, 2, 3]"]
  by (simp add: wire_datagram_def wire_addr_def)

section \<open>Delivery of frames\<close>

definition wire_line :: "string \<Rightarrow> bool" where
  "wire_line l \<longleftrightarrow> line_ok l \<and> is_str l \<and> CR \<notin> set l"

lemma replace_crlf_id: "CR \<notin> set s \<Longrightarrow> replace_crlf s = s"
  by (induction s rule: replace_crlf.induct) auto

lemma block_join: "ls \<noteq> [] \<Longrightarrow> block ls = join [LF] ls @ [LF, LF]"
  by (induction "[LF]" ls rule: join.induct) (auto simp: block_def)

lemma last_join: "ls \<noteq> [] \<Longrightarrow> \<forall>l \<in> set ls. l \<noteq> [] \<Longrightarrow> last (join sep ls) = last (last ls) \<and> join sep ls \<noteq> []"
  by (induction sep ls rule: join.induct) auto

lemma lines_back:
  assumes "ls \<noteq> []" and "\<forall>l \<in> set ls. line_ok l"
  shows "split_on LF (trim_end_matches LF (block ls)) = ls"
proof -
  have "last (last ls) \<noteq> LF"
    using assms last_in_set [OF assms(1)] by (metis line_ok_def last_in_set)
  then have "join [LF] ls \<noteq> []" "last (join [LF] ls) \<noteq> LF"
    using last_join [of ls "[LF]"] assms by (auto simp: line_ok_def)
  then have "trim_end_matches LF (block ls) = join [LF] ls"
    using assms(1) by (cases "join [LF] ls" rule: rev_cases) (simp_all add: block_join trim_end_matches_def)
  then show ?thesis using assms by (simp add: split_on_join line_ok_def)
qed

lemma cr_byte: "13 \<in> set (as_bytes s) \<Longrightarrow> CR \<in> set s"
proof -
  assume "13 \<in> set (as_bytes s)"
  then have "char_of (unat (13 :: u8)) \<in> set (of_bytes (as_bytes s))" unfolding of_bytes_def by force
  moreover have "char_of (unat (13 :: u8)) = CR" by code_simp
  ultimately show ?thesis by simp
qed

lemma ingress_read_lines:
  assumes "ls \<noteq> []" and "\<forall>l \<in> set ls. wire_line l" and "length (lines_text ls) \<le> MAX_INGRESS_BYTES"
  shows "ingress_read_frame (lines_text ls @ rest) = Inr (ls, rest)"
proof -
  have ok: "\<forall>l \<in> set ls. line_ok l" using assms(2) by (simp add: wire_line_def)
  have cr: "CR \<notin> set (block ls)"
    using assms(2) by (auto simp: block_def wire_line_def CR_def LF_def)
  have "read_block ingress_stop MAX_INGRESS_BYTES [] (lines_text ls @ rest) = Inr ([] @ lines_text ls, rest)"
  proof (rule read_block_exact)
    show "lines_text ls \<noteq> []" by (simp add: lines_text_def block_def as_bytes_def)
    show "ingress_stop ([] @ lines_text ls)"
      using block_ends_blank [OF assms(1)] by (simp add: ingress_stop_def lines_text_def blank_bytes suffix_as_bytes)
    show "\<not> ingress_stop ([] @ take k (lines_text ls))" if k: "k < length (lines_text ls)" for k
    proof -
      have "\<not> suffix [13, 10, 13, 10] (take k (lines_text ls))"
        using cr_byte [of "block ls"] cr in_set_takeD [of 13 k "lines_text ls"]
        by (auto simp: suffix_def lines_text_def)
      then show ?thesis
        using block_first_blank [OF ok, of k] k
        by (simp add: ingress_stop_def lines_text_def blank_bytes take_as_bytes suffix_as_bytes)
    qed
  qed (use assms(3) in simp)
  moreover have "utf8_valid (lines_text ls)"
    using is_str_block [of ls] assms(2) by (simp add: lines_text_def is_str_def wire_line_def)
  ultimately show ?thesis
    using lines_back [OF assms(1) ok] cr
    by (simp add: ingress_read_frame_def ensure_def lines_text_def replace_crlf_id)
qed

lemma validated_field:
  "validate_field v most e = Inr () \<longleftrightarrow> v \<noteq> [] \<and> length v \<le> most \<and> CR \<notin> set v \<and> LF \<notin> set v \<and> CHR 0x00 \<notin> set v"
  by (auto simp: validate_field_def list_ex_iff)

lemma set_trim: "set (trim s) \<subseteq> set s" and length_trim: "length (trim s) \<le> length s"
proof -
  have "set (trim_end t) \<subseteq> set t" for t
  proof (induction t rule: trim_end.induct)
    case (1 t)
    then show ?case by (subst trim_end.simps) (auto dest: in_set_takeD)
  qed
  then show "set (trim s) \<subseteq> set s"
    using trim_start_suffix [of s] set_mono_suffix by (fastforce simp: trim_def)
  show "length (trim s) \<le> length s"
    using length_trim_end [of "trim_start s"] length_trim_start [of s] by (simp add: trim_def)
qed

lemma validated_trim:
  "validate_field v most e = Inr () \<Longrightarrow> trim v \<noteq> [] \<Longrightarrow> validate_field (trim v) most e = Inr ()"
  using set_trim [of v] length_trim [of v] by (auto simp: validated_field)

definition header_name :: "string \<Rightarrow> bool" where
  "header_name n \<longleftrightarrow> validate_header_name n = Inr ()"

lemma header_name_facts:
  assumes "header_name n"
  shows "visible n" "n \<noteq> []" "CHR '':'' \<notin> set n" "to_ascii_lowercase n = n" "trim n = n"
proof -
  have chars: "is_ascii_lowercase c \<or> is_ascii_digit c \<or> c = CHR ''-''" if "c \<in> set n" for c
    using assms that by (auto simp: header_name_def validate_header_name_def list_all_iff split: if_splits)
  show "visible n" using chars by (force simp: visible_def list_all_iff is_ascii_lowercase_def is_ascii_digit_def char_in_def)
  then show "trim n = n" by (rule trim_visible)
  show "n \<noteq> []" using assms by (auto simp: header_name_def validate_header_name_def)
  show "CHR '':'' \<notin> set n"
    using chars [of "CHR '':''"] by (auto simp: is_ascii_lowercase_def is_ascii_digit_def char_in_def)
  have "to_lower_char c = c" if "c \<in> set n" for c
    using chars [OF that] by (auto simp: to_lower_char_def is_ascii_lowercase_def is_ascii_digit_def char_in_def)
  then show "to_ascii_lowercase n = n" by (simp add: to_ascii_lowercase_def map_idI)
qed

text \<open>Headers as they are sent, and as they arrive.\<close>

definition sent_lines :: "(string \<times> string) list \<Rightarrow> string list" where
  "sent_lines hs = map (\<lambda>(n, v). header_line n v) hs"

definition arrived :: "(string \<times> string) list \<Rightarrow> (string \<times> string) list" where
  "arrived hs = map (\<lambda>(n, v). (n, trim v)) hs"

lemma parse_sent_lines:
  assumes "list_all (\<lambda>(n, v). header_name n) hs" and "distinct (map fst (acc @ hs))"
  shows "parse_headers_unrestricted (sent_lines hs) acc = Inr (acc @ arrived hs)"
  using assms
proof (induction hs arbitrary: acc)
  case (Cons h hs)
  obtain n v where h: "h = (n, v)" by force
  have n: "header_name n" using Cons.prems(1) h by simp
  have "parse_headers_unrestricted (sent_lines hs) (acc @ [(n, trim v)]) = Inr ((acc @ [(n, trim v)]) @ arrived hs)"
    using Cons.prems h by (intro Cons.IH) auto
  moreover have "n \<notin> fst ` set acc" using Cons.prems(2) h by auto
  ultimately show ?case
    using n split_header_line [OF header_name_facts(3) [OF n], of v] header_name_facts [OF n]
    by (simp add: sent_lines_def arrived_def h header_name_def)
qed (simp add: sent_lines_def arrived_def)

lemma sent_lines_ok:
  assumes "list_all (\<lambda>(n, v). header_name n \<and> is_str v \<and> LF \<notin> set v \<and> CR \<notin> set v) hs"
  shows "\<forall>l \<in> set (sent_lines hs). wire_line l"
proof -
  have "wire_line (header_line n v)" if "header_name n" "is_str v" "LF \<notin> set v" "CR \<notin> set v" for n v
  proof -
    have "is_str n" "LF \<notin> set n" "CR \<notin> set n"
      using value_ok_visible [OF header_name_facts(1) [OF that(1)]] header_name_facts(1) [OF that(1)]
      by (auto simp: value_ok_def visible_def list_all_iff char_in_def CR_def)
    moreover have "is_str '': ''" by (rule is_str_ascii) simp
    ultimately have "is_str (n @ '': '' @ v)" using that(2) by (intro is_str_append)
    with that \<open>LF \<notin> set n\<close> \<open>CR \<notin> set n\<close> show ?thesis
      by (auto simp: wire_line_def line_ok_def header_line_def LF_def CR_def)
  qed
  with assms show ?thesis by (auto simp: sent_lines_def list_all_iff)
qed

definition ingress_receive :: "(string list \<Rightarrow> ingress_error + 'a) \<Rightarrow> bytes \<Rightarrow> ('a \<times> bytes) option" where
  "ingress_receive parse stream =
     (case ingress_read_frame stream of
        Inl _ \<Rightarrow> None
      | Inr (ls, rest) \<Rightarrow> (case parse ls of Inl _ \<Rightarrow> None | Inr x \<Rightarrow> Some (x, rest)))"

definition sendable :: "(string \<times> string) list \<Rightarrow> bool" where
  "sendable hs \<longleftrightarrow> list_all (\<lambda>(n, v). header_name n \<and> is_str v \<and> LF \<notin> set v \<and> CR \<notin> set v) hs \<and>
     distinct (map fst hs)"

lemma ingress_receive_sent:
  assumes "wire_line l" and "sendable hs" and "length (lines_text (l # sent_lines hs)) \<le> MAX_INGRESS_BYTES"
    and "parse (l # sent_lines hs) = Inr x"
  shows "ingress_receive parse (lines_text (l # sent_lines hs) @ rest) = Some (x, rest)"
  using ingress_read_lines [of "l # sent_lines hs" rest] sent_lines_ok [of hs] assms
  by (auto simp: ingress_receive_def sendable_def)

lemma ingress_receive_rejected:
  assumes "wire_line l" and "sendable hs" and "length (lines_text (l # sent_lines hs)) \<le> MAX_INGRESS_BYTES"
    and "isl (parse (l # sent_lines hs))"
  shows "ingress_receive parse (lines_text (l # sent_lines hs) @ rest) = None"
  using ingress_read_lines [of "l # sent_lines hs" rest] sent_lines_ok [of hs] assms
  by (auto simp: ingress_receive_def sendable_def split: sum.splits)

lemma parse_allowed_sent:
  assumes "sendable hs" and "set (map fst hs) \<subseteq> set allowed"
  shows "parse_headers_allowed (sent_lines hs) allowed = Inr (arrived hs)"
proof -
  have "list_all (\<lambda>h. fst h \<in> set allowed) (arrived hs)"
    using assms(2) by (force simp: arrived_def list_all_iff)
  moreover have "list_all (\<lambda>(n, v). header_name n) hs"
    using assms(1) by (auto simp: sendable_def list_all_iff)
  ultimately show ?thesis
    using assms(1) parse_sent_lines [of hs "[]"]
    by (simp add: parse_headers_allowed_def ensure_def sendable_def)
qed

lemma header_names [simp]:
  "header_name ''node-id''" "header_name ''token''" "header_name ''listener-id''" "header_name ''transport''"
  "header_name ''public-port''" "header_name ''lease-id''" "header_name ''ingress-id''" "header_name ''client-addr''"
  "header_name ''public-addr''" "header_name ''relay-id''" "header_name ''session-id''"
  by code_simp+

lemma visible_sendable: "visible v \<Longrightarrow> is_str v \<and> LF \<notin> set v \<and> CR \<notin> set v"
  using value_ok_visible [of v] by (auto simp: value_ok_def visible_def list_all_iff char_in_def CR_def)

text \<open>A request as it arrives: the texts the encoder did not trim are trimmed by the parser.\<close>

definition register_arrived :: "ingress_register \<Rightarrow> ingress_register" where
  "register_arrived r = \<lparr>ig_node_id = trim (ig_node_id r), ig_token = trim (ig_token r)\<rparr>"

lemma ingress_register_delivered:
  assumes enc: "ingress_register_encode r = Inr bs" "ingress_write_frame bs = Inr bs"
    and "is_str (ig_node_id r)" and "is_str (ig_token r)"
  shows "ingress_receive ingress_register_parse (bs @ rest) =
     (if trim (ig_node_id r) = [] \<or> trim (ig_token r) = [] then None else Some (register_arrived r, rest))"
proof -
  define hs where "hs = [(''node-id'', ig_node_id r), (''token'', ig_token r)]"
  define l where "l = ''REGISTER '' @ INGRESS_VERSION"
  have valid: "validate_field (ig_node_id r) MAX_NODE_ID_BYTES ''invalid node id'' = Inr ()"
    "validate_field (ig_token r) MAX_TOKEN_BYTES ''invalid token'' = Inr ()"
    and bs: "bs = lines_text (l # sent_lines hs)" and size: "length bs \<le> MAX_INGRESS_BYTES"
    using enc by (auto simp: ingress_register_encode_def ingress_write_frame_def hs_def sent_lines_def l_def split: if_splits)
  have hs: "sendable hs" using valid assms(3,4) by (simp add: sendable_def hs_def validated_field)
  have l: "wire_line l" "trim INGRESS_VERSION = INGRESS_VERSION" unfolding l_def by code_simp+
  note parsed = parse_allowed_sent [OF hs, of "[''node-id'', ''token'']"] l(2)
  note parse_defs = ingress_register_parse_def l_def strip_prefix_def ensure_def hs_def arrived_def required_def
  show ?thesis
  proof (cases "trim (ig_node_id r) = [] \<or> trim (ig_token r) = []")
    case True
    then have "isl (ingress_register_parse (l # sent_lines hs))" using parsed by (auto simp: parse_defs)
    then show ?thesis
      unfolding bs using True size by (simp add: ingress_receive_rejected l hs bs)
  next
    case False
    then have "ingress_register_parse (l # sent_lines hs) = Inr (register_arrived r)"
      using parsed validated_trim [OF valid(1)] validated_trim [OF valid(2)] by (simp add: parse_defs register_arrived_def)
    then show ?thesis
      unfolding bs using False size by (simp add: ingress_receive_sent l hs bs)
  qed
qed

lemma transport_back: "transport_parse (transport_str t) = Inr t"
proof -
  have "transport_parse ''tcp'' = Inr Tcp \<and> transport_parse ''udp'' = Inr Udp" by code_simp
  then show ?thesis by (cases t) (simp_all add: transport_str_def)
qed

lemma lease_delivered:
  assumes enc: "lease_encode r = Inr bs" "ingress_write_frame bs = Inr bs"
    and "is_str (lq_listener_id r)"
  shows "ingress_receive lease_parse (bs @ rest) =
     (if trim (lq_listener_id r) = [] then None else Some (r\<lparr>lq_listener_id := trim (lq_listener_id r)\<rparr>, rest))"
proof -
  define hs where "hs = [(''listener-id'', lq_listener_id r), (''transport'', transport_str (lq_transport r)),
    (''public-port'', show_nat (unat (lq_public_port r)))]"
  have valid: "validate_field (lq_listener_id r) MAX_LISTENER_ID_BYTES ''invalid listener id'' = Inr ()"
    and bs: "bs = lines_text (''LEASE'' # sent_lines hs)" and size: "length bs \<le> MAX_INGRESS_BYTES"
    using enc by (auto simp: lease_encode_def ingress_write_frame_def hs_def sent_lines_def split: if_splits)
  have t: "visible (transport_str (lq_transport r))" "transport_str (lq_transport r) \<noteq> []"
    by (cases "lq_transport r"; simp add: transport_str_def visible_def char_in_def)+
  have hs: "sendable hs"
    using valid assms(3) visible_sendable [OF t(1)] visible_sendable [OF visible_show_nat]
    by (simp add: sendable_def hs_def validated_field)
  have l: "wire_line ''LEASE''" by code_simp
  note parsed = parse_allowed_sent [OF hs, of "[''listener-id'', ''transport'', ''public-port'']"]
  show ?thesis
  proof (cases "trim (lq_listener_id r) = []")
    case True
    then have "isl (lease_parse (''LEASE'' # sent_lines hs))"
      using parsed by (simp add: lease_parse_def hs_def arrived_def required_def)
    then show ?thesis unfolding bs using True size by (simp add: ingress_receive_rejected l hs bs)
  next
    case False
    then have "lease_parse (''LEASE'' # sent_lines hs) = Inr (r\<lparr>lq_listener_id := trim (lq_listener_id r)\<rparr>)"
      using parsed validated_trim [OF valid False] t
      by (simp add: lease_parse_def hs_def arrived_def required_def trim_visible visible_show_nat transport_back parse_u16_show)
    then show ?thesis unfolding bs using False size by (simp add: ingress_receive_sent l hs bs)
  qed
qed

lemma hex_char_back: "d < 16 \<Longrightarrow> hex_nibble (hex_char d) = word_of_nat d \<and> is_ascii_hexdigit (hex_char d)"
proof -
  have "list_all (\<lambda>d. hex_nibble (hex_char d) = word_of_nat d \<and> is_ascii_hexdigit (hex_char d)) [0..<16]"
    by code_simp
  then show "d < 16 \<Longrightarrow> hex_nibble (hex_char d) = word_of_nat d \<and> is_ascii_hexdigit (hex_char d)"
    by (simp add: list_all_iff)
qed

lemma nibbles_join: "push_bit 4 (word_of_nat (unat b div 16)) OR word_of_nat (unat b mod 16) = (b :: u8)"
proof -
  have "(word_of_nat (unat b div 16) :: u8) = drop_bit 4 b" "(word_of_nat (unat b mod 16) :: u8) = take_bit 4 b"
    using word_arith_nat_div [of b 16] word_arith_nat_mod [of b 16] by (simp_all add: drop_bit_eq_div take_bit_eq_mod)
  moreover have "push_bit 4 (drop_bit 4 b) OR take_bit 4 b = b" by (rule bit_word_eqI) (auto simp: bit_simps)
  ultimately show ?thesis by simp
qed

lemma id_round_trip: "length i = 16 \<Longrightarrow> id_parse_hex (id_show i) = Inr i"
proof -
  have "hex_pairs (show_hex bs) = bs \<and> list_all is_ascii_hexdigit (show_hex bs)" for bs
  proof (induction bs)
    case (Cons b bs)
    then show ?case
      using hex_char_back nibbles_lt [of b] nibbles_join [of b] by (simp add: show_hex_Cons)
  qed (simp add: show_hex_def)
  then show "length i = 16 \<Longrightarrow> id_parse_hex (id_show i) = Inr i" by (simp add: id_parse_hex_def id_show_def)
qed

lemma visible_show_hex: "visible (show_hex bs)"
  using show_hex_char by (fastforce simp: visible_def list_all_iff char_in_def)

lemma parse_u64_show: "parse_u64 (show_nat (unat n)) = Some n"
  using from_str_radix_show_nat [of "unat n" 18446744073709551615] unsigned_less [where ?'a = nat, of n]
  by (simp add: parse_u64_def)

text \<open>The text of an IPv6 address carries no flow information.\<close>

definition addr_arrived :: "socket_addr \<Rightarrow> socket_addr" where
  "addr_arrived sa = (case sa of SockV4 a p \<Rightarrow> SockV4 a p | SockV6 a p f s \<Rightarrow> SockV6 a p 0 s)"

lemma addr_back: "parse_socket_addr (show_socket_addr sa) = Some (addr_arrived sa)"
proof -
  have "show_socket_addr sa = show_socket_addr (addr_arrived sa)"
    by (cases sa) (simp_all add: addr_arrived_def show_socket_addr_def)
  moreover have "parse_socket_addr (show_socket_addr (addr_arrived sa)) = Some (addr_arrived sa)"
    by (rule parse_show_socket_addr) (cases sa; simp add: addr_arrived_def)
  ultimately show ?thesis by simp
qed

definition open_tcp_arrived :: "open_tcp_request \<Rightarrow> open_tcp_request" where
  "open_tcp_arrived r = r\<lparr>ot_client_addr := addr_arrived (ot_client_addr r), ot_public_addr := addr_arrived (ot_public_addr r),
     ot_relay_instance_id := trim (ot_relay_instance_id r)\<rparr>"

lemma show_socket_addr_ne: "show_socket_addr sa \<noteq> []"
  by (simp add: show_socket_addr_def split: socket_addr.splits)

lemma show_id_ne: "length i = 16 \<Longrightarrow> id_show i \<noteq> []"
  using length_show_hex [of i] by (metis id_show_def list.size(3) mult_eq_0_iff zero_neq_numeral)

lemma open_tcp_delivered:
  assumes enc: "open_tcp_encode r = Inr bs" "ingress_write_frame bs = Inr bs"
    and relay: "is_str (ot_relay_instance_id r)"
    and ids: "length (ot_ingress_id r) = 16" "length (ot_tunnel_session_id r) = 16"
  shows "ingress_receive open_tcp_parse (bs @ rest) =
     (if trim (ot_relay_instance_id r) = [] then None else Some (open_tcp_arrived r, rest))"
proof -
  define hs where "hs = [(''lease-id'', show_nat (unat (ot_lease_id r))), (''ingress-id'', id_show (ot_ingress_id r)),
    (''client-addr'', show_socket_addr (ot_client_addr r)), (''public-addr'', show_socket_addr (ot_public_addr r)),
    (''relay-id'', ot_relay_instance_id r), (''session-id'', id_show (ot_tunnel_session_id r))]"
  have valid: "validate_field (ot_relay_instance_id r) MAX_NODE_ID_BYTES ''invalid relay instance id'' = Inr ()"
    and bs: "bs = lines_text (''OPEN_TCP'' # sent_lines hs)" and size: "length bs \<le> MAX_INGRESS_BYTES"
    using enc by (auto simp: open_tcp_encode_def ingress_write_frame_def hs_def sent_lines_def split: if_splits)
  note plain = visible_show_nat visible_show_hex visible_show_socket_addr
  have hs: "sendable hs"
    using valid relay visible_sendable [OF plain(1)] visible_sendable [OF plain(2)] visible_sendable [OF plain(3)]
    by (simp add: sendable_def hs_def validated_field id_show_def)
  have trimmed: "trim (id_show i) = id_show i" "trim (show_nat n) = show_nat n" "trim (show_socket_addr a) = show_socket_addr a" for i n a
    using plain by (simp_all add: trim_visible id_show_def)
  have l: "wire_line ''OPEN_TCP''" by code_simp
  note parsed = parse_allowed_sent [OF hs, of "[''lease-id'', ''ingress-id'', ''client-addr'', ''public-addr'', ''relay-id'', ''session-id'']"]
  show ?thesis
  proof (cases "trim (ot_relay_instance_id r) = []")
    case True
    then have "isl (open_tcp_parse (''OPEN_TCP'' # sent_lines hs))"
      using parsed by (simp add: open_tcp_parse_def hs_def arrived_def required_def)
    then show ?thesis unfolding bs using True size by (simp add: ingress_receive_rejected l hs bs)
  next
    case False
    then have "open_tcp_parse (''OPEN_TCP'' # sent_lines hs) = Inr (open_tcp_arrived r)"
      using parsed validated_trim [OF valid False] id_round_trip ids addr_back show_id_ne show_socket_addr_ne
      by (simp add: open_tcp_parse_def hs_def arrived_def required_def trimmed parse_u64_show open_tcp_arrived_def)
    then show ?thesis unfolding bs using False size by (simp add: ingress_receive_sent l hs bs)
  qed
qed

text \<open>A reply: error codes arrive as they are, headers sorted by name with trimmed values.\<close>

definition reply_arrived :: "ingress_reply \<Rightarrow> ingress_reply" where
  "reply_arrived r = (case r of IngressErr code \<Rightarrow> IngressErr code | IngressOk hs \<Rightarrow> IngressOk (arrived (sort_key fst hs)))"

definition reply_text :: "ingress_reply \<Rightarrow> bool" where
  "reply_text r = (case r of IngressErr code \<Rightarrow> is_str code
     | IngressOk hs \<Rightarrow> list_all (\<lambda>(n, v). is_str v) hs \<and> distinct (map fst hs))"

lemma encode_reply_headers_ok:
  "encode_reply_headers hs = Inr ls \<Longrightarrow>
     ls = sent_lines hs \<and> list_all (\<lambda>(n, v). header_name n \<and> LF \<notin> set v \<and> CR \<notin> set v) hs"
  by (induction hs arbitrary: ls rule: encode_reply_headers.induct)
    (auto simp: sent_lines_def header_name_def validated_field)

lemma ingress_reply_delivered:
  assumes enc: "ingress_reply_encode r = Inr bs" "ingress_write_frame bs = Inr bs" and "reply_text r"
  shows "ingress_receive ingress_reply_parse (bs @ rest) = Some (reply_arrived r, rest)"
proof (cases r)
  case (IngressOk hs)
  define ss where "ss = sort_key fst hs"
  obtain ls where "encode_reply_headers ss = Inr ls" "bs = lines_text (''OK'' # ls)"
    using enc IngressOk by (auto simp: ingress_reply_encode_def ss_def Let_def split: if_splits)
  then have bs: "bs = lines_text (''OK'' # sent_lines ss)"
    and names: "list_all (\<lambda>(n, v). header_name n \<and> LF \<notin> set v \<and> CR \<notin> set v) ss"
    using encode_reply_headers_ok by auto
  have "distinct (map fst ss)"
    using assms(3) IngressOk distinct_map [of fst hs] by (simp add: reply_text_def ss_def distinct_map)
  with names assms(3) IngressOk have ss: "sendable ss"
    by (auto simp: sendable_def reply_text_def list_all_iff ss_def)
  have "ingress_reply_parse (''OK'' # sent_lines ss) = Inr (reply_arrived r)"
    using parse_sent_lines [of ss "[]"] ss IngressOk
    by (simp add: ingress_reply_parse_def reply_arrived_def ss_def sendable_def list_all_iff split_beta)
  moreover have "wire_line ''OK''" by code_simp
  ultimately show ?thesis
    unfolding bs using enc(2) ss by (intro ingress_receive_sent) (simp_all add: bs ingress_write_frame_def split: if_splits)
next
  case (IngressErr code)
  have valid: "validate_field code 64 ''invalid error code'' = Inr ()" and bs: "bs = lines_text [''ERR '' @ code]"
    using enc IngressErr by (auto simp: ingress_reply_encode_def)
  have "is_str (''ERR '' @ code)"
    using assms(3) IngressErr is_str_append [OF is_str_ascii [of "''ERR ''"], of code] by (simp add: reply_text_def)
  then have l: "wire_line (''ERR '' @ code)"
    using valid by (auto simp: wire_line_def line_ok_def validated_field LF_def CR_def)
  have "ingress_reply_parse ((''ERR '' @ code) # sent_lines []) = Inr (reply_arrived r)"
    using valid IngressErr by (simp add: ingress_reply_parse_def strip_prefix_def ensure_def sent_lines_def reply_arrived_def)
  then have "ingress_receive ingress_reply_parse (lines_text ((''ERR '' @ code) # sent_lines []) @ rest) = Some (reply_arrived r, rest)"
    using enc(2) l by (intro ingress_receive_sent) (simp_all add: bs ingress_write_frame_def sendable_def sent_lines_def split: if_splits)
  then show ?thesis by (simp add: bs sent_lines_def)
qed

text \<open>
  C24: the frames of the ingress protocol carry exactly the fields they name. Whatever registration,
  lease request, open request or reply an encoder produces and the writer accepts, the peer reads
  the bytes as one frame and keeps every byte that follows. A reply always parses; a request parses
  unless a required text is blank, which the encoder lets through and the peer rejects. The fields
  are those that were encoded, except that free text arrives trimmed and an IPv6 address without
  its flow information: no field can add a line, a header or another frame.
\<close>

theorem ingress_frames_delivered:
  assumes "ingress_register_encode a = Inr ba" and "ingress_write_frame ba = Inr ba"
    and "is_str (ig_node_id a)" and "is_str (ig_token a)"
    and "lease_encode b = Inr bb" and "ingress_write_frame bb = Inr bb" and "is_str (lq_listener_id b)"
    and "open_tcp_encode c = Inr bc" and "ingress_write_frame bc = Inr bc" and "is_str (ot_relay_instance_id c)"
    and "length (ot_ingress_id c) = 16" and "length (ot_tunnel_session_id c) = 16"
    and "ingress_reply_encode d = Inr bd" and "ingress_write_frame bd = Inr bd" and "reply_text d"
  shows "ingress_receive ingress_register_parse (ba @ payload) =
       (if trim (ig_node_id a) = [] \<or> trim (ig_token a) = [] then None else Some (register_arrived a, payload)) \<and>
     ingress_receive lease_parse (bb @ payload) =
       (if trim (lq_listener_id b) = [] then None else Some (b\<lparr>lq_listener_id := trim (lq_listener_id b)\<rparr>, payload)) \<and>
     ingress_receive open_tcp_parse (bc @ payload) =
       (if trim (ot_relay_instance_id c) = [] then None else Some (open_tcp_arrived c, payload)) \<and>
     ingress_receive ingress_reply_parse (bd @ payload) = Some (reply_arrived d, payload)"
  using assms by (simp add: ingress_register_delivered lease_delivered open_tcp_delivered ingress_reply_delivered)

definition demo_open :: open_tcp_request where
  "demo_open = \<lparr>ot_lease_id = 9, ot_ingress_id = replicate 16 1, ot_client_addr = SockV6 1 50000 0 0,
     ot_public_addr = SockV4 0xC6336404 9443, ot_relay_instance_id = ''relay-1'', ot_tunnel_session_id = replicate 16 2\<rparr>"

theorem ingress_frames_delivered_witness:
  "\<exists>ba bb bc bd.
     ingress_register_encode \<lparr>ig_node_id = ''edge '', ig_token = ''secret''\<rparr> = Inr ba \<and>
     ingress_receive ingress_register_parse (ba @ [7]) = Some (\<lparr>ig_node_id = ''edge'', ig_token = ''secret''\<rparr>, [7]) \<and>
     lease_encode \<lparr>lq_listener_id = ''tuic'', lq_transport = Udp, lq_public_port = 443\<rparr> = Inr bb \<and>
     ingress_receive lease_parse (bb @ [7]) = Some (\<lparr>lq_listener_id = ''tuic'', lq_transport = Udp, lq_public_port = 443\<rparr>, [7]) \<and>
     open_tcp_encode demo_open = Inr bc \<and> ingress_receive open_tcp_parse (bc @ [7]) = Some (demo_open, [7]) \<and>
     ingress_reply_encode (IngressErr ''forbidden'') = Inr bd \<and>
     ingress_receive ingress_reply_parse (bd @ [7]) = Some (IngressErr ''forbidden'', [7])"
proof -
  let ?a = "\<lparr>ig_node_id = ''edge '', ig_token = ''secret''\<rparr>"
  let ?b = "\<lparr>lq_listener_id = ''tuic'', lq_transport = Udp, lq_public_port = 443\<rparr>"
  let ?ok = "\<lambda>r. \<not> isl r \<and> ingress_write_frame (projr r) = Inr (projr r)"
  have enc: "?ok (ingress_register_encode ?a)" "?ok (lease_encode ?b)" "?ok (open_tcp_encode demo_open)"
    "?ok (ingress_reply_encode (IngressErr ''forbidden''))"
    by code_simp+
  have strs: "is_str ''edge '' \<and> is_str ''secret'' \<and> is_str ''tuic'' \<and> is_str ''relay-1'' \<and> is_str ''forbidden''"
    "trim ''edge '' = ''edge'' \<and> trim ''secret'' = ''secret'' \<and> trim ''tuic'' = ''tuic'' \<and> trim ''relay-1'' = ''relay-1''"
    by code_simp+
  obtain ba bb bc bd where eqs: "ingress_register_encode ?a = Inr ba" "lease_encode ?b = Inr bb"
    "open_tcp_encode demo_open = Inr bc" "ingress_reply_encode (IngressErr ''forbidden'') = Inr bd"
    using enc unfolding isl_False_Inr by blast
  then show ?thesis
    using ingress_frames_delivered [of ?a ba ?b bb demo_open bc "IngressErr ''forbidden''" bd "[7]"] enc strs
    by (simp add: register_arrived_def reply_arrived_def reply_text_def open_tcp_arrived_def addr_arrived_def demo_open_def)
qed

end
