(* ===== verification/Ingress_Relay.thy ===== *)
theory Ingress_Relay
  imports Ingress_Frame Proxy_Util
begin

text \<open>
  The public relay of \<open>ingress/relay.rs\<close>: compilation of its configuration, registration of
  nodes, leases of public ports with their reservations, and the table of UDP flows. Instants
  are seconds; random identifiers and the set of ports the operating system lets a relay bind
  are arguments. The theorems say that no port is granted twice, that a lease only ever opens a
  port of its own grant, and that a reply reaches the client whose packet opened the flow.
\<close>

section \<open>Configuration\<close>

definition MAX_PORTS_PER_GRANT :: nat where "MAX_PORTS_PER_GRANT = 4096"
definition MAX_CONFIG_STREAMS :: nat where "MAX_CONFIG_STREAMS = 65536"
definition MAX_CONFIG_LEASES :: nat where "MAX_CONFIG_LEASES = 1024"
definition MAX_CONFIG_CONNECTIONS :: nat where "MAX_CONFIG_CONNECTIONS = 65536"
definition MAX_CONFIG_UDP_FLOWS :: nat where "MAX_CONFIG_UDP_FLOWS = 65536"
definition MAX_LEASE_GRACE_SECS :: nat where "MAX_LEASE_GRACE_SECS = 86400"
definition MIN_QUIC_MTU :: u16 where "MIN_QUIC_MTU = 1200"
definition MAX_QUIC_MTU :: u16 where "MAX_QUIC_MTU = 1500"

record port_range =
  pr_start :: u16
  pr_end :: u16

type_synonym listener_grant = "port_range list"

record node_grant =
  ng_tokens :: "string list"
  ng_listeners :: "((string \<times> transport) \<times> listener_grant) list"
  ng_max_leases :: nat
  ng_max_tcp_connections :: nat
  ng_max_udp_flows :: nat

record relay_config =
  rc_relay_id :: string
  rc_listen :: socket_addr
  rc_public_bind :: ip_addr
  rc_cert :: string
  rc_key :: string
  rc_initial_mtu :: "u16 option"
  rc_max_streams :: u32
  rc_lease_grace :: nat
  rc_nodes :: "(string \<times> node_grant) list"

record listener_file =
  lf_id :: string
  lf_transport :: string
  lf_ports :: "string list"

record node_file =
  nf_node_id :: string
  nf_token :: string
  nf_token_env :: string
  nf_tokens :: "string list"
  nf_token_envs :: "string list"
  nf_max_leases :: nat
  nf_max_tcp_connections :: nat
  nf_max_udp_flows :: nat
  nf_listeners :: "listener_file list"

record relay_file =
  rf_relay_id :: string
  rf_listen :: string
  rf_public_bind :: string
  rf_cert :: string
  rf_key :: string
  rf_initial_mtu :: "u16 option"
  rf_max_streams :: u32
  rf_lease_grace_secs :: u64
  rf_nodes :: "node_file list"

datatype relay_error =
    BadId string | BadCert | BadKey | BadStreams | BadGrace | BadMtu | BadListen | BadPublicBind
  | DuplicateNode string | BadLimit | EmptyEnvName | UnsetEnv string | EmptyToken | NoToken | UnsafeToken
  | BadTransport | DuplicateListener string | NoPorts | BadPortText | BadPortRange | TooManyPorts
  | NoListener | NoNode | PortOverlap transport u16

definition relay_validate_id :: "string \<Rightarrow> string \<Rightarrow> relay_error + unit" where
  "relay_validate_id field v =
     ensure (v \<noteq> [] \<and> length v \<le> 128 \<and>
       list_all (\<lambda>c. is_ascii_alphanumeric c \<or> c \<in> {CHR ''-'', CHR ''_'', CHR ''.'', CHR '':''}) v) (BadId field)"

definition validate_initial_mtu :: "u16 option \<Rightarrow> relay_error + unit" where
  "validate_initial_mtu mtu =
     (case mtu of None \<Rightarrow> Inr () | Some v \<Rightarrow> ensure (MIN_QUIC_MTU \<le> v \<and> v \<le> MAX_QUIC_MTU) BadMtu)"

text \<open>One port or an inclusive range.\<close>

definition parse_ports :: "string \<Rightarrow> relay_error + port_range" where
  "parse_ports raw =
     (case split_once (CHR ''-'') raw of
        Some (s, e) \<Rightarrow>
          and_then (ok_or (parse_u16 s) BadPortText) (\<lambda>s.
          and_then (ok_or (parse_u16 e) BadPortText) (\<lambda>e. Inr \<lparr>pr_start = s, pr_end = e\<rparr>))
      | None \<Rightarrow> and_then (ok_or (parse_u16 raw) BadPortText) (\<lambda>p. Inr \<lparr>pr_start = p, pr_end = p\<rparr>))"

fun compile_port_list :: "string list \<Rightarrow> nat \<Rightarrow> port_range list \<Rightarrow> relay_error + listener_grant" where
  "compile_port_list [] used ranges = Inr ranges"
| "compile_port_list (raw # raws) used ranges =
     and_then (parse_ports (trim raw)) (\<lambda>range.
     and_then (ensure (0 < pr_start range \<and> pr_start range \<le> pr_end range) BadPortRange) (\<lambda>_.
     let used = used + (unat (pr_end range - pr_start range) + 1)
     in and_then (ensure (used \<le> MAX_PORTS_PER_GRANT) TooManyPorts) (\<lambda>_.
        compile_port_list raws used (ranges @ [range]))))"

definition compile_ports :: "string list \<Rightarrow> relay_error + listener_grant" where
  "compile_ports values = and_then (ensure (values \<noteq> []) NoPorts) (\<lambda>_. compile_port_list values 0 [])"

fun env_tokens :: "(string \<Rightarrow> string option) \<Rightarrow> string list \<Rightarrow> relay_error + string list" where
  "env_tokens env [] = Inr []"
| "env_tokens env (name # names) =
     (let name = trim name
      in and_then (ensure (name \<noteq> []) EmptyEnvName) (\<lambda>_.
         and_then (ok_or (env name) (UnsetEnv name)) (\<lambda>token.
         and_then (ensure (token \<noteq> []) EmptyToken) (\<lambda>_.
         and_then (env_tokens env names) (\<lambda>tokens. Inr (token # tokens))))))"

definition node_tokens :: "(string \<Rightarrow> string option) \<Rightarrow> node_file \<Rightarrow> relay_error + string list" where
  "node_tokens env node =
     (let tokens = filter (\<lambda>t. t \<noteq> []) (map trim (nf_tokens node));
          tokens = (if trim (nf_token node) = [] then tokens else tokens @ [trim (nf_token node)]);
          envs = (if trim (nf_token_env node) = [] then nf_token_envs node
                  else nf_token_envs node @ [trim (nf_token_env node)])
      in and_then (env_tokens env envs) (\<lambda>more.
         let tokens = remdups_adj (sort (tokens @ more))
         in and_then (ensure (tokens \<noteq> []) NoToken) (\<lambda>_.
            and_then (ensure (list_all (\<lambda>t. length t \<le> MAX_TOKEN_BYTES \<and>
                list_all (\<lambda>c. c \<noteq> CR \<and> c \<noteq> LF \<and> c \<noteq> CHR 0x00) t) tokens) UnsafeToken) (\<lambda>_.
            Inr tokens))))"

fun compile_listeners ::
  "listener_file list \<Rightarrow> ((string \<times> transport) \<times> listener_grant) list \<Rightarrow>
     relay_error + ((string \<times> transport) \<times> listener_grant) list" where
  "compile_listeners [] acc = Inr acc"
| "compile_listeners (l # ls) acc =
     and_then (relay_validate_id ''relay listener id'' (lf_id l)) (\<lambda>_.
     case transport_parse (lf_transport l) of
       Inl _ \<Rightarrow> Inl BadTransport
     | Inr t \<Rightarrow>
         and_then (ensure ((lf_id l, t) \<notin> set (map fst acc)) (DuplicateListener (lf_id l))) (\<lambda>_.
         and_then (compile_ports (lf_ports l)) (\<lambda>ports.
         compile_listeners ls (acc @ [((lf_id l, t), ports)]))))"

definition compile_node :: "(string \<Rightarrow> string option) \<Rightarrow> node_file \<Rightarrow> relay_error + node_grant" where
  "compile_node env node =
     and_then (ensure (1 \<le> nf_max_leases node \<and> nf_max_leases node \<le> MAX_CONFIG_LEASES) BadLimit) (\<lambda>_.
     and_then (ensure (1 \<le> nf_max_tcp_connections node \<and> nf_max_tcp_connections node \<le> MAX_CONFIG_CONNECTIONS) BadLimit) (\<lambda>_.
     and_then (ensure (1 \<le> nf_max_udp_flows node \<and> nf_max_udp_flows node \<le> MAX_CONFIG_UDP_FLOWS) BadLimit) (\<lambda>_.
     and_then (node_tokens env node) (\<lambda>tokens.
     and_then (compile_listeners (nf_listeners node) []) (\<lambda>listeners.
     and_then (ensure (listeners \<noteq> []) NoListener) (\<lambda>_.
     Inr \<lparr>ng_tokens = tokens, ng_listeners = listeners, ng_max_leases = nf_max_leases node,
          ng_max_tcp_connections = nf_max_tcp_connections node, ng_max_udp_flows = nf_max_udp_flows node\<rparr>))))))"

fun compile_nodes ::
  "(string \<Rightarrow> string option) \<Rightarrow> node_file list \<Rightarrow> (string \<times> node_grant) list \<Rightarrow>
     relay_error + (string \<times> node_grant) list" where
  "compile_nodes env [] acc = Inr acc"
| "compile_nodes env (n # ns) acc =
     and_then (relay_validate_id ''relay node_id'' (nf_node_id n)) (\<lambda>_.
     and_then (ensure (nf_node_id n \<notin> set (map fst acc)) (DuplicateNode (nf_node_id n))) (\<lambda>_.
     and_then (compile_node env n) (\<lambda>grant. compile_nodes env ns (acc @ [(nf_node_id n, grant)]))))"

definition range_ports :: "port_range \<Rightarrow> u16 list" where
  "range_ports r = map word_of_nat [unat (pr_start r)..<Suc (unat (pr_end r))]"

text \<open>Every port a configuration grants, with its transport, in the order the check visits them.\<close>

definition granted_ports :: "(string \<times> node_grant) list \<Rightarrow> (transport \<times> u16) list" where
  "granted_ports nodes =
     concat (map (\<lambda>(node_id, node). concat (map (\<lambda>((listener_id, t), ports).
       map (Pair t) (concat (map range_ports ports))) (ng_listeners node))) nodes)"

fun claim_ports :: "(transport \<times> u16) list \<Rightarrow> (transport \<times> u16) list \<Rightarrow> relay_error + unit" where
  "claim_ports [] claimed = Inr ()"
| "claim_ports (tp # tps) claimed =
     (if tp \<in> set claimed then Inl (PortOverlap (fst tp) (snd tp)) else claim_ports tps (tp # claimed))"

definition validate_non_overlapping_grants :: "(string \<times> node_grant) list \<Rightarrow> relay_error + unit" where
  "validate_non_overlapping_grants nodes = claim_ports (granted_ports nodes) []"

definition relay_compile :: "(string \<Rightarrow> string option) \<Rightarrow> relay_file \<Rightarrow> relay_error + relay_config" where
  "relay_compile env f =
     and_then (relay_validate_id ''relay_id'' (rf_relay_id f)) (\<lambda>_.
     and_then (ensure (trim (rf_cert f) \<noteq> []) BadCert) (\<lambda>_.
     and_then (ensure (trim (rf_key f) \<noteq> []) BadKey) (\<lambda>_.
     and_then (ensure (1 \<le> unat (rf_max_streams f) \<and> unat (rf_max_streams f) \<le> MAX_CONFIG_STREAMS) BadStreams) (\<lambda>_.
     and_then (ensure (1 \<le> unat (rf_lease_grace_secs f) \<and> unat (rf_lease_grace_secs f) \<le> MAX_LEASE_GRACE_SECS) BadGrace) (\<lambda>_.
     and_then (validate_initial_mtu (rf_initial_mtu f)) (\<lambda>_.
     and_then (ok_or (parse_socket_addr (rf_listen f)) BadListen) (\<lambda>listen.
     and_then (ok_or (parse_ip_addr (rf_public_bind f)) BadPublicBind) (\<lambda>public_bind.
     and_then (compile_nodes env (rf_nodes f) []) (\<lambda>nodes.
     and_then (ensure (nodes \<noteq> []) NoNode) (\<lambda>_.
     and_then (validate_non_overlapping_grants nodes) (\<lambda>_.
     Inr \<lparr>rc_relay_id = rf_relay_id f, rc_listen = listen, rc_public_bind = public_bind, rc_cert = rf_cert f,
          rc_key = rf_key f, rc_initial_mtu = rf_initial_mtu f, rc_max_streams = rf_max_streams f,
          rc_lease_grace = unat (rf_lease_grace_secs f), rc_nodes = nodes\<rparr>)))))))))))"

section \<open>Registration\<close>

definition UNAUTHORIZED :: string where "UNAUTHORIZED = ''unauthorized''"
definition DUPLICATE_NODE_ID :: string where "DUPLICATE_NODE_ID = ''duplicate_node_id''"
definition BAD_REQUEST :: string where "BAD_REQUEST = ''bad_request''"
definition FORBIDDEN :: string where "FORBIDDEN = ''forbidden''"
definition PORT_UNAVAILABLE :: string where "PORT_UNAVAILABLE = ''port_unavailable''"
definition AT_CAPACITY :: string where "AT_CAPACITY = ''at_capacity''"
definition INTERNAL :: string where "INTERNAL = ''internal''"

type_synonym reservation_key = "string \<times> string \<times> transport"

record reservation =
  rv_port :: u16
  rv_expires_at :: nat

record relay_state =
  rs_relay_id :: string
  rs_nodes :: "(string \<times> node_grant) list"
  rs_sessions :: "string \<Rightarrow> nat option"
  rs_reservations :: "(reservation_key \<times> reservation) list"
  rs_lease_seq :: u64
  rs_lease_grace :: nat

definition relay_state_of :: "relay_config \<Rightarrow> u64 \<Rightarrow> relay_state" where
  "relay_state_of cfg seq =
     \<lparr>rs_relay_id = rc_relay_id cfg, rs_nodes = rc_nodes cfg, rs_sessions = (\<lambda>_. None), rs_reservations = [],
      rs_lease_seq = seq, rs_lease_grace = rc_lease_grace cfg\<rparr>"

record relay_session =
  se_node_id :: string
  se_grant :: node_grant
  se_session_id :: id128
  se_lease_permits :: nat

definition deregister :: "string \<Rightarrow> nat \<Rightarrow> relay_state \<Rightarrow> relay_state" where
  "deregister node_id stable_id st =
     (if rs_sessions st node_id = Some stable_id then st\<lparr>rs_sessions := (rs_sessions st)(node_id := None)\<rparr> else st)"

text \<open>
  The registration half of \<open>handle_connection\<close>: the first frame of the stream, the random
  session identifier and whether the acknowledgement could be written are arguments. The answer
  is the refusal code or the session with the acknowledgement.
\<close>

definition handle_register ::
  "bytes \<Rightarrow> nat \<Rightarrow> id128 option \<Rightarrow> bool \<Rightarrow> relay_state \<Rightarrow> (string + relay_session \<times> bytes) \<times> relay_state" where
  "handle_register stream stable_id random_id written st =
     (case ingress_receive ingress_register_parse stream of
        None \<Rightarrow> (Inl BAD_REQUEST, st)
      | Some (request, _) \<Rightarrow>
          (case map_of (rs_nodes st) (ig_node_id request) of
             None \<Rightarrow> (Inl UNAUTHORIZED, st)
           | Some grant \<Rightarrow>
               if \<not> list_ex (\<lambda>token. constant_time_eq token (ig_token request)) (ng_tokens grant) then (Inl UNAUTHORIZED, st)
               else if rs_sessions st (ig_node_id request) \<noteq> None then (Inl DUPLICATE_NODE_ID, st)
               else
                 let st = st\<lparr>rs_sessions := (rs_sessions st)(ig_node_id request \<mapsto> stable_id)\<rparr>
                 in (case random_id of
                       None \<Rightarrow> (Inl INTERNAL, deregister (ig_node_id request) stable_id st)
                     | Some session_id \<Rightarrow>
                         (case ingress_reply_encode (reply_ok_with
                             [(''relay-id'', rs_relay_id st), (''session-id'', id_show session_id)]) of
                            Inl _ \<Rightarrow> (Inl INTERNAL, deregister (ig_node_id request) stable_id st)
                          | Inr bs \<Rightarrow>
                              if \<not> written \<or> isl (ingress_write_frame bs)
                              then (Inl INTERNAL, deregister (ig_node_id request) stable_id st)
                              else (Inr (\<lparr>se_node_id = ig_node_id request, se_grant = grant, se_session_id = session_id,
                                          se_lease_permits = ng_max_leases grant\<rparr>, bs), st)))))"

section \<open>Leases\<close>

definition port_allowed :: "listener_grant \<Rightarrow> u16 \<Rightarrow> bool" where
  "port_allowed grant port = list_ex (\<lambda>r. pr_start r \<le> port \<and> port \<le> pr_end r) grant"

definition taken_by_other :: "reservation_key \<Rightarrow> u16 \<Rightarrow> (reservation_key \<times> reservation) list \<Rightarrow> bool" where
  "taken_by_other key port rs = list_ex (\<lambda>(other, r). other \<noteq> key \<and> rv_port r = port) rs"

definition reserve_port ::
  "nat \<Rightarrow> reservation_key \<Rightarrow> listener_grant \<Rightarrow> u16 \<Rightarrow> relay_state \<Rightarrow> (string + u16) \<times> relay_state" where
  "reserve_port now key grant requested st =
     (let rs = filter (\<lambda>(_, r). now < rv_expires_at r) (rs_reservations st); st = st\<lparr>rs_reservations := rs\<rparr>
      in if requested \<noteq> 0 then
           (if \<not> port_allowed grant requested \<or> taken_by_other key requested rs then (Inl FORBIDDEN, st)
            else (Inr requested, st))
         else case map_of rs key of
           Some r \<Rightarrow> (Inr (rv_port r), st)
         | None \<Rightarrow>
             (case List.find (\<lambda>port. \<not> taken_by_other key port rs) (concat (map range_ports grant)) of
                Some port \<Rightarrow> (Inr port, st)
              | None \<Rightarrow> (Inl PORT_UNAVAILABLE, st)))"

definition remember_port :: "nat \<Rightarrow> reservation_key \<Rightarrow> u16 \<Rightarrow> relay_state \<Rightarrow> relay_state" where
  "remember_port now key port st =
     st\<lparr>rs_reservations := AList.update key \<lparr>rv_port = port, rv_expires_at = now + rs_lease_grace st\<rparr> (rs_reservations st)\<rparr>"

definition candidate_ports :: "u16 \<Rightarrow> listener_grant \<Rightarrow> bool \<Rightarrow> u16 list" where
  "candidate_ports preferred grant fixed =
     (let first = (if preferred \<noteq> 0 \<and> port_allowed grant preferred then [preferred] else [])
      in if fixed then first
         else first @ filter (\<lambda>port. port \<noteq> preferred) (concat (map range_ports grant)))"

text \<open>\<open>bind_tcp\<close> and \<open>bind_udp\<close>: the first candidate the operating system accepts.\<close>

definition bind_port :: "(u16 \<Rightarrow> bool) \<Rightarrow> u16 \<Rightarrow> listener_grant \<Rightarrow> bool \<Rightarrow> u16 option" where
  "bind_port free preferred grant fixed = List.find free (candidate_ports preferred grant fixed)"

definition lease_reply :: "u64 \<Rightarrow> u16 \<Rightarrow> ingress_error + bytes" where
  "lease_reply lease_id port =
     ingress_reply_encode (reply_ok_with [(''lease-id'', show_nat (unat lease_id)), (''public-port'', show_nat (unat port))])"

text \<open>
  \<open>handle_lease\<close> up to serving: the answer is the refusal code, nothing when the
  acknowledgement could not be written, or the lease and its port. A permit is held by an open
  lease only.
\<close>

definition handle_lease ::
  "bytes \<Rightarrow> nat \<Rightarrow> (u16 \<Rightarrow> bool) \<Rightarrow> bool \<Rightarrow> relay_session \<Rightarrow> relay_state \<Rightarrow>
     (string + (lease_request \<times> u64 \<times> u16) option) \<times> relay_session \<times> relay_state" where
  "handle_lease stream now free written se st =
     (case ingress_receive lease_parse stream of
        None \<Rightarrow> (Inl BAD_REQUEST, se, st)
      | Some (request, _) \<Rightarrow>
          (case map_of (ng_listeners (se_grant se)) (lq_listener_id request, lq_transport request) of
             None \<Rightarrow> (Inl FORBIDDEN, se, st)
           | Some grant \<Rightarrow>
               if se_lease_permits se = 0 then (Inl AT_CAPACITY, se, st)
               else
                 (case reserve_port now (se_node_id se, lq_listener_id request, lq_transport request) grant
                     (lq_public_port request) st of
                    (Inl code, st) \<Rightarrow> (Inl code, se, st)
                  | (Inr preferred, st) \<Rightarrow>
                      (case bind_port free preferred grant (lq_public_port request \<noteq> 0) of
                         None \<Rightarrow> (Inl PORT_UNAVAILABLE, se, st)
                       | Some port \<Rightarrow>
                           let lease_id = rs_lease_seq st; st = st\<lparr>rs_lease_seq := lease_id + 1\<rparr>
                           in if \<not> written \<or> isl (lease_reply lease_id port) then (Inr None, se, st)
                              else (Inr (Some (request, lease_id, port)),
                                    se\<lparr>se_lease_permits := se_lease_permits se - 1\<rparr>, st)))))"

text \<open>A lease ends: its guard remembers the port and its permit is returned.\<close>

definition close_lease ::
  "nat \<Rightarrow> lease_request \<Rightarrow> u16 \<Rightarrow> relay_session \<Rightarrow> relay_state \<Rightarrow> relay_session \<times> relay_state" where
  "close_lease now request port se st =
     (se\<lparr>se_lease_permits := se_lease_permits se + 1\<rparr>,
      remember_port now (se_node_id se, lq_listener_id request, lq_transport request) port st)"

section \<open>Grants\<close>

lemma range_ports_iff: "p \<in> set (range_ports r) \<longleftrightarrow> pr_start r \<le> p \<and> p \<le> pr_end r"
proof
  assume "p \<in> set (range_ports r)"
  then obtain n where n: "unat (pr_start r) \<le> n" "n \<le> unat (pr_end r)" "p = word_of_nat n"
    by (auto simp: range_ports_def)
  then have "unat p = n"
    using unsigned_less [where ?'a = nat, of "pr_end r"] by (simp add: unsigned_of_nat take_bit_nat_eq_self)
  with n show "pr_start r \<le> p \<and> p \<le> pr_end r" by (simp add: word_le_nat_alt)
next
  assume "pr_start r \<le> p \<and> p \<le> pr_end r"
  then have "unat p \<in> set [unat (pr_start r)..<Suc (unat (pr_end r))]" by (simp add: word_le_nat_alt less_Suc_eq_le del: upt_Suc)
  then have "word_of_nat (unat p) \<in> set (range_ports r)" unfolding range_ports_def set_map by (rule imageI)
  then show "p \<in> set (range_ports r)" by simp
qed

lemma port_allowed_iff: "port_allowed grant p \<longleftrightarrow> p \<in> set (concat (map range_ports grant))"
  by (auto simp: port_allowed_def list_ex_iff range_ports_iff)

lemma claim_ports_distinct: "claim_ports tps claimed = Inr () \<longleftrightarrow> distinct tps \<and> set tps \<inter> set claimed = {}"
  by (induction tps claimed rule: claim_ports.induct) auto

lemma compile_port_list_ok:
  "compile_port_list raws used ranges = Inr grant \<Longrightarrow> list_all (\<lambda>r. 0 < pr_start r \<and> pr_start r \<le> pr_end r) ranges \<Longrightarrow>
     list_all (\<lambda>r. 0 < pr_start r \<and> pr_start r \<le> pr_end r) grant \<and> length grant = length ranges + length raws"
proof (induction raws used ranges rule: compile_port_list.induct)
  case (2 raw raws used ranges)
  from 2(2) obtain range where "parse_ports (trim raw) = Inr range"
    "0 < pr_start range \<and> pr_start range \<le> pr_end range"
    "used + (unat (pr_end range - pr_start range) + 1) \<le> MAX_PORTS_PER_GRANT"
    "compile_port_list raws (used + (unat (pr_end range - pr_start range) + 1)) (ranges @ [range]) = Inr grant"
    by (auto simp: Let_def)
  with 2(1) 2(3) show ?case by fastforce
qed simp

lemma compile_ports_positive: "compile_ports raws = Inr grant \<Longrightarrow> \<not> port_allowed grant 0"
  using compile_port_list_ok [of raws 0 "[]" grant]
  by (auto simp: compile_ports_def port_allowed_def list_ex_iff list_all_iff)

definition listeners_ok :: "((string \<times> transport) \<times> listener_grant) list \<Rightarrow> bool" where
  "listeners_ok ls \<longleftrightarrow> distinct (map fst ls) \<and> list_all (\<lambda>(_, ps). \<not> port_allowed ps 0) ls"

lemma compile_listeners_ok:
  "compile_listeners ls acc = Inr out \<Longrightarrow> listeners_ok acc \<Longrightarrow> listeners_ok out"
proof (induction ls acc rule: compile_listeners.induct)
  case (2 l ls acc)
  from 2(2) obtain t ps where t: "transport_parse (lf_transport l) = Inr t" "(lf_id l, t) \<notin> set (map fst acc)"
    "compile_ports (lf_ports l) = Inr ps" "compile_listeners ls (acc @ [((lf_id l, t), ps)]) = Inr out"
    by (auto split: sum.splits)
  have "listeners_ok (acc @ [((lf_id l, t), ps)])"
    using 2(3) t(2) compile_ports_positive [OF t(3)] by (simp add: listeners_ok_def)
  with 2(1) 2(2) t show ?case by (auto split: sum.splits)
qed simp

definition nodes_ok :: "(string \<times> node_grant) list \<Rightarrow> bool" where
  "nodes_ok ns \<longleftrightarrow> distinct (map fst ns) \<and> list_all (\<lambda>(_, g). listeners_ok (ng_listeners g) \<and> ng_tokens g \<noteq> []) ns"

lemma compile_node_ok: "compile_node env n = Inr g \<Longrightarrow> listeners_ok (ng_listeners g) \<and> ng_tokens g \<noteq> []"
  using compile_listeners_ok [of "nf_listeners n" "[]"]
  by (auto simp: compile_node_def node_tokens_def Let_def listeners_ok_def)

lemma compile_nodes_ok: "compile_nodes env ns acc = Inr out \<Longrightarrow> nodes_ok acc \<Longrightarrow> nodes_ok out"
proof (induction env ns acc rule: compile_nodes.induct)
  case (2 env n ns acc)
  from 2(2) obtain g where g: "compile_node env n = Inr g" "nf_node_id n \<notin> set (map fst acc)"
    "compile_nodes env ns (acc @ [(nf_node_id n, g)]) = Inr out" by auto
  have "nodes_ok (acc @ [(nf_node_id n, g)])"
    using 2(3) g(2) compile_node_ok [OF g(1)] by (simp add: nodes_ok_def)
  with 2(1) 2(2) g show ?case by auto
qed simp

text \<open>One entry per listener, and the ports of two entries are disjoint.\<close>

lemma distinct_concat_disjoint:
  "distinct (concat (map F xs)) \<Longrightarrow> x \<in> set xs \<Longrightarrow> y \<in> set xs \<Longrightarrow> x \<noteq> y \<Longrightarrow> set (F x) \<inter> set (F y) = {}"
  by (induction xs) auto

definition grant_entries :: "(string \<times> node_grant) list \<Rightarrow> (string \<times> string \<times> transport \<times> listener_grant) list" where
  "grant_entries nodes = concat (map (\<lambda>(n, g). map (\<lambda>((l, t), ps). (n, l, t, ps)) (ng_listeners g)) nodes)"

lemma granted_ports_entries:
  "granted_ports nodes = concat (map (\<lambda>(n, l, t, ps). map (Pair t) (concat (map range_ports ps))) (grant_entries nodes))"
  by (induction nodes) (simp_all add: granted_ports_def grant_entries_def comp_def case_prod_unfold)

lemma grants_disjoint:
  assumes "relay_compile env f = Inr cfg"
    and "map_of (rc_nodes cfg) n1 = Some g1" and "map_of (ng_listeners g1) (l1, t) = Some ps1"
    and "map_of (rc_nodes cfg) n2 = Some g2" and "map_of (ng_listeners g2) (l2, t) = Some ps2"
    and "port_allowed ps1 p" and "port_allowed ps2 p"
  shows "n1 = n2 \<and> l1 = l2"
proof (rule ccontr)
  assume "\<not> (n1 = n2 \<and> l1 = l2)"
  then have ne: "(n1, l1, t, ps1) \<noteq> (n2, l2, t, ps2)" by auto
  have "distinct (granted_ports (rc_nodes cfg))"
    using assms(1) by (auto simp: relay_compile_def validate_non_overlapping_grants_def claim_ports_distinct)
  moreover have "(n1, l1, t, ps1) \<in> set (grant_entries (rc_nodes cfg))" "(n2, l2, t, ps2) \<in> set (grant_entries (rc_nodes cfg))"
    using map_of_SomeD [OF assms(2)] map_of_SomeD [OF assms(3)] map_of_SomeD [OF assms(4)] map_of_SomeD [OF assms(5)]
    unfolding grant_entries_def by force+
  ultimately have "set (map (Pair t) (concat (map range_ports ps1))) \<inter> set (map (Pair t) (concat (map range_ports ps2))) = {}"
    using distinct_concat_disjoint [OF _ _ _ ne] unfolding granted_ports_entries by fastforce
  with assms(6,7) show False unfolding port_allowed_iff by auto
qed

lemma relay_compile_nodes: "relay_compile env f = Inr cfg \<Longrightarrow> nodes_ok (rc_nodes cfg)"
  using compile_nodes_ok [of env "rf_nodes f" "[]"] by (auto simp: relay_compile_def nodes_ok_def)

lemma bind_port_ok:
  assumes "bind_port free preferred grant fixed = Some port" and "\<not> port_allowed grant 0"
  shows "port_allowed grant port \<and> port \<noteq> 0 \<and> free port \<and> (fixed \<longrightarrow> port = preferred)"
proof -
  have "port \<in> set (candidate_ports preferred grant fixed)" "free port"
    using assms(1) unfolding bind_port_def find_Some_iff by (metis nth_mem)+
  then show ?thesis
    using assms(2) by (auto simp: candidate_ports_def port_allowed_iff Let_def split: if_splits)
qed

section \<open>Leases are exclusive\<close>

lemma reserve_port_fixed:
  "reserve_port now key grant requested st = (Inr port, st') \<Longrightarrow> requested \<noteq> 0 \<Longrightarrow> port = requested"
  by (auto simp: reserve_port_def Let_def split: if_splits)

lemma handle_lease_opened:
  assumes "handle_lease stream now free written se st = (Inr (Some (request, lease, port)), se', st')"
  obtains grant preferred st1 where
    "map_of (ng_listeners (se_grant se)) (lq_listener_id request, lq_transport request) = Some grant"
    "0 < se_lease_permits se"
    "reserve_port now (se_node_id se, lq_listener_id request, lq_transport request) grant (lq_public_port request) st =
       (Inr preferred, st1)"
    "bind_port free preferred grant (lq_public_port request \<noteq> 0) = Some port"
    "se' = se\<lparr>se_lease_permits := se_lease_permits se - 1\<rparr>"
  using assms unfolding handle_lease_def Let_def
  by (auto split: option.splits prod.splits sum.splits if_splits)

text \<open>
  C8: a relay gives a node only ports of its own grant, and no port to two listeners. Under every
  configuration that compiles, an opened lease has a port the operating system let the relay
  bind, which is never zero and is the requested one if a port was requested; the grant of the
  session's node for that listener and transport authorizes it, no other listener of any node is
  authorized for that port on that transport, and the session had a lease permit left.
\<close>

theorem relay_lease_exclusive:
  assumes "relay_compile env f = Inr cfg"
    and "map_of (rc_nodes cfg) (se_node_id se) = Some (se_grant se)"
    and "handle_lease stream now free written se st = (Inr (Some (request, lease, port)), se', st')"
  shows "(\<exists>grant. map_of (ng_listeners (se_grant se)) (lq_listener_id request, lq_transport request) = Some grant \<and>
       port_allowed grant port) \<and> free port \<and> port \<noteq> 0 \<and>
     (lq_public_port request \<noteq> 0 \<longrightarrow> port = lq_public_port request) \<and> 0 < se_lease_permits se \<and>
     (\<forall>n g l ps. map_of (rc_nodes cfg) n = Some g \<longrightarrow> map_of (ng_listeners g) (l, lq_transport request) = Some ps \<longrightarrow>
       port_allowed ps port \<longrightarrow> n = se_node_id se \<and> l = lq_listener_id request)"
proof -
  from assms(3) obtain grant preferred st1 where
    g: "map_of (ng_listeners (se_grant se)) (lq_listener_id request, lq_transport request) = Some grant"
    and permit: "0 < se_lease_permits se"
    and preferred: "reserve_port now (se_node_id se, lq_listener_id request, lq_transport request) grant
      (lq_public_port request) st = (Inr preferred, st1)"
    and bound: "bind_port free preferred grant (lq_public_port request \<noteq> 0) = Some port"
    by (rule handle_lease_opened)
  have "listeners_ok (ng_listeners (se_grant se))"
    using relay_compile_nodes [OF assms(1)] map_of_SomeD [OF assms(2)] by (auto simp: nodes_ok_def list_all_iff)
  then have "\<not> port_allowed grant 0"
    using map_of_SomeD [OF g] by (auto simp: listeners_ok_def list_all_iff)
  from bind_port_ok [OF bound this] have port: "port_allowed grant port" "port \<noteq> 0" "free port"
    "lq_public_port request \<noteq> 0 \<longrightarrow> port = preferred" by auto
  have "n = se_node_id se \<and> l = lq_listener_id request"
    if "map_of (rc_nodes cfg) n = Some g'" "map_of (ng_listeners g') (l, lq_transport request) = Some ps" "port_allowed ps port"
    for n g' l ps
    using grants_disjoint [OF assms(1) that(1,2) assms(2) g that(3) port(1)] by simp
  with g permit port reserve_port_fixed [OF preferred] show ?thesis by blast
qed

definition demo_relay :: relay_file where
  "demo_relay = \<lparr>rf_relay_id = ''relay-1'', rf_listen = ''0.0.0.0:7443'', rf_public_bind = ''0.0.0.0'', rf_cert = ''c.pem'',
     rf_key = ''k.pem'', rf_initial_mtu = None, rf_max_streams = 16, rf_lease_grace_secs = 30,
     rf_nodes = [\<lparr>nf_node_id = ''edge-1'', nf_token = ''secret'', nf_token_env = [], nf_tokens = [], nf_token_envs = [],
       nf_max_leases = 4, nf_max_tcp_connections = 8, nf_max_udp_flows = 8,
       nf_listeners = [\<lparr>lf_id = ''https'', lf_transport = ''tcp'', lf_ports = [''443'', ''8000-8001'']\<rparr>,
         \<lparr>lf_id = ''quic'', lf_transport = ''udp'', lf_ports = [''443'']\<rparr>]\<rparr>]\<rparr>"

definition demo_relay_config :: relay_config where
  "demo_relay_config = projr (relay_compile (\<lambda>_. None) demo_relay)"

definition demo_session :: relay_session where
  "demo_session = \<lparr>se_node_id = ''edge-1'', se_grant = the (map_of (rc_nodes demo_relay_config) ''edge-1''),
     se_session_id = replicate 16 0, se_lease_permits = 4\<rparr>"

lemma demo_relay_compiles: "relay_compile (\<lambda>_. None) demo_relay = Inr demo_relay_config"
proof -
  have "\<not> isl (relay_compile (\<lambda>_. None) demo_relay)" by code_simp
  then show ?thesis by (simp add: demo_relay_config_def)
qed

lemma demo_session_grant: "map_of (rc_nodes demo_relay_config) (se_node_id demo_session) = Some (se_grant demo_session)"
proof -
  have "map_of (rc_nodes demo_relay_config) ''edge-1'' \<noteq> None" by code_simp
  then show ?thesis by (simp add: demo_session_def)
qed

definition demo_lease :: bytes where
  "demo_lease = projr (lease_encode \<lparr>lq_listener_id = ''https'', lq_transport = Tcp, lq_public_port = 0\<rparr>)"

theorem relay_lease_exclusive_witness:
  "\<exists>request lease port. fst (handle_lease demo_lease 5 (\<lambda>p. p \<noteq> 443) True demo_session
       (relay_state_of demo_relay_config 1)) = Inr (Some (request, lease, port)) \<and> port \<noteq> 0 \<and> port \<noteq> 443"
proof -
  let ?r = "handle_lease demo_lease 5 (\<lambda>p. p \<noteq> 443) True demo_session (relay_state_of demo_relay_config 1)"
  have "(case fst ?r of Inr (Some x) \<Rightarrow> True | _ \<Rightarrow> False)" by code_simp
  then obtain request lease port where opened: "fst ?r = Inr (Some (request, lease, port))"
    by (auto split: sum.splits option.splits)
  then have "?r = (Inr (Some (request, lease, port)), fst (snd ?r), snd (snd ?r))" by (metis prod.collapse)
  with relay_lease_exclusive [OF demo_relay_compiles demo_session_grant this] opened show ?thesis by blast
qed

lemma map_of_filter_keeps: "map_of xs k = Some v \<Longrightarrow> P (k, v) \<Longrightarrow> map_of (filter P xs) k = Some v"
  by (induction xs) (auto split: if_splits)

text \<open>
  C35: reservations ignore the transport. A node that leased the same port on TCP and on UDP, which
  configurations allow, and lost both leases together is refused both, when it asks for the port by number,
  until the first of the two reservations expires: each listener's own reservation blocks the
  other's renewal. Only a request for any port, with number 0, gets the port back.
\<close>

theorem twin_lease_refused:
  assumes "port \<noteq> 0" and "now < closed + rs_lease_grace st"
  shows "let st' = remember_port closed (node, l1, Tcp) port (remember_port closed (node, l2, Udp) port st)
    in fst (reserve_port now (node, l1, Tcp) tcp_grant port st') = Inl FORBIDDEN \<and>
       fst (reserve_port now (node, l2, Udp) udp_grant port st') = Inl FORBIDDEN \<and>
       fst (reserve_port now (node, l1, Tcp) tcp_grant 0 st') = Inr port \<and>
       fst (reserve_port now (node, l2, Udp) udp_grant 0 st') = Inr port"
proof -
  define rv where "rv = \<lparr>rv_port = port, rv_expires_at = closed + rs_lease_grace st\<rparr>"
  define st' where "st' = remember_port closed (node, l1, Tcp) port (remember_port closed (node, l2, Udp) port st)"
  have keys: "map_of (rs_reservations st') (node, l1, Tcp) = Some rv" "map_of (rs_reservations st') (node, l2, Udp) = Some rv"
    by (simp_all add: st'_def remember_port_def update_conv' rv_def)
  then have "((node, l1, Tcp), rv) \<in> set (rs_reservations st')" "((node, l2, Udp), rv) \<in> set (rs_reservations st')"
    by (simp_all add: map_of_SomeD)
  moreover have live: "now < rv_expires_at rv" "rv_port rv = port" using assms(2) by (simp_all add: rv_def)
  ultimately have "taken_by_other (node, l1, Tcp) port (filter (\<lambda>(_, r). now < rv_expires_at r) (rs_reservations st'))"
    "taken_by_other (node, l2, Udp) port (filter (\<lambda>(_, r). now < rv_expires_at r) (rs_reservations st'))"
    unfolding taken_by_other_def list_ex_iff by fastforce+
  moreover have "map_of (filter (\<lambda>(_, r). now < rv_expires_at r) (rs_reservations st')) (node, l1, Tcp) = Some rv"
    "map_of (filter (\<lambda>(_, r). now < rv_expires_at r) (rs_reservations st')) (node, l2, Udp) = Some rv"
    using keys live by (simp_all add: map_of_filter_keeps)
  ultimately show ?thesis
    using assms(1) live(2) by (simp add: st'_def [symmetric] Let_def) (simp add: reserve_port_def Let_def)
qed

theorem twin_lease_refused_witness:
  "let st = relay_state_of demo_relay_config 1;
       st' = remember_port 100 (''edge-1'', ''https'', Tcp) 443 (remember_port 100 (''edge-1'', ''quic'', Udp) 443 st)
   in fst (reserve_port 110 (''edge-1'', ''https'', Tcp) [\<lparr>pr_start = 443, pr_end = 443\<rparr>] 443 st') = Inl FORBIDDEN"
proof -
  have "rs_lease_grace (relay_state_of demo_relay_config 1) = 30" by code_simp
  then show ?thesis
    using twin_lease_refused [of 443 110 100 "relay_state_of demo_relay_config 1" "''edge-1''" "''https''" "''quic''"
      "[\<lparr>pr_start = 443, pr_end = 443\<rparr>]" "[]"] by (simp add: Let_def)
qed

end
