(* ===== verification/Ingress_Flows.thy ===== *)
theory Ingress_Flows
  imports Ingress_Frame
begin

text \<open>
  The UDP flows of a relay session (\<open>RegisteredSession\<close> in \<open>ingress/relay.rs\<close>) and the
  process-local metadata of \<open>ingress/metadata.rs\<close>. Instants are seconds, sockets are handles,
  and the random identifiers drawn are an argument. The theorems say that the two tables of a
  session agree, stay within their bound, and send every answer to the client it belongs to.
\<close>

section \<open>Flow tables\<close>

definition DEFAULT_FLOW_IDLE :: nat where "DEFAULT_FLOW_IDLE = 60"

record relay_flow =
  fl_lease_id :: u64
  fl_client_addr :: socket_addr
  fl_socket :: nat
  fl_listener_id :: string
  fl_last_seen :: nat
  fl_bytes_up :: u64
  fl_bytes_down :: u64

record flow_tables =
  by_key :: "u64 \<times> socket_addr \<Rightarrow> id128 option"
  by_id :: "((u64 \<times> id128) \<times> relay_flow) list"

definition flow_tables_default :: flow_tables where
  "flow_tables_default = \<lparr>by_key = (\<lambda>_. None), by_id = []\<rparr>"

text \<open>
  The loop that draws identifiers until one is unused; a failing generator ends it. The list
  holds the draws in order.
\<close>

fun fresh_id :: "id128 option list \<Rightarrow> (id128 \<Rightarrow> bool) \<Rightarrow> id128 option" where
  "fresh_id [] used = None"
| "fresh_id (None # draws) used = None"
| "fresh_id (Some i # draws) used = (if used i then fresh_id draws used else Some i)"

definition touch_up :: "nat \<Rightarrow> nat \<Rightarrow> relay_flow \<Rightarrow> relay_flow" where
  "touch_up now n fl = fl\<lparr>fl_last_seen := now, fl_bytes_up := fl_bytes_up fl + word_of_nat n\<rparr>"

definition flow_for ::
  "nat \<Rightarrow> id128 option list \<Rightarrow> nat \<Rightarrow> nat \<Rightarrow> string \<Rightarrow> u64 \<Rightarrow> socket_addr \<Rightarrow> nat \<Rightarrow> flow_tables \<Rightarrow>
     (id128 \<times> flow_tables) option" where
  "flow_for now draws max_flows socket listener lease client n T =
     (case by_key T (lease, client) of
        Some i \<Rightarrow>
          Some (i, case map_of (by_id T) (lease, i) of
                     Some fl \<Rightarrow> T\<lparr>by_id := AList.update (lease, i) (touch_up now n fl) (by_id T)\<rparr>
                   | None \<Rightarrow> T)
      | None \<Rightarrow>
          if max_flows \<le> length (by_id T) then None
          else
            map_option (\<lambda>i. (i,
              \<lparr>by_key = (by_key T)((lease, client) \<mapsto> i),
               by_id = AList.update (lease, i) \<lparr>fl_lease_id = lease, fl_client_addr = client, fl_socket = socket,
                 fl_listener_id = listener, fl_last_seen = now, fl_bytes_up = word_of_nat n, fl_bytes_down = 0\<rparr> (by_id T)\<rparr>))
              (fresh_id draws (\<lambda>i. map_of (by_id T) (lease, i) \<noteq> None)))"

text \<open>\<open>forward_udp\<close>: the datagram handed to the connection, if any, and the tables.\<close>

definition forward_udp ::
  "nat \<Rightarrow> id128 option list \<Rightarrow> nat \<Rightarrow> nat option \<Rightarrow> nat \<Rightarrow> string \<Rightarrow> u64 \<Rightarrow> socket_addr \<Rightarrow> bytes \<Rightarrow> flow_tables \<Rightarrow>
     bytes option \<times> flow_tables" where
  "forward_udp now draws max_flows max_datagram socket listener lease client payload T =
     (case flow_for now draws max_flows socket listener lease client (length payload) T of
        None \<Rightarrow> (None, T)
      | Some (i, T) \<Rightarrow>
          let encoded = datagram_encode (Uplink lease i client payload)
          in if (case max_datagram of Some m \<Rightarrow> m < length encoded | None \<Rightarrow> False) then (None, T)
             else (Some encoded, T))"

text \<open>One datagram of \<open>downlink_loop\<close>: the packet sent to a client, and whether sending worked.\<close>

definition downlink :: "nat \<Rightarrow> bool \<Rightarrow> bytes \<Rightarrow> flow_tables \<Rightarrow> (nat \<times> socket_addr \<times> bytes) option \<times> flow_tables" where
  "downlink now sent bs T =
     (case datagram_parse bs of
        Inr (Downlink lease i payload) \<Rightarrow>
          (case map_of (by_id T) (lease, i) of
             None \<Rightarrow> (None, T)
           | Some fl \<Rightarrow>
               (Some (fl_socket fl, fl_client_addr fl, payload),
                if sent then T\<lparr>by_id := AList.update (lease, i)
                    (fl\<lparr>fl_last_seen := now, fl_bytes_down := fl_bytes_down fl + word_of_nat (length payload)\<rparr>) (by_id T)\<rparr>
                else T))
      | _ \<Rightarrow> (None, T))"

definition remove_flow :: "u64 \<times> id128 \<Rightarrow> flow_tables \<Rightarrow> flow_tables" where
  "remove_flow key T =
     (case map_of (by_id T) key of
        None \<Rightarrow> T
      | Some fl \<Rightarrow>
          \<lparr>by_key = (by_key T)((fl_lease_id fl, fl_client_addr fl) := None), by_id = AList.delete key (by_id T)\<rparr>)"

definition sweep :: "nat \<Rightarrow> flow_tables \<Rightarrow> flow_tables" where
  "sweep now T =
     fold remove_flow (map fst (filter (\<lambda>(_, fl). DEFAULT_FLOW_IDLE \<le> now - fl_last_seen fl) (by_id T))) T"

definition remove_lease_flows :: "u64 \<Rightarrow> flow_tables \<Rightarrow> flow_tables" where
  "remove_lease_flows lease T = fold remove_flow (map fst (filter (\<lambda>((l, _), _). l = lease) (by_id T))) T"

section \<open>The tables agree\<close>

definition key_ok :: "flow_tables \<Rightarrow> bool" where
  "key_ok T \<longleftrightarrow> (\<forall>l c i. by_key T (l, c) = Some i \<longrightarrow>
     (\<exists>fl. map_of (by_id T) (l, i) = Some fl \<and> fl_client_addr fl = c))"

definition id_ok :: "flow_tables \<Rightarrow> bool" where
  "id_ok T \<longleftrightarrow> (\<forall>l i fl. map_of (by_id T) (l, i) = Some fl \<longrightarrow>
     by_key T (l, fl_client_addr fl) = Some i \<and> fl_lease_id fl = l \<and> length i = 16)"

definition tables_ok :: "nat \<Rightarrow> flow_tables \<Rightarrow> bool" where
  "tables_ok most T \<longleftrightarrow> distinct (map fst (by_id T)) \<and> length (by_id T) \<le> most \<and> key_ok T \<and> id_ok T"

lemma fresh_id_unused: "fresh_id draws used = Some i \<Longrightarrow> \<not> used i \<and> Some i \<in> set draws"
  by (induction draws used rule: fresh_id.induct) (auto split: if_splits)

lemma tables_ok_default: "tables_ok most flow_tables_default"
  by (simp add: tables_ok_def key_ok_def id_ok_def flow_tables_default_def)

lemma key_okD:
  assumes "key_ok T" and "by_key T (l, c) = Some i"
  obtains fl where "map_of (by_id T) (l, i) = Some fl" and "fl_client_addr fl = c"
  using assms unfolding key_ok_def by blast

lemma id_okD:
  assumes "id_ok T" and "map_of (by_id T) (l, i) = Some fl"
  shows "by_key T (l, fl_client_addr fl) = Some i" and "fl_lease_id fl = l" and "length i = 16"
  using assms unfolding id_ok_def by blast+

lemma length_update_new: "k \<notin> fst ` set al \<Longrightarrow> length (AList.update k v al) = Suc (length al)"
  by (induction al) auto

lemma length_update_same: "k \<in> fst ` set al \<Longrightarrow> length (AList.update k v al) = length al"
  by (induction al) auto

text \<open>Counting a packet of a flow changes neither its client nor its lease.\<close>

lemma tables_ok_touch:
  assumes ok: "tables_ok most T" and fl: "map_of (by_id T) (l, i) = Some fl"
    and same: "fl_client_addr fl' = fl_client_addr fl" "fl_lease_id fl' = fl_lease_id fl"
  shows "tables_ok most (T\<lparr>by_id := AList.update (l, i) fl' (by_id T)\<rparr>)"
proof -
  have key: "key_ok T" and ids: "id_ok T" using ok by (simp_all add: tables_ok_def)
  have "(l, i) \<in> fst ` set (by_id T)" using map_of_SomeD [OF fl] by force
  moreover have "key_ok (T\<lparr>by_id := AList.update (l, i) fl' (by_id T)\<rparr>)"
    unfolding key_ok_def using fl same by (auto simp: update_conv' elim: key_okD [OF key])
  moreover have "id_ok (T\<lparr>by_id := AList.update (l, i) fl' (by_id T)\<rparr>)"
    unfolding id_ok_def using id_okD [OF ids fl] same by (auto simp: update_conv' dest: id_okD [OF ids])
  ultimately show ?thesis using ok by (simp add: tables_ok_def distinct_update length_update_same)
qed

lemma tables_ok_open:
  assumes ok: "tables_ok most T" and new: "map_of (by_id T) (l, i) = None" "by_key T (l, c) = None"
    and room: "length (by_id T) < most" and fl: "length i = 16" "fl_client_addr fl = c" "fl_lease_id fl = l"
  shows "tables_ok most \<lparr>by_key = (by_key T)((l, c) \<mapsto> i), by_id = AList.update (l, i) fl (by_id T)\<rparr>"
    (is "tables_ok most ?T")
proof -
  have key: "key_ok T" and ids: "id_ok T" using ok by (simp_all add: tables_ok_def)
  have unused: "by_key T (l, c') \<noteq> Some i" for c' using new(1) by (auto elim: key_okD [OF key])
  have "key_ok ?T"
    unfolding key_ok_def
  proof (intro allI impI)
    fix l' c' i'
    assume at: "by_key ?T (l', c') = Some i'"
    show "\<exists>fl. map_of (by_id ?T) (l', i') = Some fl \<and> fl_client_addr fl = c'"
    proof (cases "(l', c') = (l, c)")
      case True
      then show ?thesis using at fl by (simp add: update_conv')
    next
      case False
      then have old: "by_key T (l', c') = Some i'" using at by (auto split: if_splits)
      then have "(l', i') \<noteq> (l, i)" using unused by auto
      then show ?thesis using key_okD [OF key old] by (metis update_conv' fun_upd_other select_convs(2))
    qed
  qed
  moreover have "id_ok ?T"
    unfolding id_ok_def
  proof (intro allI impI)
    fix l' i' fl'
    assume at: "map_of (by_id ?T) (l', i') = Some fl'"
    show "by_key ?T (l', fl_client_addr fl') = Some i' \<and> fl_lease_id fl' = l' \<and> length i' = 16"
    proof (cases "(l', i') = (l, i)")
      case True
      then show ?thesis using at fl by (simp add: update_conv')
    next
      case False
      then have old: "map_of (by_id T) (l', i') = Some fl'" using at by (auto simp: update_conv' split: if_splits)
      then have "(l', fl_client_addr fl') \<noteq> (l, c)" using id_okD(1) [OF ids old] new(2) by auto
      then show ?thesis using id_okD [OF ids old] by auto
    qed
  qed
  moreover have "(l, i) \<notin> fst ` set (by_id T)" using new(1) by (simp add: map_of_eq_None_iff)
  ultimately show ?thesis using ok room by (simp add: tables_ok_def distinct_update length_update_new)
qed

lemma tables_ok_remove: "tables_ok most T \<Longrightarrow> tables_ok most (remove_flow key T)"
proof (cases "map_of (by_id T) key")
  case (Some fl)
  obtain l i where k: "key = (l, i)" by force
  assume ok: "tables_ok most T"
  then have key: "key_ok T" and ids: "id_ok T" by (simp_all add: tables_ok_def)
  note at = Some [unfolded k]
  have T: "remove_flow key T = \<lparr>by_key = (by_key T)((l, fl_client_addr fl) := None),
      by_id = AList.delete (l, i) (by_id T)\<rparr>" (is "_ = ?T")
    using Some k id_okD(2) [OF ids at] by (simp add: remove_flow_def)
  have "key_ok ?T"
    unfolding key_ok_def
  proof (intro allI impI)
    fix l' c' i'
    assume "by_key ?T (l', c') = Some i'"
    then have old: "by_key T (l', c') = Some i'" and other: "(l', c') \<noteq> (l, fl_client_addr fl)"
      by (auto split: if_splits)
    obtain fl' where fl': "map_of (by_id T) (l', i') = Some fl'" "fl_client_addr fl' = c'"
      by (rule key_okD [OF key old])
    then have "(l', i') \<noteq> (l, i)" using other at by auto
    then show "\<exists>fl. map_of (by_id ?T) (l', i') = Some fl \<and> fl_client_addr fl = c'"
      using fl' by (simp add: delete_conv')
  qed
  moreover have "id_ok ?T"
    unfolding id_ok_def
  proof (intro allI impI)
    fix l' i' fl'
    assume "map_of (by_id ?T) (l', i') = Some fl'"
    then have old: "map_of (by_id T) (l', i') = Some fl'" and other: "(l', i') \<noteq> (l, i)"
      by (auto simp: delete_conv' split: if_splits)
    have "(l', fl_client_addr fl') \<noteq> (l, fl_client_addr fl)"
      using id_okD(1) [OF ids old] id_okD(1) [OF ids at] other by auto
    then show "by_key ?T (l', fl_client_addr fl') = Some i' \<and> fl_lease_id fl' = l' \<and> length i' = 16"
      using id_okD [OF ids old] by auto
  qed
  moreover have "length (AList.delete (l, i) (by_id T)) \<le> length (by_id T)" by (rule length_delete_le)
  ultimately show ?thesis using ok unfolding T by (simp add: tables_ok_def distinct_delete)
qed (simp add: remove_flow_def)

lemma tables_ok_remove_all: "tables_ok most T \<Longrightarrow> tables_ok most (fold remove_flow keys T)"
  by (induction keys arbitrary: T) (auto intro: tables_ok_remove)

section \<open>Runs of a session\<close>

text \<open>
  What happens to the tables of a session: a packet of a client arrives on the socket of its
  lease, a datagram arrives from the node, idle flows are swept, a lease closes. Identifiers
  drawn are 16 bytes long.
\<close>

inductive flow_run :: "nat \<Rightarrow> (u64 \<Rightarrow> nat) \<Rightarrow> flow_tables \<Rightarrow> flow_tables \<Rightarrow> bool" for most sockets where
  start: "flow_run most sockets T T"
| packet: "flow_run most sockets T U \<Longrightarrow> \<forall>i. Some i \<in> set draws \<longrightarrow> length i = 16 \<Longrightarrow>
    flow_run most sockets T (snd (forward_udp now draws most mtu (sockets lease) listener lease client payload U))"
| answer: "flow_run most sockets T U \<Longrightarrow> flow_run most sockets T (snd (downlink now sent bs U))"
| idle: "flow_run most sockets T U \<Longrightarrow> flow_run most sockets T (sweep now U)"
| closed: "flow_run most sockets T U \<Longrightarrow> flow_run most sockets T (remove_lease_flows lease U)"

definition on_socket :: "(u64 \<Rightarrow> nat) \<Rightarrow> flow_tables \<Rightarrow> bool" where
  "on_socket sockets T \<longleftrightarrow> (\<forall>l i fl. map_of (by_id T) (l, i) = Some fl \<longrightarrow> fl_socket fl = sockets l)"

lemma on_socket_remove: "on_socket sockets T \<Longrightarrow> on_socket sockets (remove_flow key T)"
  by (auto simp: on_socket_def remove_flow_def delete_conv' split: option.split if_splits)

lemma on_socket_remove_all: "on_socket sockets T \<Longrightarrow> on_socket sockets (fold remove_flow keys T)"
  by (induction keys arbitrary: T) (auto intro: on_socket_remove)

lemma flow_for_ok:
  assumes ok: "tables_ok most T" "on_socket sockets T" and draws: "\<forall>i. Some i \<in> set draws \<longrightarrow> length i = 16"
    and got: "flow_for now draws most (sockets lease) listener lease client n T = Some (i, U)"
  shows "tables_ok most U \<and> on_socket sockets U \<and> by_key U (lease, client) = Some i"
proof (cases "by_key T (lease, client)")
  case (Some j)
  then obtain fl where fl: "map_of (by_id T) (lease, j) = Some fl"
    using ok(1) by (auto simp: tables_ok_def elim: key_okD)
  then have U: "i = j" "U = T\<lparr>by_id := AList.update (lease, j) (touch_up now n fl) (by_id T)\<rparr>"
    using got Some by (auto simp: flow_for_def)
  have "tables_ok most U" unfolding U by (rule tables_ok_touch [OF ok(1) fl]) (simp_all add: touch_up_def)
  moreover have "on_socket sockets U"
    using ok(2) fl by (auto simp: U on_socket_def update_conv' touch_up_def)
  ultimately show ?thesis using Some U by simp
next
  case None
  then obtain fl where room: "length (by_id T) < most"
    and fresh: "fresh_id draws (\<lambda>i. map_of (by_id T) (lease, i) \<noteq> None) = Some i"
    and U: "U = \<lparr>by_key = (by_key T)((lease, client) \<mapsto> i), by_id = AList.update (lease, i) fl (by_id T)\<rparr>"
    and fl: "fl_client_addr fl = client" "fl_lease_id fl = lease" "fl_socket fl = sockets lease"
    using got by (auto simp: flow_for_def split: if_splits)
  have new: "map_of (by_id T) (lease, i) = None" and len: "length i = 16"
    using fresh_id_unused [OF fresh] draws by auto
  have "tables_ok most U" unfolding U by (rule tables_ok_open [OF ok(1) new None room len fl(1,2)])
  moreover have "on_socket sockets U" using ok(2) fl(3) by (auto simp: U on_socket_def update_conv')
  ultimately show ?thesis using U by simp
qed

lemma forward_udp_ok:
  assumes "tables_ok most T" "on_socket sockets T" and "\<forall>i. Some i \<in> set draws \<longrightarrow> length i = 16"
    and "forward_udp now draws most mtu (sockets lease) listener lease client payload T = (out, U)"
  shows "tables_ok most U \<and> on_socket sockets U \<and>
    (case out of None \<Rightarrow> True
     | Some bs \<Rightarrow> \<exists>i. bs = datagram_encode (Uplink lease i client payload) \<and> by_key U (lease, client) = Some i)"
  using assms flow_for_ok [OF assms(1-3), of now lease listener client "length payload"]
  by (auto simp: forward_udp_def Let_def split: option.splits prod.splits if_splits)

lemma downlink_ok:
  assumes "tables_ok most T" and "on_socket sockets T"
  shows "tables_ok most (snd (downlink now sent bs T)) \<and> on_socket sockets (snd (downlink now sent bs T))"
proof -
  have "tables_ok most (T\<lparr>by_id := AList.update (l, i)
      (fl\<lparr>fl_last_seen := now, fl_bytes_down := n\<rparr>) (by_id T)\<rparr>)"
    if "map_of (by_id T) (l, i) = Some fl" for l i fl n
    by (rule tables_ok_touch [OF assms(1) that]) simp_all
  moreover have "on_socket sockets (T\<lparr>by_id := AList.update (l, i)
      (fl\<lparr>fl_last_seen := now, fl_bytes_down := n\<rparr>) (by_id T)\<rparr>)"
    if "map_of (by_id T) (l, i) = Some fl" for l i fl n
    using assms(2) that by (auto simp: on_socket_def update_conv')
  ultimately show ?thesis
    using assms unfolding downlink_def by (simp split: sum.split ingress_datagram.split option.split)
qed

lemma flow_run_ok:
  "flow_run most sockets T U \<Longrightarrow> tables_ok most T \<Longrightarrow> on_socket sockets T \<Longrightarrow> tables_ok most U \<and> on_socket sockets U"
proof (induction rule: flow_run.induct)
  case (packet T U draws now mtu lease listener client payload)
  then show ?case using forward_udp_ok [of most U sockets draws now mtu lease listener client payload]
    by (metis prod.collapse)
next
  case answer
  then show ?case by (intro downlink_ok) simp_all
qed (simp_all add: sweep_def remove_lease_flows_def tables_ok_remove_all on_socket_remove_all)

lemma downlink_known:
  assumes "tables_ok most T" and "on_socket sockets T" and "by_key T (l, c) = Some i"
  shows "fst (downlink now sent (datagram_encode (Downlink l i answer)) T) = Some (sockets l, c, answer)"
proof -
  have key: "key_ok T" and ids: "id_ok T" using assms(1) by (simp_all add: tables_ok_def)
  obtain fl where fl: "map_of (by_id T) (l, i) = Some fl" "fl_client_addr fl = c"
    by (rule key_okD [OF key assms(3)])
  have "datagram_parse (datagram_encode (Downlink l i answer)) = Inr (Downlink l i answer)"
    using datagram_back [of "Downlink l i answer"] id_okD(3) [OF ids fl(1)] by (simp add: wire_datagram_def)
  then show ?thesis using fl assms(2) by (simp add: downlink_def on_socket_def)
qed

text \<open>
  C9: In every run of a relay session, a client's packet that goes to the node carries a flow
  identifier of its own: as long as the flow is open, whatever the node answers under that
  identifier is sent from the socket of that lease to that client and to no other, and the
  session never holds more flows than its grant allows.
\<close>

theorem relay_answer_reaches_client:
  assumes before: "flow_run most sockets flow_tables_default T"
    and draws: "\<forall>i. Some i \<in> set draws \<longrightarrow> length i = 16"
    and sent: "forward_udp now draws most mtu (sockets lease) listener lease client payload T = (Some bs, U)"
    and after: "flow_run most sockets U W"
    and still_open: "by_key W (lease, client) = by_key U (lease, client)"
  shows "\<exists>i. datagram_parse bs = Inr (Uplink lease i (wire_addr client) payload) \<and>
    fst (downlink later ok (datagram_encode (Downlink lease i answer)) W) = Some (sockets lease, client, answer) \<and>
    (\<forall>c. by_key W (lease, c) = Some i \<longrightarrow> c = client) \<and> length (by_id W) \<le> most"
proof -
  have "on_socket sockets flow_tables_default" by (simp add: on_socket_def flow_tables_default_def)
  then have T: "tables_ok most T" "on_socket sockets T"
    using flow_run_ok [OF before tables_ok_default] by simp_all
  obtain i where U: "tables_ok most U" "on_socket sockets U"
    and i: "bs = datagram_encode (Uplink lease i client payload)" "by_key U (lease, client) = Some i"
    using forward_udp_ok [OF T draws sent] by auto
  have W: "tables_ok most W" "on_socket sockets W" using flow_run_ok [OF after U] by simp_all
  have at: "by_key W (lease, client) = Some i" using still_open i(2) by simp
  have ok: "key_ok W" "id_ok W" "id_ok U" "key_ok U" using W(1) U(1) by (simp_all add: tables_ok_def)
  obtain fl where fl: "map_of (by_id W) (lease, i) = Some fl" "fl_client_addr fl = client"
    by (rule key_okD [OF ok(1) at])
  have "length i = 16" by (rule id_okD(3) [OF ok(2) fl(1)])
  then have "datagram_parse bs = Inr (Uplink lease i (wire_addr client) payload)"
    using datagram_back [of "Uplink lease i client payload"] by (simp add: i(1) wire_datagram_def)
  moreover have "c = client" if "by_key W (lease, c) = Some i" for c
    using key_okD [OF ok(1) that] fl by auto
  ultimately show ?thesis using downlink_known [OF W at] W(1) by (auto simp: tables_ok_def)
qed

definition demo_client :: socket_addr where "demo_client = SockV4 0xCB007109 50000"

theorem relay_answer_reaches_client_witness:
  "\<exists>i. datagram_parse (datagram_encode (Uplink 7 (replicate 16 1) demo_client [5])) =
      Inr (Uplink 7 i (wire_addr demo_client) [5]) \<and>
    fst (downlink 9 True (datagram_encode (Downlink 7 i [6]))
      (snd (forward_udp 3 [Some (replicate 16 1)] 2 None 4 ''web'' 7 demo_client [5] flow_tables_default))) =
      Some (4, demo_client, [6])"
proof -
  define U where "U = snd (forward_udp 3 [Some (replicate 16 1)] 2 None 4 ''web'' 7 demo_client [5] flow_tables_default)"
  have sent: "forward_udp 3 [Some (replicate 16 1)] 2 None ((\<lambda>_. 4) 7) ''web'' 7 demo_client [5] flow_tables_default =
      (Some (datagram_encode (Uplink 7 (replicate 16 1) demo_client [5])), U)"
    by (simp add: U_def forward_udp_def flow_for_def flow_tables_default_def Let_def)
  show ?thesis
    using relay_answer_reaches_client [OF flow_run.start _ sent flow_run.start refl, of 9 True "[6]"]
    unfolding U_def by auto
qed

section \<open>Trusted metadata of loopback connections\<close>

definition MAX_PENDING_TCP :: nat where "MAX_PENDING_TCP = 8192"
definition MAX_UDP_FLOWS :: nat where "MAX_UDP_FLOWS = 65536"

record ingress_metadata =
  im_relay_instance_id :: string
  im_tunnel_session_id :: string
  im_lease_id :: u64
  im_listener_id :: string
  im_ingress_id :: "string option"
  im_flow_id :: "string option"
  im_client_addr :: socket_addr
  im_relay_addr :: socket_addr

record metadata_tables =
  tcp_entries :: "(socket_addr \<times> ingress_metadata) list"
  udp_entries :: "(socket_addr \<times> ingress_metadata) list"

definition insert_bounded :: "socket_addr \<Rightarrow> ingress_metadata \<Rightarrow> nat \<Rightarrow> (socket_addr \<times> ingress_metadata) list \<Rightarrow>
    bool \<times> (socket_addr \<times> ingress_metadata) list" where
  "insert_bounded source metadata limit entries =
     (if map_of entries source = None \<and> limit \<le> length entries then (False, entries)
      else (True, AList.update source metadata entries))"

definition register_tcp :: "socket_addr \<Rightarrow> ingress_metadata \<Rightarrow> metadata_tables \<Rightarrow> bool \<times> metadata_tables" where
  "register_tcp source m S = map_prod id (\<lambda>e. S\<lparr>tcp_entries := e\<rparr>) (insert_bounded source m MAX_PENDING_TCP (tcp_entries S))"

definition take_tcp :: "socket_addr \<Rightarrow> metadata_tables \<Rightarrow> ingress_metadata option \<times> metadata_tables" where
  "take_tcp source S = (map_of (tcp_entries S) source, S\<lparr>tcp_entries := AList.delete source (tcp_entries S)\<rparr>)"

definition remove_tcp :: "socket_addr \<Rightarrow> metadata_tables \<Rightarrow> metadata_tables" where
  "remove_tcp source S = S\<lparr>tcp_entries := AList.delete source (tcp_entries S)\<rparr>"

definition register_udp :: "socket_addr \<Rightarrow> ingress_metadata \<Rightarrow> metadata_tables \<Rightarrow> bool \<times> metadata_tables" where
  "register_udp source m S = map_prod id (\<lambda>e. S\<lparr>udp_entries := e\<rparr>) (insert_bounded source m MAX_UDP_FLOWS (udp_entries S))"

definition lookup_udp :: "socket_addr \<Rightarrow> metadata_tables \<Rightarrow> ingress_metadata option" where
  "lookup_udp source S = map_of (udp_entries S) source"

definition remove_udp :: "socket_addr \<Rightarrow> metadata_tables \<Rightarrow> metadata_tables" where
  "remove_udp source S = S\<lparr>udp_entries := AList.delete source (udp_entries S)\<rparr>"

lemma insert_bounded_lookup:
  assumes "insert_bounded source m limit es = (True, es')"
  shows "map_of es' source = Some m" and "other \<noteq> source \<Longrightarrow> map_of es' other = map_of es other"
  using assms by (auto simp: insert_bounded_def update_conv' split: if_splits)

lemma insert_bounded_limit: "length es \<le> limit \<Longrightarrow> length (snd (insert_bounded source m limit es)) \<le> limit"
proof (cases "map_of es source")
  case None
  then show "length es \<le> limit \<Longrightarrow> ?thesis"
    by (auto simp: insert_bounded_def map_of_eq_None_iff length_update_new)
next
  case (Some v)
  then have "source \<in> fst ` set es" by (metis map_of_eq_None_iff option.distinct(1))
  with Some show "length es \<le> limit \<Longrightarrow> ?thesis" by (simp add: insert_bounded_def length_update_same)
qed

text \<open>A registered connection is trusted once: the first taker gets it, the second gets nothing.\<close>

lemma take_tcp_once:
  assumes "register_tcp source m S = (True, S')"
  shows "fst (take_tcp source S') = Some m" and "fst (take_tcp source (snd (take_tcp source S'))) = None"
  using assms insert_bounded_lookup(1) [of source m MAX_PENDING_TCP "tcp_entries S"]
  by (auto simp: register_tcp_def take_tcp_def delete_conv' map_prod_def split: prod.splits)

end
