(* ===== verification/Rust_BTree.thy ===== *)
theory Rust_BTree
  imports Rove_Prelude "HOL-Library.Product_Lexorder"
begin

text \<open>
  Ordered maps and sets of the Rust standard library: lists in strictly ascending order of their
  keys, which is the order iteration visits them in.
\<close>

definition bt_ok :: "('k :: linorder \<times> 'v) list \<Rightarrow> bool" where
  "bt_ok m \<longleftrightarrow> sorted_wrt (<) (map fst m)"

fun bt_put :: "'k :: linorder \<Rightarrow> 'v \<Rightarrow> ('k \<times> 'v) list \<Rightarrow> ('k \<times> 'v) list" where
  "bt_put k v [] = [(k, v)]"
| "bt_put k v ((k', v') # m) =
     (if k < k' then (k, v) # (k', v') # m else if k = k' then (k, v) # m else (k', v') # bt_put k v m)"

definition bt_get :: "'v \<Rightarrow> ('k \<times> 'v) list \<Rightarrow> 'k \<Rightarrow> 'v" where
  "bt_get d m k = (case map_of m k of Some v \<Rightarrow> v | None \<Rightarrow> d)"

text \<open>\<open>entry(k).or_insert(d)\<close> followed by an update of the value.\<close>

definition bt_entry :: "'k :: linorder \<Rightarrow> 'v \<Rightarrow> ('v \<Rightarrow> 'v) \<Rightarrow> ('k \<times> 'v) list \<Rightarrow> ('k \<times> 'v) list" where
  "bt_entry k d f m = bt_put k (f (bt_get d m k)) m"

definition bt_remove :: "'k \<Rightarrow> ('k \<times> 'v) list \<Rightarrow> ('k \<times> 'v) list" where
  "bt_remove k m = filter (\<lambda>(k', _). k' \<noteq> k) m"

definition bs_insert :: "'a :: linorder \<Rightarrow> 'a list \<Rightarrow> 'a list" where
  "bs_insert x xs = (if x \<in> set xs then xs else insort x xs)"

lemma fst_bt_put [simp]: "fst ` set (bt_put k v m) = insert k (fst ` set m)"
  by (induction k v m rule: bt_put.induct) (simp_all add: insert_commute)

lemma bt_ok_Nil [simp]: "bt_ok []"
  by (simp add: bt_ok_def)

lemma bt_ok_Cons: "bt_ok ((k, v) # m) \<longleftrightarrow> bt_ok m \<and> (\<forall>k' \<in> fst ` set m. k < k')"
  by (auto simp: bt_ok_def)

lemma bt_ok_put [simp]: "bt_ok m \<Longrightarrow> bt_ok (bt_put k v m)"
proof (induction m)
  case (Cons p m)
  obtain k' v' where p: "p = (k', v')" by force
  with Cons show ?case by (auto simp: bt_ok_Cons)
qed (simp add: bt_ok_def)

lemma map_of_bt_put: "bt_ok m \<Longrightarrow> map_of (bt_put k v m) = (map_of m)(k \<mapsto> v)"
proof (induction m)
  case (Cons p m)
  obtain k' v' where p: "p = (k', v')" by force
  with Cons show ?case by (auto simp: bt_ok_Cons fun_eq_iff)
qed (simp add: fun_eq_iff)

lemma bt_ok_remove [simp]: "bt_ok m \<Longrightarrow> bt_ok (bt_remove k m)"
  by (induction m) (auto simp: bt_ok_Cons bt_remove_def)

lemma map_of_bt_remove: "map_of (bt_remove k m) = (map_of m)(k := None)"
  by (induction m) (auto simp: bt_remove_def fun_eq_iff)

lemma bt_ok_distinct: "bt_ok m \<Longrightarrow> distinct (map fst m)"
  by (auto simp: bt_ok_def strict_sorted_iff)

lemma bt_ok_map_of: "bt_ok m \<Longrightarrow> map_of m k = Some v \<longleftrightarrow> (k, v) \<in> set m"
  by (simp add: bt_ok_distinct)

lemma bt_get_put: "bt_ok m \<Longrightarrow> bt_get d (bt_put k v m) k' = (if k' = k then v else bt_get d m k')"
  by (simp add: bt_get_def map_of_bt_put)

lemma bt_get_remove: "bt_get d (bt_remove k m) k' = (if k' = k then d else bt_get d m k')"
  by (simp add: bt_get_def map_of_bt_remove)

lemma bt_ok_entry [simp]: "bt_ok m \<Longrightarrow> bt_ok (bt_entry k d f m)"
  by (simp add: bt_entry_def)

lemma fst_bt_entry [simp]: "fst ` set (bt_entry k d f m) = insert k (fst ` set m)"
  by (simp add: bt_entry_def)

lemma bt_get_entry: "bt_ok m \<Longrightarrow> bt_get d (bt_entry k d f m) k' = (if k' = k then f (bt_get d m k) else bt_get d m k')"
  by (simp add: bt_entry_def bt_get_put)

lemma bt_get_Some: "map_of m k = Some v \<Longrightarrow> bt_get d m k = v"
  by (simp add: bt_get_def)

lemma set_bs_insert [simp]: "set (bs_insert x xs) = insert x (set xs)"
  by (auto simp: bs_insert_def set_insort_key)

lemma sorted_bs_insert: "sorted_wrt (<) xs \<Longrightarrow> sorted_wrt (<) (bs_insert x xs)"
  by (auto simp: bs_insert_def strict_sorted_iff sorted_insort distinct_insort)

end
