(* ===== verification/Addrbook_Sweep.thy ===== *)
theory Addrbook_Sweep
  imports Addrbook_Book Rust_BTree
begin

text \<open>
  The boundary sweep of the address-book builder (\<open>sweep\<close> in \<open>src/addrbook/builder.rs\<close>): it turns
  overlapping categorized ranges into disjoint segments. Counters are unbounded integers: they
  never exceed the number of ranges. The main lemma says that the segments are sorted and disjoint
  and that an address lies in a segment marked with a category exactly when a range of that
  category contains it.
\<close>

section \<open>The sweep\<close>

type_synonym raw_range = "u128 \<times> u128 \<times> u32"
type_synonym boundary = "bool \<times> u128"
type_synonym segment = "u128 \<times> u128 \<times> u64 list"

definition end_excl :: "u128 \<Rightarrow> boundary" where
  "end_excl e = (if e = - 1 then (True, 0) else (False, e + 1))"

definition add_events :: "raw_range \<Rightarrow> (boundary \<times> (u32 \<times> int) list) list \<Rightarrow> (boundary \<times> (u32 \<times> int) list) list" where
  "add_events r events =
     (case r of (s, e, cat) \<Rightarrow>
        bt_entry (end_excl e) [] (\<lambda>ds. ds @ [(cat, - 1)]) (bt_entry (False, s) [] (\<lambda>ds. ds @ [(cat, 1)]) events))"

definition sweep_events :: "raw_range list \<Rightarrow> (boundary \<times> (u32 \<times> int) list) list" where
  "sweep_events ranges = fold add_events ranges []"

definition apply_delta :: "u32 \<times> int \<Rightarrow> (u32 \<times> int) list \<Rightarrow> (u32 \<times> int) list" where
  "apply_delta d active =
     (case d of (cat, delta) \<Rightarrow>
        let counter = bt_get 0 active cat + delta
        in if counter \<le> 0 then bt_remove cat active else bt_put cat counter active)"

definition mask_of_ids :: "nat \<Rightarrow> u32 list \<Rightarrow> u64 list" where
  "mask_of_ids words ids = fold (\<lambda>i m. set_mask_bit m i) ids (replicate words 0)"

definition push_segment :: "segment \<Rightarrow> segment list \<Rightarrow> segment list" where
  "push_segment seg out =
     (case seg of (pos, seg_end, m) \<Rightarrow>
        if out \<noteq> [] \<and> snd (snd (last out)) = m \<and> fst (snd (last out)) \<noteq> - 1 \<and> fst (snd (last out)) + 1 = pos
        then butlast out @ [(fst (last out), seg_end, m)]
        else out @ [seg])"

definition sweep_step ::
  "nat \<Rightarrow> boundary \<times> (u32 \<times> int) list \<Rightarrow> (u32 \<times> int) list \<times> segment list \<times> boundary option \<Rightarrow>
     (u32 \<times> int) list \<times> segment list \<times> boundary option" where
  "sweep_step words event st =
     (case event of (boundary, deltas) \<Rightarrow> case st of (active, out, prev) \<Rightarrow>
        let out = (case prev of
            Some (prev_inf, prev_pos) \<Rightarrow>
              if active \<noteq> [] \<and> \<not> prev_inf then
                let seg_end = (if fst boundary then - 1 else snd boundary - 1)
                in push_segment (prev_pos, seg_end, mask_of_ids words (map fst active)) out
              else out
          | None \<Rightarrow> out)
        in (fold apply_delta deltas active, out, Some boundary))"

definition sweep :: "raw_range list \<Rightarrow> nat \<Rightarrow> segment list" where
  "sweep ranges words = fst (snd (fold (sweep_step words) (sweep_events ranges) ([], [], None)))"

section \<open>Events\<close>

abbreviation r_start :: "raw_range \<Rightarrow> boundary" where "r_start r \<equiv> (False, fst r)"
abbreviation r_stop :: "raw_range \<Rightarrow> boundary" where "r_stop r \<equiv> end_excl (fst (snd r))"
abbreviation r_cat :: "raw_range \<Rightarrow> u32" where "r_cat r \<equiv> snd (snd r)"

definition range_ok :: "raw_range \<Rightarrow> bool" where
  "range_ok r \<longleftrightarrow> fst r \<le> fst (snd r)"

definition in_range :: "u128 \<Rightarrow> raw_range \<Rightarrow> bool" where
  "in_range x r \<longleftrightarrow> fst r \<le> x \<and> x \<le> fst (snd r)"

lemma less_succ_iff:
  fixes x e :: u128
  assumes "e \<noteq> - 1"
  shows "x < e + 1 \<longleftrightarrow> x \<le> e"
proof -
  have "unat e \<noteq> unat (- 1 :: u128)" using assms by (simp only: word_unat_eq_iff [symmetric] not_False_eq_True)
  moreover have "unat (- 1 :: u128) = 2 ^ 128 - 1" by (simp add: unsigned_minus_1_eq_mask mask_eq_exp_minus_1)
  moreover have "unat e < 2 ^ 128" using unsigned_less [where ?'a = nat, of e] by simp
  ultimately have "unat e + 1 < 2 ^ 128" by linarith
  then have "unat (e + 1) = unat e + 1" by (simp add: unat_word_ariths)
  then show ?thesis by (simp add: word_less_nat_alt word_le_nat_alt less_Suc_eq_le)
qed

lemma before_end: "(False, x) < end_excl e \<longleftrightarrow> x \<le> e"
proof (cases "e = - 1")
  case True
  then show ?thesis by (simp add: end_excl_def)
next
  case False
  then show ?thesis by (simp add: end_excl_def less_succ_iff)
qed

lemma start_before_stop: "range_ok r \<Longrightarrow> r_start r < r_stop r"
  by (simp add: before_end range_ok_def)

lemma in_range_bounds: "in_range x r \<longleftrightarrow> r_start r \<le> (False, x) \<and> (False, x) < r_stop r"
  by (simp add: in_range_def before_end)

definition deltas_at :: "boundary \<Rightarrow> raw_range \<Rightarrow> (u32 \<times> int) list" where
  "deltas_at b r = (if r_start r = b then [(r_cat r, 1)] else []) @ (if r_stop r = b then [(r_cat r, - 1)] else [])"

lemma add_events_ok: "bt_ok m \<Longrightarrow> bt_ok (add_events r m)"
  by (simp add: add_events_def split: prod.split)

lemma add_events_get: "bt_ok m \<Longrightarrow> bt_get [] (add_events r m) b = bt_get [] m b @ deltas_at b r"
  by (auto simp: add_events_def deltas_at_def bt_get_entry split: prod.split)

lemma add_events_keys: "fst ` set (add_events r m) = fst ` set m \<union> {r_start r, r_stop r}"
  by (cases r) (simp add: add_events_def insert_commute)

lemma fold_add_events:
  "bt_ok m \<Longrightarrow> bt_ok (fold add_events rs m) \<and>
     (\<forall>b. bt_get [] (fold add_events rs m) b = bt_get [] m b @ concat (map (deltas_at b) rs)) \<and>
     fst ` set (fold add_events rs m) = fst ` set m \<union> r_start ` set rs \<union> r_stop ` set rs"
  by (induction rs arbitrary: m) (auto simp: add_events_ok add_events_get add_events_keys)

lemma sweep_events_ok: "bt_ok (sweep_events rs)"
  and sweep_events_keys: "fst ` set (sweep_events rs) = r_start ` set rs \<union> r_stop ` set rs"
  using fold_add_events [of "[]" rs] by (simp_all add: sweep_events_def)

lemma sweep_events_deltas: "(b, ds) \<in> set (sweep_events rs) \<Longrightarrow> ds = concat (map (deltas_at b) rs)"
proof -
  assume "(b, ds) \<in> set (sweep_events rs)"
  then have "map_of (sweep_events rs) b = Some ds" by (simp only: bt_ok_map_of [OF sweep_events_ok])
  then have "bt_get [] (sweep_events rs) b = ds" by (rule bt_get_Some)
  moreover have "bt_get [] (sweep_events rs) b = bt_get [] [] b @ concat (map (deltas_at b) rs)"
    using fold_add_events [OF bt_ok_Nil, of rs] unfolding sweep_events_def by blast
  ultimately show ?thesis by (simp add: bt_get_def)
qed

section \<open>Counters\<close>

text \<open>The ranges of a category that are open once the boundaries in \<open>P\<close> are processed.\<close>

definition live :: "raw_range list \<Rightarrow> boundary set \<Rightarrow> u32 \<Rightarrow> int" where
  "live rs P cat = sum_list (map (\<lambda>r. of_bool (r_cat r = cat \<and> r_start r \<in> P \<and> r_stop r \<notin> P)) rs)"

definition counts_ok :: "(u32 \<times> int) list \<Rightarrow> bool" where
  "counts_ok active \<longleftrightarrow> bt_ok active \<and> (\<forall>(c, n) \<in> set active. 0 < n)"

definition delta_sum :: "(u32 \<times> int) list \<Rightarrow> u32 \<Rightarrow> int" where
  "delta_sum ds c = sum_list (map (\<lambda>(c', d). if c' = c then d else 0) ds)"

definition delta_neg :: "(u32 \<times> int) list \<Rightarrow> u32 \<Rightarrow> int" where
  "delta_neg ds c = sum_list (map (\<lambda>(c', d). if c' = c \<and> d < 0 then 1 else 0) ds)"

lemma delta_neg_nonneg: "0 \<le> delta_neg ds c"
  unfolding delta_neg_def by (rule sum_list_nonneg) (auto split: if_splits)

lemma apply_delta_ok:
  assumes "counts_ok active"
  shows "counts_ok (apply_delta (c, d) active)"
    and "0 \<le> bt_get 0 active c + d \<Longrightarrow>
      bt_get 0 (apply_delta (c, d) active) c' = bt_get 0 active c' + (if c' = c then d else 0)"
proof -
  have ok: "bt_ok active" using assms by (simp add: counts_ok_def)
  have pos: "\<forall>(k, n) \<in> set active. 0 < n" using assms by (simp add: counts_ok_def)
  then have put: "\<forall>(k, n) \<in> set (bt_put c n' active). 0 < n" if "0 < n'" for n'
    using that by (induction c n' active rule: bt_put.induct) auto
  have remove: "\<forall>(k, n) \<in> set (bt_remove c active). 0 < n" using pos by (auto simp: bt_remove_def)
  show "counts_ok (apply_delta (c, d) active)"
    using ok put [of "bt_get 0 active c + d"] remove by (simp add: apply_delta_def counts_ok_def Let_def)
  show "0 \<le> bt_get 0 active c + d \<Longrightarrow>
      bt_get 0 (apply_delta (c, d) active) c' = bt_get 0 active c' + (if c' = c then d else 0)"
    using ok by (auto simp: apply_delta_def Let_def bt_get_put bt_get_remove)
qed

lemma fold_apply_delta:
  assumes "counts_ok active" and "\<forall>(c, d) \<in> set ds. d = 1 \<or> d = - 1"
    and "\<forall>c. delta_neg ds c \<le> bt_get 0 active c"
  shows "counts_ok (fold apply_delta ds active) \<and>
    (\<forall>c. bt_get 0 (fold apply_delta ds active) c = bt_get 0 active c + delta_sum ds c)"
  using assms
proof (induction ds arbitrary: active)
  case (Cons p ds)
  obtain c d where p: "p = (c, d)" by force
  have d: "d = 1 \<or> d = - 1" using Cons.prems(2) p by auto
  have neg: "delta_neg (p # ds) c' = (if c' = c \<and> d < 0 then 1 else 0) + delta_neg ds c'" for c'
    by (simp add: delta_neg_def p)
  have room: "0 \<le> bt_get 0 active c + d"
    using d Cons.prems(3) [THEN spec, of c] neg [of c] delta_neg_nonneg [of ds c] by auto
  note step = apply_delta_ok [OF Cons.prems(1), of c d]
  have "delta_neg ds c' \<le> bt_get 0 (apply_delta p active) c'" for c'
    using Cons.prems(3) [THEN spec, of c'] neg [of c'] step(2) [OF room, of c'] d by (auto simp: p)
  then have "counts_ok (fold apply_delta ds (apply_delta p active)) \<and>
      (\<forall>c. bt_get 0 (fold apply_delta ds (apply_delta p active)) c = bt_get 0 (apply_delta p active) c + delta_sum ds c)"
    using Cons.prems(2) step(1) by (intro Cons.IH) (auto simp: p)
  then show ?case using step(2) [OF room] by (auto simp: p delta_sum_def)
qed (simp add: delta_sum_def)

definition rest_after :: "raw_range list \<Rightarrow> boundary set \<Rightarrow> boundary \<Rightarrow> bool" where
  "rest_after rs P b \<longleftrightarrow> (\<forall>k \<in> P. k < b) \<and> (\<forall>k \<in> r_start ` set rs \<union> r_stop ` set rs. k \<in> P \<or> b \<le> k)"

lemma range_step:
  assumes "rest_after rs P b" and "r \<in> set rs" and "range_ok r"
  shows "of_bool (r_start r \<in> insert b P \<and> r_stop r \<notin> insert b P) =
      of_bool (r_start r \<in> P \<and> r_stop r \<notin> P) + of_bool (r_start r = b) - (of_bool (r_stop r = b) :: int)"
    and "r_stop r = b \<Longrightarrow> r_start r \<in> P \<and> r_stop r \<notin> P"
proof -
  have less: "r_start r < r_stop r" by (rule start_before_stop [OF assms(3)])
  have P: "k \<in> P \<Longrightarrow> k < b" for k using assms(1) by (auto simp: rest_after_def)
  have start: "r_start r \<in> P \<or> b \<le> r_start r" using assms(1,2) by (auto simp: rest_after_def)
  have stop: "r_start r = b \<Longrightarrow> r_stop r \<notin> P" using P [of "r_stop r"] less by auto
  show at_stop: "r_stop r = b \<Longrightarrow> r_start r \<in> P \<and> r_stop r \<notin> P"
    using start less P [of "r_stop r"] by auto
  have new: "b \<notin> P" using P [of b] by auto
  show "of_bool (r_start r \<in> insert b P \<and> r_stop r \<notin> insert b P) =
      of_bool (r_start r \<in> P \<and> r_stop r \<notin> P) + of_bool (r_start r = b) - (of_bool (r_stop r = b) :: int)"
    using stop at_stop new less by (cases "r_start r = b"; cases "r_stop r = b"; simp)
qed

lemma deltas_at_sum:
  "delta_sum (deltas_at b r) c = of_bool (r_cat r = c) * (of_bool (r_start r = b) - of_bool (r_stop r = b))"
  "delta_neg (deltas_at b r) c = of_bool (r_cat r = c \<and> r_stop r = b)"
  by (simp_all add: deltas_at_def delta_sum_def delta_neg_def)

lemma delta_concat:
  "delta_sum (concat (map f xs)) c = sum_list (map (\<lambda>x. delta_sum (f x) c) xs)"
  "delta_neg (concat (map f xs)) c = sum_list (map (\<lambda>x. delta_neg (f x) c) xs)"
  by (induction xs) (simp_all add: delta_sum_def delta_neg_def)

lemma live_step:
  assumes after: "rest_after rs P b" and ok: "\<forall>r \<in> set rs. range_ok r"
  shows "live rs (insert b P) c = live rs P c + delta_sum (concat (map (deltas_at b) rs)) c"
    and "delta_neg (concat (map (deltas_at b) rs)) c \<le> live rs P c"
proof -
  have one: "of_bool (r_cat r = c \<and> r_start r \<in> insert b P \<and> r_stop r \<notin> insert b P) =
      of_bool (r_cat r = c \<and> r_start r \<in> P \<and> r_stop r \<notin> P) + delta_sum (deltas_at b r) c" if "r \<in> set rs" for r
    using range_step(1) [OF after that] ok that unfolding deltas_at_sum by (cases "r_cat r = c") simp_all
  have "live rs (insert b P) c =
      sum_list (map (\<lambda>r. of_bool (r_cat r = c \<and> r_start r \<in> P \<and> r_stop r \<notin> P) + delta_sum (deltas_at b r) c) rs)"
    unfolding live_def by (rule arg_cong [of _ _ sum_list], rule map_cong [OF refl], rule one)
  then show "live rs (insert b P) c = live rs P c + delta_sum (concat (map (deltas_at b) rs)) c"
    by (simp add: live_def delta_concat sum_list_addf)
  show "delta_neg (concat (map (deltas_at b) rs)) c \<le> live rs P c"
    unfolding delta_concat live_def deltas_at_sum
    by (rule sum_list_mono) (use range_step(2) [OF after] ok in \<open>auto simp: of_bool_def\<close>)
qed

section \<open>Segments\<close>

definition covers_with :: "segment list \<Rightarrow> u128 \<Rightarrow> u64 list \<Rightarrow> bool" where
  "covers_with out x m \<longleftrightarrow> (\<exists>s e. (s, e, m) \<in> set out \<and> s \<le> x \<and> x \<le> e)"

definition segs_ok :: "nat \<Rightarrow> segment list \<Rightarrow> bool" where
  "segs_ok words out \<longleftrightarrow> sorted_wrt (\<lambda>(_, e, _) (s, _, _). e < s) out \<and>
     (\<forall>(s, e, m) \<in> set out. s \<le> e \<and> length m = words)"

lemma push_segment_ok:
  assumes out: "segs_ok words out" and seg: "pos \<le> seg_end" "length m = words"
    and after: "\<forall>(s, e, m) \<in> set out. e < pos"
  shows "segs_ok words (push_segment (pos, seg_end, m) out) \<and>
    (\<forall>x m'. covers_with (push_segment (pos, seg_end, m) out) x m' \<longleftrightarrow>
       covers_with out x m' \<or> m' = m \<and> pos \<le> x \<and> x \<le> seg_end) \<and>
    (\<forall>(s, e, m') \<in> set (push_segment (pos, seg_end, m) out). e \<le> seg_end)"
proof (cases "out \<noteq> [] \<and> snd (snd (last out)) = m \<and> fst (snd (last out)) \<noteq> - 1 \<and> fst (snd (last out)) + 1 = pos")
  case False
  then have "push_segment (pos, seg_end, m) out = out @ [(pos, seg_end, m)]" by (auto simp: push_segment_def)
  then show ?thesis
    using out seg after by (fastforce simp: segs_ok_def covers_with_def sorted_wrt_append)
next
  case True
  define before s e where "before = butlast out" and "s = fst (last out)" and "e = fst (snd (last out))"
  have e: "e \<noteq> - 1" "e + 1 = pos" using True by (simp_all add: e_def)
  have split: "out = before @ [(s, e, m)]"
    using True by (metis before_def s_def e_def append_butlast_last_id prod.collapse)
  have push: "push_segment (pos, seg_end, m) out = before @ [(s, seg_end, m)]"
    using True by (simp add: push_segment_def before_def s_def)
  have se: "s \<le> e" "e < pos" using out after by (auto simp: split segs_ok_def)
  have glue: "s \<le> x \<and> x \<le> seg_end \<longleftrightarrow> s \<le> x \<and> x \<le> e \<or> pos \<le> x \<and> x \<le> seg_end" for x
    using less_succ_iff [OF e(1), of x] se seg(1) unfolding e(2) by auto
  have "s \<le> seg_end" using se seg(1) by auto
  then have "segs_ok words (before @ [(s, seg_end, m)])" "\<forall>(s', e', m') \<in> set (before @ [(s, seg_end, m)]). e' \<le> seg_end"
    using out seg after by (fastforce simp: split segs_ok_def sorted_wrt_append)+
  moreover have "covers_with (before @ [(s, seg_end, m)]) x m' \<longleftrightarrow>
      covers_with out x m' \<or> m' = m \<and> pos \<le> x \<and> x \<le> seg_end" for x m'
    using glue [of x] unfolding split covers_with_def by auto
  ultimately show ?thesis unfolding push by blast
qed

lemma length_mask_of_ids [simp]: "length (mask_of_ids words ids) = words"
proof -
  have "length (fold (\<lambda>i m. set_mask_bit m i) ids m) = length m" for m by (induction ids arbitrary: m) simp_all
  then show ?thesis by (simp add: mask_of_ids_def)
qed

lemma mask_of_ids_mem: "mask_mem (mask_of_ids words ids) i \<longleftrightarrow> i div 64 < words \<and> i \<in> unat ` set ids"
proof -
  have "fold (\<lambda>i m. set_mask_bit m i) ids m = fold (\<lambda>i m. set_mask_bit m (word_of_nat i)) (map unat ids) m" for m
    by (simp add: fold_map comp_def)
  moreover have "\<forall>j \<in> set (map unat ids). j < 2 ^ 32" using unsigned_less [where ?'a = nat and ?'b = 32] by auto
  ultimately have "mask_mem (mask_of_ids words ids) i \<longleftrightarrow>
      mask_mem (replicate words 0) i \<or> i \<in> set (map unat ids) \<and> i div 64 < length (replicate words (0 :: u64))"
    unfolding mask_of_ids_def by (simp only: fold_set_mask_bit)
  then show ?thesis by (auto simp: mask_mem_def)
qed

section \<open>The loop\<close>

definition sweep_inv ::
  "raw_range list \<Rightarrow> nat \<Rightarrow> boundary set \<Rightarrow> (u32 \<times> int) list \<times> segment list \<times> boundary option \<Rightarrow> bool" where
  "sweep_inv rs words P st =
     (case st of (active, out, prev) \<Rightarrow>
        counts_ok active \<and> (\<forall>c. bt_get 0 active c = live rs P c) \<and> segs_ok words out \<and>
        (case prev of None \<Rightarrow> P = {} | Some b \<Rightarrow> b \<in> P \<and> (\<forall>k \<in> P. k \<le> b)) \<and>
        (\<forall>(s, e, m) \<in> set out. \<exists>k \<in> P. (False, e) < k) \<and>
        (\<forall>x i. (\<exists>m. covers_with out x m \<and> mask_mem m i) \<longleftrightarrow>
          (\<exists>k \<in> P. (False, x) < k) \<and> i div 64 < words \<and> (\<exists>r \<in> set rs. in_range x r \<and> unat (r_cat r) = i)))"

lemma open_ranges:
  assumes "rest_after rs P b" and "(False, x) < b" and "\<forall>k \<in> P. k \<le> (False, x)" and "r \<in> set rs"
  shows "in_range x r \<longleftrightarrow> r_start r \<in> P \<and> r_stop r \<notin> P"
proof -
  have "r_start r \<in> P \<or> b \<le> r_start r" "r_stop r \<in> P \<or> b \<le> r_stop r" using assms(1,4) by (auto simp: rest_after_def)
  then show ?thesis
    using assms(2,3) unfolding in_range_bounds by (meson leD le_less_trans less_le_trans not_le)
qed

lemma active_live:
  assumes "counts_ok active" and "\<forall>c. bt_get 0 active c = live rs P c"
  shows "c \<in> fst ` set active \<longleftrightarrow> (\<exists>r \<in> set rs. r_cat r = c \<and> r_start r \<in> P \<and> r_stop r \<notin> P)"
proof -
  have ok: "bt_ok active" using assms(1) by (simp add: counts_ok_def)
  have "c \<in> fst ` set active \<longleftrightarrow> 0 < bt_get 0 active c"
  proof (cases "map_of active c")
    case None
    then have "c \<notin> fst ` set active" by (simp only: map_of_eq_None_iff not_False_eq_True)
    then show ?thesis using None by (simp add: bt_get_def)
  next
    case (Some n)
    then have "(c, n) \<in> set active" by (simp only: bt_ok_map_of [OF ok])
    then show ?thesis using Some assms(1) by (force simp: bt_get_def counts_ok_def)
  qed
  also have "\<dots> \<longleftrightarrow> 0 < live rs P c" using assms(2) by simp
  also have "\<dots> \<longleftrightarrow> (\<exists>r \<in> set rs. r_cat r = c \<and> r_start r \<in> P \<and> r_stop r \<notin> P)"
  proof (induction rs)
    case (Cons r rs)
    have "0 \<le> live rs P c" unfolding live_def by (rule sum_list_nonneg) auto
    with Cons show ?case by (auto simp: live_def of_bool_def)
  qed (simp add: live_def)
  finally show ?thesis .
qed

definition sweep_out :: "nat \<Rightarrow> boundary \<Rightarrow> (u32 \<times> int) list \<Rightarrow> boundary option \<Rightarrow> segment list \<Rightarrow> segment list" where
  "sweep_out words b active prev out =
     (case prev of
        Some (prev_inf, prev_pos) \<Rightarrow>
          if active \<noteq> [] \<and> \<not> prev_inf
          then push_segment (prev_pos, if fst b then - 1 else snd b - 1, mask_of_ids words (map fst active)) out
          else out
      | None \<Rightarrow> out)"

lemma sweep_step_out:
  "sweep_step words (b, ds) (active, out, prev) = (fold apply_delta ds active, sweep_out words b active prev out, Some b)"
  by (simp add: sweep_step_def sweep_out_def Let_def split: option.split)

lemma before_boundary:
  fixes b :: boundary
  assumes "(False, pos) < b"
  shows "x \<le> (if fst b then - 1 else snd b - 1) \<longleftrightarrow> (False, x) < b"
proof (cases b)
  case (Pair inf q)
  show ?thesis
  proof (cases inf)
    case False
    then have "q \<noteq> 0" using assms Pair by auto
    then have "q - 1 \<noteq> - 1" by (metis add.left_inverse diff_add_cancel)
    from less_succ_iff [OF this, of x] show ?thesis using False Pair by simp
  qed (simp add: Pair)
qed

lemma sweep_inv_fields:
  assumes "sweep_inv rs words P (active, out, prev)"
  shows "counts_ok active" and "\<forall>c. bt_get 0 active c = live rs P c" and "segs_ok words out"
    and "case prev of None \<Rightarrow> P = {} | Some b \<Rightarrow> b \<in> P \<and> (\<forall>k \<in> P. k \<le> b)"
    and "\<forall>(s, e, m) \<in> set out. \<exists>k \<in> P. (False, e) < k"
    and "(\<exists>m. covers_with out x m \<and> mask_mem m i) \<longleftrightarrow>
      (\<exists>k \<in> P. (False, x) < k) \<and> i div 64 < words \<and> (\<exists>r \<in> set rs. in_range x r \<and> unat (r_cat r) = i)"
  using assms unfolding sweep_inv_def by blast+

lemma sweep_out_ok:
  assumes inv: "sweep_inv rs words P (active, out, prev)" and after: "rest_after rs P b"
  shows "segs_ok words (sweep_out words b active prev out)"
    and "\<forall>(s, e, m) \<in> set (sweep_out words b active prev out). \<exists>k \<in> insert b P. (False, e) < k"
    and "covers_with (sweep_out words b active prev out) x m \<longleftrightarrow> covers_with out x m \<or>
      prev \<noteq> None \<and> active \<noteq> [] \<and> m = mask_of_ids words (map fst active) \<and> (\<forall>k \<in> P. k \<le> (False, x)) \<and> (False, x) < b"
proof -
  note f = sweep_inv_fields [OF inv]
  let ?seg_end = "if fst b then - 1 else snd b - 1" and ?m = "mask_of_ids words (map fst active)"
  have "segs_ok words (sweep_out words b active prev out) \<and>
    (\<forall>(s, e, m) \<in> set (sweep_out words b active prev out). \<exists>k \<in> insert b P. (False, e) < k) \<and>
    (\<forall>x m. covers_with (sweep_out words b active prev out) x m \<longleftrightarrow> covers_with out x m \<or>
      prev \<noteq> None \<and> active \<noteq> [] \<and> m = ?m \<and> (\<forall>k \<in> P. k \<le> (False, x)) \<and> (False, x) < b)"
  proof (cases "\<exists>pos. prev = Some (False, pos) \<and> active \<noteq> []")
    case True
    then obtain pos where prev: "prev = Some (False, pos)" "active \<noteq> []" by blast
    have top: "(False, pos) \<in> P" "\<forall>k \<in> P. k \<le> (False, pos)" using f(4) prev by auto
    have pos: "(False, pos) < b" using after top(1) by (auto simp: rest_after_def)
    note below = before_boundary [OF pos]
    have "e < pos" if "(s, e, m) \<in> set out" for s e m
    proof -
      obtain k where "k \<in> P" "(False, e) < k" using f(5) \<open>(s, e, m) \<in> set out\<close> by blast
      then have "(False, e) < (False, pos)" using top(2) by (meson less_le_trans)
      then show ?thesis by simp
    qed
    then have push: "segs_ok words (push_segment (pos, ?seg_end, ?m) out) \<and>
      (\<forall>x m'. covers_with (push_segment (pos, ?seg_end, ?m) out) x m' \<longleftrightarrow>
         covers_with out x m' \<or> m' = ?m \<and> pos \<le> x \<and> x \<le> ?seg_end) \<and>
      (\<forall>(s, e, m') \<in> set (push_segment (pos, ?seg_end, ?m) out). e \<le> ?seg_end)"
      using below [of pos] pos by (intro push_segment_ok [OF f(3)]) auto
    have "(\<forall>k \<in> P. k \<le> (False, x)) \<longleftrightarrow> pos \<le> x" for x using top by (force intro: order_trans)
    moreover have "sweep_out words b active prev out = push_segment (pos, ?seg_end, ?m) out"
      using prev by (simp add: sweep_out_def)
    ultimately show ?thesis using push prev below by (auto simp del: fst_conv snd_conv)
  next
    case False
    then have out: "sweep_out words b active prev out = out"
      by (auto simp: sweep_out_def split: option.split)
    have "\<not> (\<forall>k \<in> P. k \<le> (False, x))" if some: "prev \<noteq> None" "active \<noteq> []" for x
    proof -
      obtain pos where "prev = Some (True, pos)" using some False by (metis (full_types) not_Some_eq surj_pair)
      then have "(True, pos) \<in> P" using f(4) by simp
      then show ?thesis by force
    qed
    then show ?thesis unfolding out using f(3,5) by blast
  qed
  then show "segs_ok words (sweep_out words b active prev out)"
    and "\<forall>(s, e, m) \<in> set (sweep_out words b active prev out). \<exists>k \<in> insert b P. (False, e) < k"
    and "covers_with (sweep_out words b active prev out) x m \<longleftrightarrow> covers_with out x m \<or>
      prev \<noteq> None \<and> active \<noteq> [] \<and> m = ?m \<and> (\<forall>k \<in> P. k \<le> (False, x)) \<and> (False, x) < b"
    by blast+
qed

lemma sweep_step_ok:
  assumes inv: "sweep_inv rs words P (active, out, prev)" and after: "rest_after rs P b"
    and ok: "\<forall>r \<in> set rs. range_ok r"
  shows "sweep_inv rs words (insert b P) (sweep_step words (b, concat (map (deltas_at b) rs)) (active, out, prev))"
proof -
  note f = sweep_inv_fields [OF inv] and o = sweep_out_ok [OF inv after]
  let ?ds = "concat (map (deltas_at b) rs)" and ?out = "sweep_out words b active prev out"
  have "counts_ok (fold apply_delta ?ds active) \<and>
      (\<forall>c. bt_get 0 (fold apply_delta ?ds active) c = bt_get 0 active c + delta_sum ?ds c)"
    by (rule fold_apply_delta [OF f(1)]) (use live_step(2) [OF after ok] f(2) in \<open>auto simp: deltas_at_def\<close>)
  then have counts: "counts_ok (fold apply_delta ?ds active)"
      "\<forall>c. bt_get 0 (fold apply_delta ?ds active) c = live rs (insert b P) c"
    using live_step(1) [OF after ok] f(2) by simp_all
  have less_b: "\<And>k. k \<in> P \<Longrightarrow> k < b" using after by (simp add: rest_after_def)
  then have last: "\<forall>k \<in> insert b P. k \<le> b" by (simp add: less_imp_le)
  have new: "prev \<noteq> None \<and> active \<noteq> [] \<and> mask_mem (mask_of_ids words (map fst active)) i \<longleftrightarrow>
      i div 64 < words \<and> (\<exists>r \<in> set rs. in_range x r \<and> unat (r_cat r) = i)"
    if x: "\<forall>k \<in> P. k \<le> (False, x)" "(False, x) < b" for x i
  proof -
    have act: "c \<in> fst ` set active \<longleftrightarrow> (\<exists>r \<in> set rs. r_cat r = c \<and> in_range x r)" for c
      using active_live [OF f(1,2), of c] open_ranges [OF after x(2,1)] by blast
    have "active \<noteq> [] \<and> prev \<noteq> None" if r: "r \<in> set rs" "in_range x r" for r
    proof -
      have "r_start r \<in> P" using open_ranges [OF after x(2,1) r(1)] r(2) by blast
      moreover have "r_cat r \<in> fst ` set active" using act r by blast
      ultimately show ?thesis using f(4) by (cases prev) auto
    qed
    moreover have "i \<in> unat ` fst ` set active \<longleftrightarrow> (\<exists>r \<in> set rs. in_range x r \<and> unat (r_cat r) = i)"
    proof
      assume "i \<in> unat ` fst ` set active"
      then obtain c where "c \<in> fst ` set active" "i = unat c" by (rule imageE)
      then show "\<exists>r \<in> set rs. in_range x r \<and> unat (r_cat r) = i" using act [of c] by auto
    next
      assume "\<exists>r \<in> set rs. in_range x r \<and> unat (r_cat r) = i"
      then obtain r where "r \<in> set rs" "in_range x r" "unat (r_cat r) = i" by (elim bexE conjE)
      then have "r_cat r \<in> fst ` set active" using act [of "r_cat r"] by metis
      then show "i \<in> unat ` fst ` set active" using \<open>unat (r_cat r) = i\<close> by (metis imageI)
    qed
    ultimately show ?thesis unfolding mask_of_ids_mem set_map by blast
  qed
  have "(\<exists>m. covers_with ?out x m \<and> mask_mem m i) \<longleftrightarrow>
      (\<exists>k \<in> insert b P. (False, x) < k) \<and> i div 64 < words \<and> (\<exists>r \<in> set rs. in_range x r \<and> unat (r_cat r) = i)"
    (is "?L \<longleftrightarrow> ?R") for x i
  proof -
    have "?L \<longleftrightarrow> (\<exists>m. covers_with out x m \<and> mask_mem m i) \<or> (prev \<noteq> None \<and> active \<noteq> [] \<and>
        mask_mem (mask_of_ids words (map fst active)) i) \<and> (\<forall>k \<in> P. k \<le> (False, x)) \<and> (False, x) < b"
      unfolding o(3) by blast
    moreover have "(\<forall>k \<in> P. k \<le> (False, x)) \<longleftrightarrow> \<not> (\<exists>k \<in> P. (False, x) < k)" by (simp add: not_less)
    moreover have "(\<exists>k \<in> P. (False, x) < k) \<Longrightarrow> (False, x) < b" using less_b less_trans by blast
    moreover have "(\<exists>k \<in> insert b P. (False, x) < k) \<longleftrightarrow> (False, x) < b \<or> (\<exists>k \<in> P. (False, x) < k)" by simp
    ultimately show ?thesis using f(6) [of x i] new [of x i] by argo
  qed
  then show ?thesis
    unfolding sweep_step_out sweep_inv_def using counts o(1,2) last by simp
qed

lemma sweep_prefix:
  assumes ok: "\<forall>r \<in> set rs. range_ok r"
  shows "sweep_events rs = pre @ suf \<Longrightarrow>
    sweep_inv rs words (fst ` set pre) (fold (sweep_step words) pre ([], [], None))"
proof (induction pre arbitrary: suf rule: rev_induct)
  case Nil
  have "live rs {} c = 0" for c unfolding live_def by (induction rs) simp_all
  then show ?case by (simp add: sweep_inv_def counts_ok_def bt_get_def segs_ok_def covers_with_def)
next
  case (snoc ev pre)
  obtain b ds where ev: "ev = (b, ds)" by (cases ev)
  have split: "sweep_events rs = pre @ (b, ds) # suf" using snoc.prems ev by simp
  have ds: "ds = concat (map (deltas_at b) rs)" by (rule sweep_events_deltas) (simp add: split)
  have "sorted_wrt (<) (map fst (pre @ (b, ds) # suf))" using sweep_events_ok [of rs] unfolding split bt_ok_def .
  then have order: "\<forall>k \<in> fst ` set pre. k < b" "\<forall>k \<in> fst ` set suf. b < k" by (auto simp: sorted_wrt_append)
  have keys: "r_start ` set rs \<union> r_stop ` set rs = insert b (fst ` set pre \<union> fst ` set suf)"
    unfolding sweep_events_keys [of rs, symmetric] split by auto
  have after: "rest_after rs (fst ` set pre) b"
    unfolding rest_after_def keys using order by (blast intro: less_imp_le)
  obtain active out prev where st: "fold (sweep_step words) pre ([], [], None) = (active, out, prev)"
    using prod_cases3 by blast
  have "sweep_inv rs words (fst ` set pre) (active, out, prev)"
    using snoc.IH [OF split] unfolding st .
  from sweep_step_ok [OF this after ok] show ?case by (simp add: st ev ds)
qed

text \<open>
  The result of a sweep: sorted disjoint segments, and an address lies in a segment whose mask
  has bit \<open>i\<close> exactly when a range of category \<open>i\<close> contains it.
\<close>

lemma sweep_correct:
  assumes ok: "\<forall>r \<in> set rs. range_ok r"
  shows "segs_ok words (sweep rs words)"
    and "(\<exists>m. covers_with (sweep rs words) x m \<and> mask_mem m i) \<longleftrightarrow>
      i div 64 < words \<and> (\<exists>r \<in> set rs. in_range x r \<and> unat (r_cat r) = i)"
proof -
  let ?K = "r_start ` set rs \<union> r_stop ` set rs"
  obtain active out prev where st: "fold (sweep_step words) (sweep_events rs) ([], [], None) = (active, out, prev)"
    using prod_cases3 by blast
  have out: "sweep rs words = out" by (simp add: sweep_def st)
  have inv: "sweep_inv rs words ?K (active, out, prev)"
    using sweep_prefix [OF ok, of "sweep_events rs" "[]" words] unfolding st sweep_events_keys by simp
  show "segs_ok words (sweep rs words)" using sweep_inv_fields(3) [OF inv] out by simp
  have reach: "\<exists>k \<in> ?K. (False, x) < k" if r: "r \<in> set rs" "in_range x r" for r
  proof (rule bexI [of _ "r_stop r"])
    show "(False, x) < r_stop r" using r(2) by (simp only: in_range_bounds)
    show "r_stop r \<in> ?K" using r(1) by (intro UnI2 imageI)
  qed
  show "(\<exists>m. covers_with (sweep rs words) x m \<and> mask_mem m i) \<longleftrightarrow>
      i div 64 < words \<and> (\<exists>r \<in> set rs. in_range x r \<and> unat (r_cat r) = i)" (is "?L \<longleftrightarrow> _ \<and> ?R")
  proof -
    have "?L \<longleftrightarrow> (\<exists>k \<in> ?K. (False, x) < k) \<and> i div 64 < words \<and> ?R"
      unfolding out by (rule sweep_inv_fields(6) [OF inv])
    moreover have "?R \<Longrightarrow> \<exists>k \<in> ?K. (False, x) < k" using reach by (elim bexE conjE)
    ultimately show ?thesis by argo
  qed
qed

text \<open>A segment that carries a category does not reach past the last range.\<close>

lemma sweep_bounded:
  assumes ok: "\<forall>r \<in> set rs. range_ok r" and small: "\<forall>r \<in> set rs. fst (snd r) \<le> top_end"
    and seg: "(s, e, m) \<in> set (sweep rs words)"
    and used: "\<exists>i. mask_mem m i"
  shows "e \<le> top_end"
proof -
  have "s \<le> e" using sweep_correct(1) [OF ok, of words] seg by (auto simp: segs_ok_def)
  then have "covers_with (sweep rs words) e m" using seg by (auto simp: covers_with_def)
  then obtain r where "r \<in> set rs" "in_range e r" using used sweep_correct(2) [OF ok] by blast
  then show ?thesis using small by (auto simp: in_range_def)
qed

end
