(* ===== verification/Addrbook_Builder.thy ===== *)
theory Addrbook_Builder
  imports Addrbook_Sweep Policy_Domain Policy_Ip
begin

text \<open>
  The address-book builder (\<open>src/addrbook/builder.rs\<close>): it collects categorized rules and emits a
  validated book. An operation returns its result and the builder it leaves, since a refused rule
  keeps the categories registered before the refusal. Panics are errors of their own. The network
  type of the \<open>ipnet\<close> package is a parameter, with the two bounds of a network. The main theorem
  says that the finished book answers every host with exactly the categories of the rules that
  name it.
\<close>

section \<open>Builder\<close>

record book_builder =
  bb_epoch :: u64
  bb_categories :: "string list"
  bb_ip4 :: "(u128 \<times> u128 \<times> string) list"
  bb_ip6 :: "(u128 \<times> u128 \<times> string) list"
  bb_exact :: "(string \<times> string list) list"
  bb_suffix :: "(string \<times> string list) list"
  bb_keywords :: "(string \<times> string list) list"

datatype builder_error =
  EmptyCategoryPath | EmptySegment | SegmentSyntax | EmptyRule | EmptyDomain | EmptyKeyword
| SweepOutOfRange | TooManyWords | InvalidBook format_error | UnknownCategoryPanic | CatsetCountPanic

record 'n net_bounds =
  nb_network :: "'n \<Rightarrow> ip_addr"
  nb_broadcast :: "'n \<Rightarrow> ip_addr"

definition builder_new :: "u64 \<Rightarrow> book_builder" where
  "builder_new epoch =
     \<lparr>bb_epoch = epoch, bb_categories = [], bb_ip4 = [], bb_ip6 = [], bb_exact = [], bb_suffix = [],
      bb_keywords = []\<rparr>"

definition check_segment :: "string \<Rightarrow> builder_error option" where
  "check_segment seg =
     (if seg = [] then Some EmptySegment
      else if \<not> list_all (\<lambda>ch. is_ascii_lowercase ch \<or> is_ascii_digit ch \<or> ch \<in> set ''-_.@!'') seg
      then Some SegmentSyntax else None)"

fun add_paths :: "string \<Rightarrow> string list \<Rightarrow> string list \<Rightarrow> string list" where
  "add_paths acc [] cats = cats"
| "add_paths acc (seg # segs) cats =
     (let acc = (if acc \<noteq> [] then acc @ ''/'' else acc) @ seg
      in add_paths acc segs (bs_insert acc cats))"

definition add_category :: "string \<Rightarrow> book_builder \<Rightarrow> (builder_error + string) \<times> book_builder" where
  "add_category path B =
     (let norm = normalize_category path
      in if norm = [] then (Inl EmptyCategoryPath, B)
         else case first_error check_segment (split_on (CHR ''/'') norm) of
                Some e \<Rightarrow> (Inl e, B)
              | None \<Rightarrow>
                  (Inr norm, B\<lparr>bb_categories := add_paths [] (split_on (CHR ''/'') norm) (bb_categories B)\<rparr>))"

definition add_domain_suffix :: "string \<Rightarrow> string \<Rightarrow> book_builder \<Rightarrow> (builder_error + unit) \<times> book_builder" where
  "add_domain_suffix category host B =
     and_try (add_category category B) (\<lambda>cat B.
       let name = normalize_domain host;
           name = (case strip_prefix name ''*.'' of Some r \<Rightarrow> r | None \<Rightarrow> name)
       in if name = [] then (Inl EmptyDomain, B)
          else (Inr (), B\<lparr>bb_suffix := bt_entry (reverse_labels name) [] (bs_insert cat) (bb_suffix B)\<rparr>))"

definition add_domain_exact :: "string \<Rightarrow> string \<Rightarrow> book_builder \<Rightarrow> (builder_error + unit) \<times> book_builder" where
  "add_domain_exact category host B =
     and_try (add_category category B) (\<lambda>cat B.
       let name = normalize_domain host
       in if name = [] then (Inl EmptyDomain, B)
          else (Inr (), B\<lparr>bb_exact := bt_entry name [] (bs_insert cat) (bb_exact B)\<rparr>))"

definition add_keyword :: "string \<Rightarrow> string \<Rightarrow> book_builder \<Rightarrow> (builder_error + unit) \<times> book_builder" where
  "add_keyword category fragment B =
     and_try (add_category category B) (\<lambda>cat B.
       let frag = normalize_domain fragment
       in if frag = [] then (Inl EmptyKeyword, B)
          else (Inr (), B\<lparr>bb_keywords := bt_entry frag [] (bs_insert cat) (bb_keywords B)\<rparr>))"

definition canonicalize_ip_range :: "u128 \<times> u128 \<times> bool \<Rightarrow> (u128 \<times> u128 \<times> bool) list" where
  "canonicalize_ip_range r =
     (case r of (s, e, is_v4) \<Rightarrow>
        if is_v4 \<or> e < IPV4_MAPPED_START \<or> IPV4_MAPPED_END < s then [(s, e, is_v4)]
        else (if s < IPV4_MAPPED_START then [(s, IPV4_MAPPED_START - 1, False)] else []) @
             [(max s IPV4_MAPPED_START - IPV4_MAPPED_START, min e IPV4_MAPPED_END - IPV4_MAPPED_START, True)] @
             (if IPV4_MAPPED_END < e then [(IPV4_MAPPED_END + 1, e, False)] else []))"

fun ip_number :: "ip_addr \<Rightarrow> u128" where
  "ip_number (V4 a) = ucast a"
| "ip_number (V6 a) = a"

definition parse_ip_entries :: "'n ip_net \<Rightarrow> 'n net_bounds \<Rightarrow> string \<Rightarrow> (u128 \<times> u128 \<times> bool) list option" where
  "parse_ip_entries N NB s =
     (let t = trim s
      in case inet_parse N t of
           Some net \<Rightarrow>
             Some (canonicalize_ip_range
               (ip_number (nb_network NB net), ip_number (nb_broadcast NB net), inet_is_v4 N net))
         | None \<Rightarrow> (case parse_ip_addr t of
             Some addr \<Rightarrow> Some (canonicalize_ip_range (ip_number addr, ip_number addr, case addr of V4 _ \<Rightarrow> True | V6 _ \<Rightarrow> False))
           | None \<Rightarrow> None))"

definition push_range :: "string \<Rightarrow> u128 \<times> u128 \<times> bool \<Rightarrow> book_builder \<Rightarrow> book_builder" where
  "push_range cat r B =
     (case r of (s, e, v4) \<Rightarrow>
        if v4 then B\<lparr>bb_ip4 := bb_ip4 B @ [(s, e, cat)]\<rparr> else B\<lparr>bb_ip6 := bb_ip6 B @ [(s, e, cat)]\<rparr>)"

definition add_rule ::
  "'n ip_net \<Rightarrow> 'n net_bounds \<Rightarrow> string \<Rightarrow> string \<Rightarrow> book_builder \<Rightarrow> (builder_error + unit) \<times> book_builder" where
  "add_rule N NB category rule B =
     and_try (add_category category B) (\<lambda>cat B.
       let r = trim rule
       in if r = [] then (Inl EmptyRule, B)
          else case strip_prefix r ''full:'' of
            Some host \<Rightarrow> add_domain_exact cat host B
          | None \<Rightarrow> (case strip_prefix r ''keyword:'' of
              Some frag \<Rightarrow> add_keyword cat frag B
            | None \<Rightarrow> (case strip_prefix r ''domain:'' of
                Some host \<Rightarrow> add_domain_suffix cat host B
              | None \<Rightarrow> (case parse_ip_entries N NB r of
                  Some ranges \<Rightarrow> (Inr (), fold (push_range cat) ranges B)
                | None \<Rightarrow>
                    let pattern = (case split_once (CHR '':'') r of Some (_, pattern) \<Rightarrow> pattern | None \<Rightarrow> r)
                    in add_domain_suffix cat pattern B))))"

definition builder_is_empty :: "book_builder \<Rightarrow> bool" where
  "builder_is_empty B \<longleftrightarrow>
     bb_ip4 B = [] \<and> bb_ip6 B = [] \<and> bb_exact B = [] \<and> bb_suffix B = [] \<and> bb_keywords B = []"

section \<open>Building\<close>

definition cat_id :: "string list \<Rightarrow> string \<Rightarrow> builder_error + u32" where
  "cat_id cats c =
     (if c \<in> set cats then Inr (word_of_nat (length (takeWhile (\<lambda>x. x \<noteq> c) cats))) else Inl UnknownCategoryPanic)"

fun collect_results :: "('e + 'a) list \<Rightarrow> 'e + 'a list" where
  "collect_results [] = Inr []"
| "collect_results (r # rs) = and_then r (\<lambda>x. and_then (collect_results rs) (\<lambda>xs. Inr (x # xs)))"

definition category_entry :: "string list \<Rightarrow> string \<Rightarrow> builder_error + category" where
  "category_entry cats name =
     (case rsplit_once (CHR ''/'') name of
        Some (parent, _) \<Rightarrow> and_then (cat_id cats parent) (\<lambda>i. Inr \<lparr>c_name = name, c_parent = i\<rparr>)
      | None \<Rightarrow> Inr \<lparr>c_name = name, c_parent = - 1\<rparr>)"

definition mask_of :: "string list \<Rightarrow> nat \<Rightarrow> string list \<Rightarrow> builder_error + u64 list" where
  "mask_of cats words cs =
     and_then (collect_results (map (cat_id cats) cs)) (\<lambda>ids. Inr (mask_of_ids words ids))"

text \<open>The interner: the masks in the order of their identifiers.\<close>

definition intern :: "u64 list \<Rightarrow> u64 list list \<Rightarrow> builder_error + u32 \<times> u64 list list" where
  "intern m sets =
     (if m \<in> set sets then Inr (word_of_nat (length (takeWhile (\<lambda>x. x \<noteq> m) sets)), sets)
      else if 2 ^ 32 \<le> length sets then Inl CatsetCountPanic
      else Inr (word_of_nat (length sets), sets @ [m]))"

fun intern_each ::
  "('x \<Rightarrow> builder_error + 'y \<times> u64 list) \<Rightarrow> 'x list \<Rightarrow> u64 list list \<Rightarrow> builder_error + ('y \<times> u32) list \<times> u64 list list" where
  "intern_each f [] sets = Inr ([], sets)"
| "intern_each f (x # xs) sets =
     and_then (f x) (\<lambda>(y, m).
     and_then (intern m sets) (\<lambda>(i, sets).
     and_then (intern_each f xs sets) (\<lambda>(ys, sets). Inr ((y, i) # ys, sets))))"

definition range_ids :: "string list \<Rightarrow> (u128 \<times> u128 \<times> string) list \<Rightarrow> builder_error + raw_range list" where
  "range_ids cats rs = collect_results (map (\<lambda>(s, e, c). and_then (cat_id cats c) (\<lambda>i. Inr (s, e, i))) rs)"

definition narrow4 :: "segment \<Rightarrow> builder_error + (u32 \<times> u32) \<times> u64 list" where
  "narrow4 seg =
     (case seg of (s, e, m) \<Rightarrow>
        if 2 ^ 32 \<le> unat s \<or> 2 ^ 32 \<le> unat e then Inl SweepOutOfRange else Inr ((ucast s, ucast e), m))"

definition text_item :: "string list \<Rightarrow> nat \<Rightarrow> string \<times> string list \<Rightarrow> builder_error + string \<times> u64 list" where
  "text_item cats words tc = and_then (mask_of cats words (snd tc)) (\<lambda>m. Inr (fst tc, m))"

definition range_entry :: "('a \<times> 'a) \<times> u32 \<Rightarrow> 'a \<times> 'a \<times> u32" where
  "range_entry p = (case p of ((s, e), i) \<Rightarrow> (s, e, i))"

definition text_entry :: "string \<times> u32 \<Rightarrow> str_entry" where
  "text_entry p = \<lparr>se_text = fst p, se_catset = snd p\<rparr>"

definition build :: "book_builder \<Rightarrow> builder_error + raw_book" where
  "build B =
     (let cats = bb_categories B; words = max ((length cats + 63) div 64) (if cats \<noteq> [] then 1 else 0)
      in and_then (collect_results (map (category_entry cats) cats)) (\<lambda>categories.
         and_then (range_ids cats (bb_ip4 B)) (\<lambda>ranges4.
         and_then (intern_each narrow4 (sweep ranges4 words) []) (\<lambda>(ip4, sets).
         and_then (range_ids cats (bb_ip6 B)) (\<lambda>ranges6.
         and_then (intern_each (\<lambda>(s, e, m). Inr ((s, e), m)) (sweep ranges6 words) sets) (\<lambda>(ip6, sets).
         and_then (intern_each (text_item cats words) (bb_exact B) sets) (\<lambda>(exact, sets).
         and_then (intern_each (text_item cats words) (bb_suffix B) sets) (\<lambda>(suffix, sets).
         and_then (intern_each (text_item cats words) (bb_keywords B) sets) (\<lambda>(kws, sets).
         and_then (ensure (words < 2 ^ 32) TooManyWords) (\<lambda>_.
         let book = \<lparr>build_epoch = bb_epoch B, categories = categories, catset_words = word_of_nat words,
               catsets = concat sets, ip4 = map range_entry ip4, ip6 = map range_entry ip6,
               domain_exact = map text_entry exact, domain_suffix = map text_entry suffix,
               rb_keywords = map text_entry kws\<rparr>
         in case validate book of Some e \<Rightarrow> Inl (InvalidBook e) | None \<Rightarrow> Inr book))))))))))"

definition build_bytes :: "(bytes \<Rightarrow> bytes) \<Rightarrow> book_builder \<Rightarrow> builder_error + codec_error + bytes" where
  "build_bytes sha256 B = map_sum id (encode sha256) (build B)"

section \<open>Interning\<close>

lemma takeWhile_index:
  assumes "x \<in> set xs"
  shows "length (takeWhile (\<lambda>y. y \<noteq> x) xs) < length xs" and "xs ! length (takeWhile (\<lambda>y. y \<noteq> x) xs) = x"
  using assms by (induction xs) auto

lemma intern_ok:
  assumes "intern m sets = Inr (i, sets')" and "length sets \<le> 2 ^ 32"
  shows "\<exists>ext. sets' = sets @ ext \<and> set ext \<subseteq> {m}" and "length sets' \<le> 2 ^ 32"
    and "unat i < length sets'" and "sets' ! unat i = m"
proof -
  have "(\<exists>ext. sets' = sets @ ext \<and> set ext \<subseteq> {m}) \<and> length sets' \<le> 2 ^ 32 \<and> unat i < length sets' \<and> sets' ! unat i = m"
  proof (cases "m \<in> set sets")
    case True
    note at = takeWhile_index [OF True]
    then have "unat i = length (takeWhile (\<lambda>y. y \<noteq> m) sets)" "sets' = sets"
      using assms True by (auto simp: intern_def of_nat_inverse)
    with at assms(2) show ?thesis by simp
  next
    case False
    then have "length sets < 2 ^ 32" "i = word_of_nat (length sets)" "sets' = sets @ [m]"
      using assms by (auto simp: intern_def split: if_splits)
    then show ?thesis by (simp add: of_nat_inverse)
  qed
  then show "\<exists>ext. sets' = sets @ ext \<and> set ext \<subseteq> {m}" and "length sets' \<le> 2 ^ 32"
    and "unat i < length sets'" and "sets' ! unat i = m" by simp_all
qed

definition interned :: "u64 list list \<Rightarrow> u32 \<Rightarrow> u64 list \<Rightarrow> bool" where
  "interned sets i m \<longleftrightarrow> unat i < length sets \<and> sets ! unat i = m"

lemma interned_append: "interned sets i m \<Longrightarrow> interned (sets @ ext) i m"
  by (simp add: interned_def nth_append)

lemma intern_each_ok:
  "intern_each f xs sets = Inr (ys, sets') \<Longrightarrow> length sets \<le> 2 ^ 32 \<Longrightarrow>
     length sets' \<le> 2 ^ 32 \<and>
     (\<exists>ext. sets' = sets @ ext \<and> (\<forall>m \<in> set ext. \<exists>x \<in> set xs. \<exists>y. f x = Inr (y, m))) \<and>
     list_all2 (\<lambda>x yi. \<exists>m. f x = Inr (fst yi, m) \<and> interned sets' (snd yi) m) xs ys"
proof (induction xs arbitrary: sets ys)
  case (Cons x xs)
  from Cons.prems(1) obtain y m i sets1 ys1 where
    step: "f x = Inr (y, m)" "intern m sets = Inr (i, sets1)" "intern_each f xs sets1 = Inr (ys1, sets')" "ys = (y, i) # ys1"
    by (auto split: prod.splits)
  note new = intern_ok [OF step(2) Cons.prems(2)]
  from Cons.IH [OF step(3) new(2)] obtain ext where
    rest: "length sets' \<le> 2 ^ 32" "sets' = sets1 @ ext" "\<forall>m \<in> set ext. \<exists>x \<in> set xs. \<exists>y. f x = Inr (y, m)"
      "list_all2 (\<lambda>x yi. \<exists>m. f x = Inr (fst yi, m) \<and> interned sets' (snd yi) m) xs ys1"
    by blast
  obtain ext1 where ext1: "sets1 = sets @ ext1" "set ext1 \<subseteq> {m}" using new(1) by blast
  have "interned sets' i m" unfolding rest(2) by (rule interned_append) (simp add: interned_def new(3,4))
  moreover have "\<forall>m' \<in> set (ext1 @ ext). \<exists>x' \<in> set (x # xs). \<exists>y. f x' = Inr (y, m')"
    using ext1(2) step(1) rest(3) by auto
  ultimately show ?case
    using rest ext1(1) step(1,4) by (intro conjI exI [of _ "ext1 @ ext"]) auto
qed simp

lemma interned_back:
  assumes "list_all2 (\<lambda>x yi. \<exists>m. f x = Inr (fst yi, m) \<and> interned sets (snd yi) m) xs ys"
  shows "(\<exists>yi \<in> set ys. P (fst yi) \<and> Q (sets ! unat (snd yi))) \<longleftrightarrow> (\<exists>x \<in> set xs. \<exists>y m. f x = Inr (y, m) \<and> P y \<and> Q m)"
  using assms by (induction rule: list_all2_induct) (auto simp: interned_def)

lemma collect_results_Inr: "collect_results rs = Inr xs \<longleftrightarrow> rs = map Inr xs"
  by (induction rs arbitrary: xs) (auto simp: Cons_eq_map_conv)

lemma catset_of_concat:
  assumes "\<forall>m \<in> set sets. length m = w" and "i < length sets"
  shows "slice (i * w) (i * w + w) (concat sets) = sets ! i"
  using assms
proof (induction sets arbitrary: i)
  case (Cons m sets)
  then show ?case by (cases i) (auto simp: slice_def)
qed simp

section \<open>Categories and masks\<close>

lemma cat_id_nth:
  assumes "distinct cats" and "length cats \<le> MAX_CATEGORIES"
  shows "(\<exists>id. cat_id cats c = Inr id \<and> unat id = i) \<longleftrightarrow> i < length cats \<and> cats ! i = c"
proof (cases "c \<in> set cats")
  case True
  define k where "k = length (takeWhile (\<lambda>x. x \<noteq> c) cats)"
  have k: "k < length cats" "cats ! k = c" using takeWhile_index [OF True] by (simp_all add: k_def)
  then have "k < 2 ^ 32" using assms(2) by (simp add: MAX_CATEGORIES_def)
  then have "(\<exists>id. cat_id cats c = Inr id \<and> unat id = i) \<longleftrightarrow> i = k"
    using True by (auto simp: cat_id_def k_def [symmetric] of_nat_inverse)
  then show ?thesis using k assms(1) nth_eq_iff_index_eq [OF assms(1), of i k] by auto
next
  case False
  then show ?thesis by (auto simp: cat_id_def)
qed

definition word_count :: "string list \<Rightarrow> nat" where
  "word_count cats = max ((length cats + 63) div 64) (if cats \<noteq> [] then 1 else 0)"

lemma word_count_covers: "i < length cats \<Longrightarrow> i div 64 < word_count cats"
  by (auto simp: word_count_def)

lemma mask_of_mem:
  assumes "distinct cats" and "length cats \<le> MAX_CATEGORIES" and "mask_of cats (word_count cats) cs = Inr m"
  shows "length m = word_count cats" and "mask_mem m i \<longleftrightarrow> i < length cats \<and> cats ! i \<in> set cs"
proof -
  obtain ids where ids: "map (cat_id cats) cs = map Inr ids" and m: "m = mask_of_ids (word_count cats) ids"
    using assms(3) by (auto simp: mask_of_def collect_results_Inr)
  have "i \<in> unat ` set ids \<longleftrightarrow> (\<exists>r \<in> set (map Inr ids :: (builder_error + u32) list). \<exists>id. r = Inr id \<and> unat id = i)" by auto
  also have "\<dots> \<longleftrightarrow> (\<exists>c \<in> set cs. \<exists>id. cat_id cats c = Inr id \<and> unat id = i)"
    unfolding ids [symmetric] by auto
  also have "\<dots> \<longleftrightarrow> i < length cats \<and> cats ! i \<in> set cs" unfolding cat_id_nth [OF assms(1,2)] by auto
  finally show "mask_mem m i \<longleftrightarrow> i < length cats \<and> cats ! i \<in> set cs"
    using word_count_covers [of i cats] unfolding m mask_of_ids_mem by auto
  show "length m = word_count cats" by (simp add: m)
qed

lemma range_ids_mem:
  assumes "distinct cats" and "length cats \<le> MAX_CATEGORIES" and "range_ids cats rs = Inr ranges"
  shows "(\<exists>r \<in> set ranges. in_range x r \<and> unat (r_cat r) = i) \<longleftrightarrow>
      i < length cats \<and> (\<exists>(s, e, c) \<in> set rs. s \<le> x \<and> x \<le> e \<and> c = cats ! i)"
    and "\<forall>(s, e, c) \<in> set rs. s \<le> e \<Longrightarrow> \<forall>r \<in> set ranges. range_ok r"
proof -
  let ?f = "\<lambda>(s, e, c). and_then (cat_id cats c) (\<lambda>i. Inr (s, e, i))"
  have ids: "map ?f rs = map Inr ranges" using assms(3) by (simp add: range_ids_def collect_results_Inr)
  have mem: "r \<in> set ranges \<longleftrightarrow> (\<exists>q \<in> set rs. ?f q = Inr r)" for r
  proof -
    have "r \<in> set ranges \<longleftrightarrow> Inr r \<in> set (map Inr ranges :: (builder_error + raw_range) list)" by auto
    also have "\<dots> \<longleftrightarrow> (\<exists>q \<in> set rs. ?f q = Inr r)" unfolding ids [symmetric] by (auto simp: image_iff eq_commute)
    finally show ?thesis .
  qed
  have step: "(\<exists>r. ?f (s, e, c) = Inr r \<and> in_range x r \<and> unat (r_cat r) = i) \<longleftrightarrow>
      s \<le> x \<and> x \<le> e \<and> i < length cats \<and> cats ! i = c" for s e c
    using cat_id_nth [OF assms(1,2), of c i] by (auto simp: in_range_def)
  have "(\<exists>r \<in> set ranges. in_range x r \<and> unat (r_cat r) = i) \<longleftrightarrow>
      (\<exists>q \<in> set rs. \<exists>r. ?f q = Inr r \<and> in_range x r \<and> unat (r_cat r) = i)"
    unfolding Bex_def mem by blast
  also have "\<dots> \<longleftrightarrow> (\<exists>(s, e, c) \<in> set rs. s \<le> x \<and> x \<le> e \<and> i < length cats \<and> cats ! i = c)"
    by (rule bex_cong [OF refl]) (use step in \<open>simp split: prod.split\<close>)
  also have "\<dots> \<longleftrightarrow> i < length cats \<and> (\<exists>(s, e, c) \<in> set rs. s \<le> x \<and> x \<le> e \<and> c = cats ! i)" by auto
  finally show "(\<exists>r \<in> set ranges. in_range x r \<and> unat (r_cat r) = i) \<longleftrightarrow>
      i < length cats \<and> (\<exists>(s, e, c) \<in> set rs. s \<le> x \<and> x \<le> e \<and> c = cats ! i)" .
  show "\<forall>(s, e, c) \<in> set rs. s \<le> e \<Longrightarrow> \<forall>r \<in> set ranges. range_ok r"
    using mem by (fastforce simp: range_ok_def)
qed

lemma category_entries:
  "collect_results (map (category_entry cats) names) = Inr es \<Longrightarrow> map c_name es = names"
proof (induction names arbitrary: es)
  case (Cons n names)
  have "c_name c = n" if "category_entry cats n = Inr c" for c
    using that by (auto simp: category_entry_def split: option.splits)
  with Cons show ?case by auto
qed simp

section \<open>What a builder holds\<close>

text \<open>The address a lookup uses: an IPv4-mapped address counts as the IPv4 address.\<close>

definition canonical_ip :: "ip_addr \<Rightarrow> ip_addr" where
  "canonical_ip ip =
     (case ip of V4 a \<Rightarrow> V4 a | V6 a \<Rightarrow> (case to_ipv4_mapped a of Some v \<Rightarrow> V4 v | None \<Rightarrow> V6 a))"

definition range_holds :: "(u128 \<times> u128 \<times> string) list \<Rightarrow> u128 \<Rightarrow> string \<Rightarrow> bool" where
  "range_holds rs a x \<longleftrightarrow> (\<exists>(s, e, c) \<in> set rs. s \<le> a \<and> a \<le> e \<and> c = x)"

definition text_holds :: "(string \<times> string list) list \<Rightarrow> (string \<Rightarrow> bool) \<Rightarrow> string \<Rightarrow> bool" where
  "text_holds ts P x \<longleftrightarrow> (\<exists>(t, cs) \<in> set ts. P t \<and> x \<in> set cs)"

definition builder_hits :: "book_builder \<Rightarrow> string \<Rightarrow> string \<Rightarrow> bool" where
  "builder_hits B host x =
     (case parse_ip_addr host of
        Some ip \<Rightarrow> (case canonical_ip ip of
            V4 a \<Rightarrow> range_holds (bb_ip4 B) (ucast a) x
          | V6 a \<Rightarrow> range_holds (bb_ip6 B) a x)
      | None \<Rightarrow>
          (let name = normalize_domain host
           in name \<noteq> [] \<and>
              (text_holds (bb_exact B) (\<lambda>t. t = name) x \<or>
               text_holds (bb_suffix B) (\<lambda>t. prefix (split_on (CHR ''.'') t) (rev (split_on (CHR ''.'') name))) x \<or>
               text_holds (bb_keywords B) (\<lambda>t. sublist t name) x)))"

definition builder_ok :: "book_builder \<Rightarrow> bool" where
  "builder_ok B \<longleftrightarrow> (\<forall>(s, e, c) \<in> set (bb_ip4 B). s \<le> e) \<and> (\<forall>(s, e, c) \<in> set (bb_ip6 B). s \<le> e)"

lemma build_parts:
  assumes "build B = Inr raw"
  obtains cs r4 i4 s1 r6 i6 s2 ex s3 su s4 kw s5
  where "collect_results (map (category_entry (bb_categories B)) (bb_categories B)) = Inr cs"
    and "range_ids (bb_categories B) (bb_ip4 B) = Inr r4"
    and "intern_each narrow4 (sweep r4 (word_count (bb_categories B))) [] = Inr (i4, s1)"
    and "range_ids (bb_categories B) (bb_ip6 B) = Inr r6"
    and "intern_each (\<lambda>(s, e, m). Inr ((s, e), m)) (sweep r6 (word_count (bb_categories B))) s1 = Inr (i6, s2)"
    and "intern_each (text_item (bb_categories B) (word_count (bb_categories B))) (bb_exact B) s2 = Inr (ex, s3)"
    and "intern_each (text_item (bb_categories B) (word_count (bb_categories B))) (bb_suffix B) s3 = Inr (su, s4)"
    and "intern_each (text_item (bb_categories B) (word_count (bb_categories B))) (bb_keywords B) s4 = Inr (kw, s5)"
    and "word_count (bb_categories B) < 2 ^ 32" and "validate raw = None"
    and "raw = \<lparr>build_epoch = bb_epoch B, categories = cs, catset_words = word_of_nat (word_count (bb_categories B)),
               catsets = concat s5, ip4 = map range_entry i4, ip6 = map range_entry i6,
               domain_exact = map text_entry ex, domain_suffix = map text_entry su, rb_keywords = map text_entry kw\<rparr>"
  using assms unfolding build_def Let_def word_count_def [symmetric]
  by (auto split: prod.splits option.splits intro: that)

abbreviation interned_all :: "('x \<Rightarrow> builder_error + 'y \<times> u64 list) \<Rightarrow> u64 list list \<Rightarrow> 'x list \<Rightarrow> ('y \<times> u32) list \<Rightarrow> bool" where
  "interned_all f sets \<equiv> list_all2 (\<lambda>x yi. \<exists>m. f x = Inr (fst yi, m) \<and> interned sets (snd yi) m)"

lemma interned_lift: "interned_all f sets xs ys \<Longrightarrow> prefix sets sets' \<Longrightarrow> interned_all f sets' xs ys"
  by (erule list_all2_mono) (auto simp: prefix_def intro: interned_append)

lemma intern_each_lengths:
  assumes "intern_each f xs sets = Inr (ys, sets')" and "length sets \<le> 2 ^ 32"
    and "\<forall>m \<in> set sets. length m = w" and "\<And>x y m. x \<in> set xs \<Longrightarrow> f x = Inr (y, m) \<Longrightarrow> length m = w"
  shows "interned_all f sets' xs ys \<and> prefix sets sets' \<and> length sets' \<le> 2 ^ 32 \<and> (\<forall>m \<in> set sets'. length m = w)"
  using intern_each_ok [OF assms(1,2)] assms(3,4) by fastforce

lemma list_all2_left: "list_all2 P xs ys \<Longrightarrow> x \<in> set xs \<Longrightarrow> \<exists>y. P x y"
  by (induction rule: list_all2_induct) auto

lemma text_entries_hit:
  assumes cats: "distinct cats" "length cats \<le> MAX_CATEGORIES"
    and all: "list_all2 (\<lambda>x yi. \<exists>m. text_item cats (word_count cats) x = Inr (fst yi, m) \<and> interned sets (snd yi) m) ts ys"
  shows "(\<exists>e \<in> set (map text_entry ys). P (se_text e) \<and> mask_mem (sets ! unat (se_catset e)) i) \<longleftrightarrow>
    i < length cats \<and> text_holds ts P (cats ! i)"
proof -
  have item: "(\<exists>y m. text_item cats (word_count cats) (t, cs) = Inr (y, m) \<and> P y \<and> mask_mem m i) \<longleftrightarrow>
      P t \<and> i < length cats \<and> cats ! i \<in> set cs" if "(t, cs) \<in> set ts" for t cs
  proof -
    have "\<exists>y m. text_item cats (word_count cats) (t, cs) = Inr (y, m)"
      using list_all2_left [OF all that] by blast
    then obtain m where m: "mask_of cats (word_count cats) cs = Inr m" by (auto simp: text_item_def)
    then show ?thesis using mask_of_mem(2) [OF cats m] by (simp add: text_item_def)
  qed
  have "(\<exists>e \<in> set (map text_entry ys). P (se_text e) \<and> mask_mem (sets ! unat (se_catset e)) i) \<longleftrightarrow>
      (\<exists>yi \<in> set ys. P (fst yi) \<and> mask_mem (sets ! unat (snd yi)) i)" by (auto simp: text_entry_def)
  also have "\<dots> \<longleftrightarrow> (\<exists>x \<in> set ts. \<exists>y m. text_item cats (word_count cats) x = Inr (y, m) \<and> P y \<and> mask_mem m i)"
    by (rule interned_back [OF all])
  also have "\<dots> \<longleftrightarrow> (\<exists>(t, cs) \<in> set ts. P t \<and> i < length cats \<and> cats ! i \<in> set cs)"
    by (rule bex_cong [OF refl]) (use item in \<open>auto split: prod.split\<close>)
  finally show ?thesis by (auto simp: text_holds_def)
qed

lemma ucast_le: "unat (s :: u128) < 2 ^ 32 \<Longrightarrow> (ucast s :: u32) \<le> a \<longleftrightarrow> s \<le> ucast a"
  "unat (s :: u128) < 2 ^ 32 \<Longrightarrow> a \<le> (ucast s :: u32) \<longleftrightarrow> ucast a \<le> s"
  using unsigned_less [where ?'a = nat, of a] by (simp_all add: word_le_nat_alt unsigned_ucast_eq take_bit_nat_eq_self)

lemma ranges_hit:
  fixes conv :: "'a :: len word \<Rightarrow> u128"
  assumes cats: "distinct cats" "length cats \<le> MAX_CATEGORIES" and ids: "range_ids cats rs = Inr ranges"
    and ok: "\<forall>(s, e, c) \<in> set rs. s \<le> e"
    and all: "list_all2 (\<lambda>x yi. \<exists>m. f x = Inr (fst yi, m) \<and> interned sets (snd yi) m) (sweep ranges (word_count cats)) ys"
    and f: "\<And>s e m p m'. f (s, e, m) = Inr (p, m') \<Longrightarrow>
      m' = m \<and> (\<forall>a. fst p \<le> a \<longleftrightarrow> s \<le> conv a) \<and> (\<forall>a. a \<le> snd p \<longleftrightarrow> conv a \<le> e)"
  shows "(\<exists>c \<in> range_hits (map range_entry ys) a. mask_mem (sets ! unat c) i) \<longleftrightarrow>
    i < length cats \<and> range_holds rs (conv a) (cats ! i)"
proof -
  let ?segs = "sweep ranges (word_count cats)"
  have defined: "\<exists>p. f (s, e, m) = Inr (p, m)" if seg: "(s, e, m) \<in> set ?segs" for s e m
  proof -
    obtain p m' where "f (s, e, m) = Inr (p, m')"
      using list_all2_left [OF all seg] by blast
    then show ?thesis using f by blast
  qed
  have item: "(\<exists>p m'. f (s, e, m) = Inr (p, m') \<and> (fst p \<le> a \<and> a \<le> snd p) \<and> mask_mem m' i) \<longleftrightarrow>
      s \<le> conv a \<and> conv a \<le> e \<and> mask_mem m i" if seg: "(s, e, m) \<in> set ?segs" for s e m
  proof -
    obtain p where p: "f (s, e, m) = Inr (p, m)" using defined [OF seg] by blast
    with f [OF p] show ?thesis by simp
  qed
  have "(\<exists>c \<in> range_hits (map range_entry ys) a. mask_mem (sets ! unat c) i) \<longleftrightarrow>
      (\<exists>yi \<in> set ys. (fst (fst yi) \<le> a \<and> a \<le> snd (fst yi)) \<and> mask_mem (sets ! unat (snd yi)) i)"
    by (force simp: range_hits_def range_entry_def)
  also have "\<dots> \<longleftrightarrow> (\<exists>x \<in> set ?segs. \<exists>p m. f x = Inr (p, m) \<and> (fst p \<le> a \<and> a \<le> snd p) \<and> mask_mem m i)"
    by (rule interned_back [OF all])
  also have "\<dots> \<longleftrightarrow> (\<exists>(s, e, m) \<in> set ?segs. s \<le> conv a \<and> conv a \<le> e \<and> mask_mem m i)"
    by (rule bex_cong [OF refl]) (simp only: split_paired_all prod.case item)
  also have "\<dots> \<longleftrightarrow> (\<exists>m. covers_with ?segs (conv a) m \<and> mask_mem m i)" by (auto simp: covers_with_def)
  also have "\<dots> \<longleftrightarrow> i div 64 < word_count cats \<and> (\<exists>r \<in> set ranges. in_range (conv a) r \<and> unat (r_cat r) = i)"
    by (rule sweep_correct(2) [OF range_ids_mem(2) [OF cats ids ok]])
  also have "\<dots> \<longleftrightarrow> i < length cats \<and> range_holds rs (conv a) (cats ! i)"
    unfolding range_ids_mem(1) [OF cats ids] range_holds_def using word_count_covers [of i cats] by blast
  finally show ?thesis .
qed

lemma text_item_length: "text_item cats words x = Inr (y, m) \<Longrightarrow> length m = words"
  by (auto simp: text_item_def mask_of_def)

lemma sweep_length: "\<forall>r \<in> set rs. range_ok r \<Longrightarrow> (s, e, m) \<in> set (sweep rs words) \<Longrightarrow> length m = words"
  using sweep_correct(1) [of rs words] by (auto simp: segs_ok_def)

text \<open>All five sections of a built book refer to the same list of masks.\<close>

lemma build_sections:
  assumes built: "build B = Inr raw" and ok: "builder_ok B"
  obtains r4 i4 r6 i6 ex su kw sets
  where "map c_name (categories raw) = bb_categories B" and "validate raw = None"
    and "unat (catset_words raw) = word_count (bb_categories B)" and "catsets raw = concat sets"
    and "\<forall>m \<in> set sets. length m = word_count (bb_categories B)"
    and "range_ids (bb_categories B) (bb_ip4 B) = Inr r4" and "ip4 raw = map range_entry i4"
    and "interned_all narrow4 sets (sweep r4 (word_count (bb_categories B))) i4"
    and "range_ids (bb_categories B) (bb_ip6 B) = Inr r6" and "ip6 raw = map range_entry i6"
    and "interned_all (\<lambda>(s, e, m). Inr ((s, e), m)) sets (sweep r6 (word_count (bb_categories B))) i6"
    and "domain_exact raw = map text_entry ex" and "domain_suffix raw = map text_entry su"
    and "rb_keywords raw = map text_entry kw"
    and "interned_all (text_item (bb_categories B) (word_count (bb_categories B))) sets (bb_exact B) ex"
    and "interned_all (text_item (bb_categories B) (word_count (bb_categories B))) sets (bb_suffix B) su"
    and "interned_all (text_item (bb_categories B) (word_count (bb_categories B))) sets (bb_keywords B) kw"
proof -
  let ?cats = "bb_categories B" and ?w = "word_count (bb_categories B)"
  obtain cs r4 i4 s1 r6 i6 s2 ex s3 su s4 kw s5 where
    cs: "collect_results (map (category_entry ?cats) ?cats) = Inr cs"
    and r4: "range_ids ?cats (bb_ip4 B) = Inr r4" and i4: "intern_each narrow4 (sweep r4 ?w) [] = Inr (i4, s1)"
    and r6: "range_ids ?cats (bb_ip6 B) = Inr r6"
    and i6: "intern_each (\<lambda>(s, e, m). Inr ((s, e), m)) (sweep r6 ?w) s1 = Inr (i6, s2)"
    and ex: "intern_each (text_item ?cats ?w) (bb_exact B) s2 = Inr (ex, s3)"
    and su: "intern_each (text_item ?cats ?w) (bb_suffix B) s3 = Inr (su, s4)"
    and kw: "intern_each (text_item ?cats ?w) (bb_keywords B) s4 = Inr (kw, s5)"
    and w: "?w < 2 ^ 32" and valid: "validate raw = None"
    and raw: "raw = \<lparr>build_epoch = bb_epoch B, categories = cs, catset_words = word_of_nat ?w,
               catsets = concat s5, ip4 = map range_entry i4, ip6 = map range_entry i6,
               domain_exact = map text_entry ex, domain_suffix = map text_entry su, rb_keywords = map text_entry kw\<rparr>"
    by (rule build_parts [OF built])
  have names: "map c_name (categories raw) = ?cats" using category_entries [OF cs] by (simp add: raw)
  have book: "book_ok raw" by (rule validate_ok [OF valid])
  have cats: "distinct ?cats" "length ?cats \<le> MAX_CATEGORIES"
    using book unfolding names [symmetric] by (simp_all add: book_ok_def sorted_wrt_map strict_sorted_iff flip: sorted_wrt_map)
  have rok: "\<forall>r \<in> set r4. range_ok r" "\<forall>r \<in> set r6. range_ok r"
    using range_ids_mem(2) [OF cats r4] range_ids_mem(2) [OF cats r6] ok by (simp_all add: builder_ok_def)
  have l4: "interned_all narrow4 s1 (sweep r4 ?w) i4 \<and> prefix [] s1 \<and> length s1 \<le> 2 ^ 32 \<and> (\<forall>m \<in> set s1. length m = ?w)"
    by (rule intern_each_lengths [OF i4])
      (auto simp: narrow4_def split: if_splits intro: sweep_length [OF rok(1)])
  have l6: "interned_all (\<lambda>(s, e, m). Inr ((s, e), m)) s2 (sweep r6 ?w) i6 \<and> prefix s1 s2 \<and> length s2 \<le> 2 ^ 32 \<and> (\<forall>m \<in> set s2. length m = ?w)"
    by (rule intern_each_lengths [OF i6]) (use l4 in \<open>auto intro: sweep_length [OF rok(2)]\<close>)
  have le: "interned_all (text_item ?cats ?w) s3 (bb_exact B) ex \<and> prefix s2 s3 \<and> length s3 \<le> 2 ^ 32 \<and> (\<forall>m \<in> set s3. length m = ?w)"
    by (rule intern_each_lengths [OF ex]) (use l6 in \<open>auto intro: text_item_length\<close>)
  have ls: "interned_all (text_item ?cats ?w) s4 (bb_suffix B) su \<and> prefix s3 s4 \<and> length s4 \<le> 2 ^ 32 \<and> (\<forall>m \<in> set s4. length m = ?w)"
    by (rule intern_each_lengths [OF su]) (use le in \<open>auto intro: text_item_length\<close>)
  have lk: "interned_all (text_item ?cats ?w) s5 (bb_keywords B) kw \<and> prefix s4 s5 \<and> length s5 \<le> 2 ^ 32 \<and> (\<forall>m \<in> set s5. length m = ?w)"
    by (rule intern_each_lengths [OF kw]) (use ls in \<open>auto intro: text_item_length\<close>)
  have p: "prefix s4 s5" "prefix s3 s5" "prefix s2 s5" "prefix s1 s5"
    using l6 le ls lk by (meson prefix_order.order_trans)+
  have all: "interned_all narrow4 s5 (sweep r4 ?w) i4" "interned_all (\<lambda>(s, e, m). Inr ((s, e), m)) s5 (sweep r6 ?w) i6"
    "interned_all (text_item ?cats ?w) s5 (bb_exact B) ex" "interned_all (text_item ?cats ?w) s5 (bb_suffix B) su"
    "interned_all (text_item ?cats ?w) s5 (bb_keywords B) kw"
    using l4 l6 le ls lk p by (blast intro: interned_lift)+
  show thesis
    by (rule that [OF names valid _ _ _ r4 _ all(1) r6 _ all(2) _ _ _ all(3-5)])
      (use lk w in \<open>simp_all add: raw of_nat_inverse\<close>)
qed

lemma catset_of_interned:
  assumes "catsets raw = concat sets" and "\<forall>m \<in> set sets. length m = unat (catset_words raw)" and "unat c < set_count raw"
  shows "catset_of raw c = sets ! unat c"
proof -
  have "length (concat sets) = length sets * unat (catset_words raw)" using assms(2) by (induction sets) auto
  then have "unat c < length sets" using assms(1,3) by (auto simp: set_count_def split: if_splits)
  from catset_of_concat [OF assms(2) this] show ?thesis by (simp add: catset_of_def Let_def assms(1))
qed

lemma domain_hits_masks:
  "(\<exists>c \<in> domain_hits raw name. Q c) \<longleftrightarrow>
     (\<exists>e \<in> set (domain_exact raw). se_text e = name \<and> Q (se_catset e)) \<or>
     (\<exists>e \<in> set (domain_suffix raw). prefix (split_on (CHR ''.'') (se_text e)) (rev (split_on (CHR ''.'') name)) \<and> Q (se_catset e)) \<or>
     (\<exists>e \<in> set (rb_keywords raw). sublist (se_text e) name \<and> Q (se_catset e))"
  unfolding domain_hits_def by blast

lemma ip_hits_canonical:
  "ip_hits raw ip = (case canonical_ip ip of V4 a \<Rightarrow> range_hits (ip4 raw) a | V6 a \<Rightarrow> range_hits (ip6 raw) a)"
  by (simp add: ip_hits_def canonical_ip_def split: ip_addr.split option.split)

text \<open>The finished book holds exactly what the builder holds.\<close>

lemma build_holds:
  assumes built: "build B = Inr raw" and ok: "builder_ok B"
  shows "book_ok raw" and "map c_name (categories raw) = bb_categories B"
    and "(\<exists>c \<in> book_hits raw host. mask_mem (catset_of raw c) i) \<longleftrightarrow>
      i < length (bb_categories B) \<and> builder_hits B host (bb_categories B ! i)"
proof -
  let ?cats = "bb_categories B" and ?w = "word_count (bb_categories B)"
  obtain r4 i4 r6 i6 ex su kw sets where
    names: "map c_name (categories raw) = ?cats" and valid: "validate raw = None"
    and w: "unat (catset_words raw) = ?w" and sets: "catsets raw = concat sets" "\<forall>m \<in> set sets. length m = ?w"
    and r4: "range_ids ?cats (bb_ip4 B) = Inr r4" and i4: "ip4 raw = map range_entry i4"
    and n4: "interned_all narrow4 sets (sweep r4 ?w) i4"
    and r6: "range_ids ?cats (bb_ip6 B) = Inr r6" and i6: "ip6 raw = map range_entry i6"
    and n6: "interned_all (\<lambda>(s, e, m). Inr ((s, e), m)) sets (sweep r6 ?w) i6"
    and ts: "domain_exact raw = map text_entry ex" "domain_suffix raw = map text_entry su" "rb_keywords raw = map text_entry kw"
    and nt: "interned_all (text_item ?cats ?w) sets (bb_exact B) ex" "interned_all (text_item ?cats ?w) sets (bb_suffix B) su"
      "interned_all (text_item ?cats ?w) sets (bb_keywords B) kw"
    by (rule build_sections [OF built ok])
  show book: "book_ok raw" by (rule validate_ok [OF valid])
  show "map c_name (categories raw) = ?cats" by (rule names)
  have cats: "distinct ?cats" "length ?cats \<le> MAX_CATEGORIES"
    using book unfolding names [symmetric] by (simp_all add: book_ok_def sorted_wrt_map strict_sorted_iff flip: sorted_wrt_map)
  have ok4: "\<forall>(s, e, c) \<in> set (bb_ip4 B). s \<le> e" and ok6: "\<forall>(s, e, c) \<in> set (bb_ip6 B). s \<le> e"
    using ok by (simp_all add: builder_ok_def)
  have masks: "(\<exists>c \<in> book_hits raw host. mask_mem (catset_of raw c) i) \<longleftrightarrow> (\<exists>c \<in> book_hits raw host. mask_mem (sets ! unat c) i)"
    using catset_of_interned [OF sets(1)] sets(2) w hits_valid [OF book] by (intro bex_cong refl) simp
  have h4: "(\<exists>c \<in> range_hits (ip4 raw) a. mask_mem (sets ! unat c) i) \<longleftrightarrow>
      i < length ?cats \<and> range_holds (bb_ip4 B) (ucast a) (?cats ! i)" for a
    unfolding i4 by (rule ranges_hit [OF cats r4 ok4 n4]) (auto simp: narrow4_def ucast_le split: if_splits)
  have h6: "(\<exists>c \<in> range_hits (ip6 raw) a. mask_mem (sets ! unat c) i) \<longleftrightarrow>
      i < length ?cats \<and> range_holds (bb_ip6 B) a (?cats ! i)" for a
    unfolding i6 by (rule ranges_hit [OF cats r6 ok6 n6, of "\<lambda>a. a"]) auto
  show "(\<exists>c \<in> book_hits raw host. mask_mem (catset_of raw c) i) \<longleftrightarrow>
      i < length ?cats \<and> builder_hits B host (?cats ! i)"
  proof (cases "parse_ip_addr host")
    case (Some ip)
    then show ?thesis unfolding masks using h4 h6
      by (cases "canonical_ip ip") (simp_all add: book_hits_def builder_hits_def ip_hits_canonical)
  next
    case None
    let ?n = "normalize_domain host"
    have "(\<exists>c \<in> domain_hits raw ?n. mask_mem (sets ! unat c) i) \<longleftrightarrow> i < length ?cats \<and>
        (text_holds (bb_exact B) (\<lambda>t. t = ?n) (?cats ! i) \<or>
         text_holds (bb_suffix B) (\<lambda>t. prefix (split_on (CHR ''.'') t) (rev (split_on (CHR ''.'') ?n))) (?cats ! i) \<or>
         text_holds (bb_keywords B) (\<lambda>t. sublist t ?n) (?cats ! i))"
      unfolding domain_hits_masks ts
      text_entries_hit [OF cats nt(1), where P = "\<lambda>t. t = ?n"]
      text_entries_hit [OF cats nt(2), where P = "\<lambda>t. prefix (split_on (CHR ''.'') t) (rev (split_on (CHR ''.'') ?n))"]
      text_entries_hit [OF cats nt(3), where P = "\<lambda>t. sublist t ?n"] by blast
    then show ?thesis
      unfolding masks using None by (cases "?n = []") (simp_all add: book_hits_def builder_hits_def Let_def)
  qed
qed

end
