(* ===== verification/Addrbook_Rules.thy ===== *)
theory Addrbook_Rules
  imports Addrbook_Builder
begin

text \<open>
  What adding a rule to the address-book builder means (\<open>src/addrbook/builder.rs\<close>), and the
  theorem that a book built from rules answers every host with exactly the categories of the
  rules that name it, read the way the routing rules of \<open>src/policy\<close> are read.
\<close>

section \<open>Categories\<close>

lemma add_paths_keeps: "set cats \<subseteq> set (add_paths acc segs cats)"
proof (induction acc segs cats rule: add_paths.induct)
  case (2 acc seg segs cats)
  then show ?case unfolding add_paths.simps Let_def by (metis insert_subset set_bs_insert)
qed simp

lemma add_paths_last:
  "acc \<noteq> [] \<Longrightarrow> segs \<noteq> [] \<Longrightarrow> acc @ ''/'' @ join ''/'' segs \<in> set (add_paths acc segs cats)"
proof (induction acc segs cats rule: add_paths.induct)
  case (2 acc seg segs cats)
  let ?acc = "acc @ ''/'' @ seg"
  show ?case
  proof (cases "segs = []")
    case False
    with 2 show ?thesis by (simp add: Let_def join_Cons)
  qed (use 2 in \<open>simp add: Let_def\<close>)
qed simp

lemma add_paths_full:
  assumes "segs \<noteq> []" and "\<forall>seg \<in> set segs. seg \<noteq> []"
  shows "join ''/'' segs \<in> set (add_paths [] segs cats)"
proof (cases segs)
  case (Cons seg rest)
  show ?thesis
  proof (cases "rest = []")
    case False
    with Cons assms show ?thesis
      using add_paths_last [of seg rest "bs_insert seg cats"] by (simp add: Let_def join_Cons)
  qed (simp add: Cons Let_def)
qed (use assms in simp)

definition path_ok :: "string \<Rightarrow> bool" where
  "path_ok p \<longleftrightarrow> p \<noteq> [] \<and> (\<forall>seg \<in> set (split_on (CHR ''/'') p). check_segment seg = None)"

lemma segment_char:
  assumes "is_ascii_lowercase ch \<or> is_ascii_digit ch \<or> ch \<in> set ''-_.@!/''"
  shows "char_in 33 126 ch \<and> \<not> char_in 65 90 ch"
  using assms by (elim disjE) (simp_all add: is_ascii_lowercase_def is_ascii_digit_def char_in_def, auto)

lemma path_chars: "path_ok p \<Longrightarrow> ch \<in> set p \<Longrightarrow> char_in 33 126 ch \<and> \<not> char_in 65 90 ch"
proof -
  assume ok: "path_ok p" and ch: "ch \<in> set p"
  have "set (join ''/'' segs) \<subseteq> \<Union> (set ` set segs) \<union> {CHR ''/''}" for segs
  proof (induction segs)
    case (Cons a segs)
    then show ?case by (cases "segs = []") (auto simp: join_Cons)
  qed simp
  from this [of "split_on (CHR ''/'') p"] ch
  have "ch = CHR ''/'' \<or> (\<exists>seg \<in> set (split_on (CHR ''/'') p). ch \<in> set seg)" by auto
  then have "is_ascii_lowercase ch \<or> is_ascii_digit ch \<or> ch \<in> set ''-_.@!/''"
  proof
    assume "\<exists>seg \<in> set (split_on (CHR ''/'') p). ch \<in> set seg"
    then obtain seg where "seg \<in> set (split_on (CHR ''/'') p)" and seg: "ch \<in> set seg" by blast
    then have "check_segment seg = None" using ok by (simp add: path_ok_def)
    then have "list_all (\<lambda>ch. is_ascii_lowercase ch \<or> is_ascii_digit ch \<or> ch \<in> set ''-_.@!'') seg"
      unfolding check_segment_def by (metis option.distinct(1))
    then show ?thesis using seg by (auto simp: list_all_iff)
  qed simp
  then show ?thesis by (rule segment_char)
qed

lemma trim_matches_id: "s \<noteq> [] \<Longrightarrow> hd s \<noteq> c \<Longrightarrow> last s \<noteq> c \<Longrightarrow> trim_matches c s = s"
proof -
  assume s: "s \<noteq> []" "hd s \<noteq> c" "last s \<noteq> c"
  have "dropWhile ((=) c) s = s" using s(2) by (metis dropWhile_eq_self_iff)
  moreover have "dropWhile ((=) c) (rev s) = rev s" using s(1,3) by (metis dropWhile_eq_self_iff hd_rev)
  ultimately show ?thesis by (simp add: trim_matches_def trim_end_matches_def trim_start_matches_def)
qed

lemma split_ends:
  assumes "\<forall>seg \<in> set (split_on c s). seg \<noteq> []"
  shows "hd s \<noteq> c" and "last s \<noteq> c"
proof -
  have ne: "s \<noteq> []" using assms by auto
  show "hd s \<noteq> c" using assms ne by (cases s) (auto split: if_splits)
  show "last s \<noteq> c"
  proof
    assume "last s = c"
    then obtain t where "s = t @ [c]" using ne by (metis append_butlast_last_id)
    then have "[] \<in> set (split_on c s)" using split_on_append_sep [of c t "[]"] by simp
    then show False using assms by blast
  qed
qed

lemma normalize_path: "path_ok p \<Longrightarrow> normalize_category p = p"
proof -
  assume ok: "path_ok p"
  note chars = path_chars [OF ok]
  have "visible p" using chars by (simp add: visible_def list_all_iff)
  then have "trim p = p" by (rule trim_visible)
  moreover have "\<forall>seg \<in> set (split_on (CHR ''/'') p). seg \<noteq> []"
    using ok by (auto simp: path_ok_def check_segment_def split: if_splits)
  then have "trim_matches (CHR ''/'') p = p"
    using ok by (intro trim_matches_id) (auto simp: path_ok_def dest: split_ends)
  moreover have "to_ascii_lowercase p = p"
    using chars by (auto simp: to_ascii_lowercase_def to_lower_char_def intro!: map_idI)
  ultimately show ?thesis by (simp add: normalize_category_def)
qed

lemma add_category_Inr:
  assumes "add_category p B = (Inr c, B')"
  shows "c = normalize_category p" and "path_ok c"
    and "B' = B\<lparr>bb_categories := add_paths [] (split_on (CHR ''/'') c) (bb_categories B)\<rparr>"
  using assms by (auto simp: add_category_def Let_def path_ok_def split: if_splits option.splits)

lemma add_category_again:
  assumes "path_ok c"
  shows "add_category c B = (Inr c, B\<lparr>bb_categories := add_paths [] (split_on (CHR ''/'') c) (bb_categories B)\<rparr>)"
proof -
  have none: "first_error check_segment (split_on (CHR ''/'') c) = None" using assms by (simp add: path_ok_def)
  have "c \<noteq> []" using assms by (simp add: path_ok_def)
  then show ?thesis by (simp add: add_category_def normalize_path [OF assms] none del: first_error_None)
qed

lemma path_added: "path_ok c \<Longrightarrow> c \<in> set (add_paths [] (split_on (CHR ''/'') c) cats)"
  using add_paths_full [of "split_on (CHR ''/'') c" cats]
  by (auto simp: path_ok_def check_segment_def split: if_splits)

section \<open>Tables\<close>

lemma text_holds_get: "bt_ok ts \<Longrightarrow> text_holds ts P x \<longleftrightarrow> (\<exists>t. P t \<and> x \<in> set (bt_get [] ts t))"
proof -
  assume ok: "bt_ok ts"
  have get: "x \<in> set (bt_get [] ts t) \<longleftrightarrow> (\<exists>cs. map_of ts t = Some cs \<and> x \<in> set cs)" for t
    by (cases "map_of ts t") (simp_all add: bt_get_def)
  show ?thesis unfolding get bt_ok_map_of [OF ok] text_holds_def by blast
qed

lemma text_holds_entry:
  "bt_ok ts \<Longrightarrow> text_holds (bt_entry k [] (bs_insert c) ts) P x \<longleftrightarrow> text_holds ts P x \<or> P k \<and> x = c"
proof -
  assume ok: "bt_ok ts"
  have "x \<in> set (bt_get [] (bt_entry k [] (bs_insert c) ts) t) \<longleftrightarrow> x \<in> set (bt_get [] ts t) \<or> t = k \<and> x = c" for t
    by (auto simp: bt_get_entry [OF ok])
  then show ?thesis unfolding text_holds_get [OF ok] text_holds_get [OF bt_ok_entry [OF ok]] by blast
qed

lemma range_holds_append: "range_holds (rs @ [(s, e, c)]) a x \<longleftrightarrow> range_holds rs a x \<or> s \<le> a \<and> a \<le> e \<and> c = x"
  by (auto simp: range_holds_def)

section \<open>What a rule of a book means\<close>

text \<open>A rule with one of the three prefixes is about names; any other rule that reads as a network or address is about addresses.\<close>

definition typed_rule :: "string \<Rightarrow> bool" where
  "typed_rule t \<longleftrightarrow> prefix ''full:'' t \<or> prefix ''keyword:'' t \<or> prefix ''domain:'' t"

text \<open>The addresses a lookup does not distinguish: an IPv4 address and its IPv6-mapped form.\<close>

definition address_forms :: "ip_addr \<Rightarrow> ip_addr set" where
  "address_forms ip =
     (case canonical_ip ip of V4 a \<Rightarrow> {V4 a, V6 (IPV4_MAPPED_START + ucast a)} | V6 a \<Rightarrow> {V6 a})"

definition book_entry_hits :: "'n ip_net \<Rightarrow> string \<Rightarrow> string \<Rightarrow> bool" where
  "book_entry_hits N rule host =
     (let t = trim rule
      in case parse_ip_addr host of
           Some ip \<Rightarrow> \<not> typed_rule t \<and> (\<exists>a \<in> address_forms ip. ip_rule_hits N t a)
         | None \<Rightarrow> (typed_rule t \<or> \<not> is_ip_rule N t) \<and> normalize host \<noteq> [] \<and> domain_rule_hits t (normalize host))"

text \<open>Documented behaviour of the network type: its bounds are of its family and it contains what lies between them.\<close>

definition net_bounds_ok :: "'n ip_net \<Rightarrow> 'n net_bounds \<Rightarrow> bool" where
  "net_bounds_ok N NB \<longleftrightarrow> (\<forall>net.
     if inet_is_v4 N net
     then \<exists>lo hi. nb_network NB net = V4 lo \<and> nb_broadcast NB net = V4 hi \<and> lo \<le> hi \<and>
       (\<forall>a. inet_contains N net a \<longleftrightarrow> (\<exists>x. a = V4 x \<and> lo \<le> x \<and> x \<le> hi))
     else \<exists>lo hi. nb_network NB net = V6 lo \<and> nb_broadcast NB net = V6 hi \<and> lo \<le> hi \<and>
       (\<forall>a. inet_contains N net a \<longleftrightarrow> (\<exists>x. a = V6 x \<and> lo \<le> x \<and> x \<le> hi)))"

definition builder_wf :: "book_builder \<Rightarrow> bool" where
  "builder_wf B \<longleftrightarrow> builder_ok B \<and> bt_ok (bb_exact B) \<and> bt_ok (bb_suffix B) \<and> bt_ok (bb_keywords B)"

text \<open>A step of the builder that makes a category answer to more hosts.\<close>

definition adds :: "book_builder \<Rightarrow> book_builder \<Rightarrow> string \<Rightarrow> (string \<Rightarrow> bool) \<Rightarrow> bool" where
  "adds B B' c P \<longleftrightarrow> builder_wf B' \<and> set (bb_categories B) \<subseteq> set (bb_categories B') \<and> c \<in> set (bb_categories B') \<and>
     (\<forall>host x. builder_hits B' host x \<longleftrightarrow> builder_hits B host x \<or> x = c \<and> P host)"

lemma add_domain_exact_adds:
  assumes "add_domain_exact c host B = (Inr (), B')" and "path_ok c" and "builder_wf B"
  shows "adds B B' c (\<lambda>h. parse_ip_addr h = None \<and> normalize_domain h \<noteq> [] \<and> normalize_domain h = normalize_domain host)"
proof -
  have B': "B' = B\<lparr>bb_categories := add_paths [] (split_on (CHR ''/'') c) (bb_categories B),
      bb_exact := bt_entry (normalize_domain host) [] (bs_insert c) (bb_exact B)\<rparr>"
    using assms(1) by (simp add: add_domain_exact_def add_category_again [OF assms(2)] and_try_def Let_def split: if_splits)
  then show ?thesis
    using assms(3) add_paths_keeps path_added [OF assms(2)]
    by (auto simp: adds_def builder_wf_def builder_ok_def builder_hits_def Let_def text_holds_entry
        split: option.split ip_addr.split)
qed

lemma add_keyword_adds:
  assumes "add_keyword c frag B = (Inr (), B')" and "path_ok c" and "builder_wf B"
  shows "normalize_domain frag \<noteq> [] \<and>
    adds B B' c (\<lambda>h. parse_ip_addr h = None \<and> normalize_domain h \<noteq> [] \<and> sublist (normalize_domain frag) (normalize_domain h))"
proof -
  have B': "normalize_domain frag \<noteq> []" "B' = B\<lparr>bb_categories := add_paths [] (split_on (CHR ''/'') c) (bb_categories B),
      bb_keywords := bt_entry (normalize_domain frag) [] (bs_insert c) (bb_keywords B)\<rparr>"
    using assms(1) by (simp_all add: add_keyword_def add_category_again [OF assms(2)] and_try_def Let_def split: if_splits)
  then show ?thesis
    using assms(3) add_paths_keeps path_added [OF assms(2)]
    by (auto simp: adds_def builder_wf_def builder_ok_def builder_hits_def Let_def text_holds_entry
        split: option.split ip_addr.split)
qed

lemma normalize_same: "normalize_domain = normalize"
  by (simp add: fun_eq_iff normalize_domain_def normalize_def)

lemma suffix_labels: "prefix (split_on (CHR ''.'') (reverse_labels s)) (rev (split_on (CHR ''.'') n)) \<longleftrightarrow> under_suffix s n"
proof -
  have "split_on (CHR ''.'') (reverse_labels s) = labels_rev s"
    unfolding reverse_labels_def labels_rev_def by (rule split_on_join) (auto dest: split_on_segments)
  then show ?thesis using labels_under_suffix [of s n] by (simp add: labels_rev_def)
qed

lemma add_domain_suffix_adds:
  assumes "add_domain_suffix c host B = (Inr (), B')" and "path_ok c" and "builder_wf B"
  shows "suffix_pattern host \<noteq> [] \<and>
    adds B B' c (\<lambda>h. parse_ip_addr h = None \<and> normalize_domain h \<noteq> [] \<and> under_suffix (suffix_pattern host) (normalize_domain h))"
proof -
  have B': "suffix_pattern host \<noteq> []" "B' = B\<lparr>bb_categories := add_paths [] (split_on (CHR ''/'') c) (bb_categories B),
      bb_suffix := bt_entry (reverse_labels (suffix_pattern host)) [] (bs_insert c) (bb_suffix B)\<rparr>"
    using assms(1) by (simp_all add: add_domain_suffix_def add_category_again [OF assms(2)] and_try_def Let_def
        suffix_pattern_def normalize_same split: if_splits)
  then show ?thesis
    using assms(3) add_paths_keeps path_added [OF assms(2)]
    by (auto simp: adds_def builder_wf_def builder_ok_def builder_hits_def Let_def text_holds_entry suffix_labels
        split: option.split ip_addr.split)
qed

section \<open>Address rules\<close>

definition in_pieces :: "(u128 \<times> u128 \<times> bool) list \<Rightarrow> ip_addr \<Rightarrow> bool" where
  "in_pieces ps ip =
     (case ip of
        V4 a \<Rightarrow> (\<exists>(s, e, v4) \<in> set ps. v4 \<and> s \<le> ucast a \<and> ucast a \<le> e)
      | V6 a \<Rightarrow> (\<exists>(s, e, v4) \<in> set ps. \<not> v4 \<and> s \<le> a \<and> a \<le> e))"

lemma push_range_hits:
  "builder_hits (push_range c (s, e, v4) B) h x \<longleftrightarrow>
     builder_hits B h x \<or> x = c \<and> (\<exists>ip. parse_ip_addr h = Some ip \<and> in_pieces [(s, e, v4)] (canonical_ip ip))"
  by (auto simp: push_range_def builder_hits_def in_pieces_def range_holds_append Let_def
      split: option.splits ip_addr.splits)

lemma push_range_wf: "builder_wf B \<Longrightarrow> s \<le> e \<Longrightarrow> builder_wf (push_range c (s, e, v4) B)"
  by (auto simp: builder_wf_def builder_ok_def push_range_def)

lemma in_pieces_Cons: "in_pieces (p # ps) ip \<longleftrightarrow> in_pieces [p] ip \<or> in_pieces ps ip"
  by (auto simp: in_pieces_def split: ip_addr.split)

lemma fold_push_range:
  "builder_wf B \<Longrightarrow> \<forall>(s, e, v4) \<in> set ps. s \<le> e \<Longrightarrow>
     builder_wf (fold (push_range c) ps B) \<and> bb_categories (fold (push_range c) ps B) = bb_categories B \<and>
     (\<forall>h x. builder_hits (fold (push_range c) ps B) h x \<longleftrightarrow>
       builder_hits B h x \<or> x = c \<and> (\<exists>ip. parse_ip_addr h = Some ip \<and> in_pieces ps (canonical_ip ip)))"
proof (induction ps arbitrary: B)
  case Nil
  have "\<not> in_pieces [] ip" for ip by (cases ip) (simp_all add: in_pieces_def)
  with Nil show ?case by simp
next
  case (Cons p ps)
  obtain s e v4 where p: "p = (s, e, v4)" by (cases p)
  have cats: "bb_categories (push_range c p B) = bb_categories B" by (simp add: push_range_def p)
  have "builder_wf (push_range c p B)" using Cons.prems by (simp add: p push_range_wf)
  from Cons.IH [OF this] Cons.prems(2) show ?case
    by (simp add: cats in_pieces_Cons [of p ps]) (auto simp: p push_range_hits)
qed

lemma unat_mapped: "unat (IPV4_MAPPED_START + ucast (v :: u32)) = 0xffff * 2 ^ 32 + unat v"
proof -
  have "unat v < 2 ^ 32" using unsigned_less [where ?'a = nat, of v] by simp
  then show ?thesis
    by (simp add: mapped_bounds unat_word_ariths unsigned_ucast_eq take_bit_nat_eq_self)
qed

lemma div_mod_number:
  fixes n q r m :: nat
  assumes "r < n"
  shows "m div n = q \<and> m mod n = r \<longleftrightarrow> m = q * n + r"
  using assms by (metis add.commute div_mult_mod_eq div_mult_self1 div_less mod_less mod_mult_self1 add_0 not_less_zero)

lemma mapped_value: "to_ipv4_mapped a = Some v \<longleftrightarrow> a = IPV4_MAPPED_START + ucast v"
proof -
  have top: "drop_bit 32 a = 0xffff \<longleftrightarrow> unat a div 2 ^ 32 = 0xffff"
    using unsigned_less [where ?'a = nat, of a]
    by (simp add: word_unat_eq_iff unsigned_drop_bit_eq drop_bit_nat_def take_bit_nat_eq_self)
  have low: "(ucast a :: u32) = v \<longleftrightarrow> unat a mod 2 ^ 32 = unat v"
    by (simp add: word_unat_eq_iff unsigned_ucast_eq take_bit_nat_def)
  have "unat v < 2 ^ 32" using unsigned_less [where ?'a = nat, of v] by simp
  then have "unat a div 2 ^ 32 = 0xffff \<and> unat a mod 2 ^ 32 = unat v \<longleftrightarrow> unat a = 0xffff * 2 ^ 32 + unat v"
    by (rule div_mod_number)
  then show ?thesis
    unfolding word_unat_eq_iff [of a] unat_mapped to_ipv4_mapped_def using top low by auto
qed

lemma mapped_numbers:
  "unat IPV4_MAPPED_START = 0xffff00000000" "unat IPV4_MAPPED_END = 0xffffffffffff"
  "unat (IPV4_MAPPED_START - 1) = 0xfffeffffffff" "unat (IPV4_MAPPED_END + 1) = 0x1000000000000"
  by (simp_all add: mapped_bounds)

lemma mapped_range: "to_ipv4_mapped a = None \<longleftrightarrow> a < IPV4_MAPPED_START \<or> IPV4_MAPPED_END < a"
proof (cases "to_ipv4_mapped a")
  case (Some v)
  have "unat v < 2 ^ 32" using unsigned_less [where ?'a = nat, of v] by simp
  moreover have "unat a = 0xffff * 2 ^ 32 + unat v" using Some unfolding mapped_value by (simp only: unat_mapped)
  ultimately show ?thesis using Some by (simp add: word_less_nat_alt mapped_numbers)
next
  case None
  define v :: u32 where "v = word_of_nat (unat a - 0xffff00000000)"
  have "a = IPV4_MAPPED_START + ucast v" if a: "\<not> (a < IPV4_MAPPED_START \<or> IPV4_MAPPED_END < a)"
  proof -
    have a: "0xffff00000000 \<le> unat a" "unat a \<le> 0xffffffffffff"
      using that unfolding word_less_nat_alt mapped_numbers by linarith+
    then have "unat a - 0xffff00000000 < 2 ^ 32" by simp
    then have "unat v = unat a - 0xffff00000000" unfolding v_def by (simp add: of_nat_inverse)
    then have "unat a = unat (IPV4_MAPPED_START + ucast v)" using a unfolding unat_mapped by simp
    then show ?thesis by (simp only: word_unat_eq_iff [symmetric])
  qed
  then show ?thesis using None mapped_value [of a v] by auto
qed

lemma unat_minus: "b \<le> a \<Longrightarrow> unat (a - b) = unat a - unat (b :: u128)"
  by (rule unat_sub)

lemma piece_order: "L \<le> H \<Longrightarrow> s \<le> H \<Longrightarrow> L \<le> e \<Longrightarrow> s \<le> e \<Longrightarrow> max L s - s \<le> min H e - (s :: nat)"
  by (intro diff_le_mono) simp

lemma piece_member:
  "s \<le> H \<Longrightarrow> s + v \<le> e \<Longrightarrow> max L s - s \<le> v \<and> v \<le> min H e - s \<longleftrightarrow> L \<le> s + v \<and> s + v \<le> (H :: nat)"
  by (auto simp: max_def min_def)

lemma canonical_pieces:
  assumes "lo \<le> hi"
  shows "\<forall>(s, e, v4) \<in> set (canonicalize_ip_range (lo, hi, False)). s \<le> e"
    and "in_pieces (canonicalize_ip_range (lo, hi, False)) (V4 v) \<longleftrightarrow>
      lo \<le> IPV4_MAPPED_START + ucast v \<and> IPV4_MAPPED_START + ucast v \<le> hi"
    and "to_ipv4_mapped a = None \<Longrightarrow>
      in_pieces (canonicalize_ip_range (lo, hi, False)) (V6 a) \<longleftrightarrow> lo \<le> a \<and> a \<le> hi"
proof -
  let ?S = IPV4_MAPPED_START and ?E = IPV4_MAPPED_END
  have v: "unat v < 2 ^ 32" using unsigned_less [where ?'a = nat, of v] by simp
  have order: "unat lo \<le> unat hi" using assms by (simp only: word_le_nat_alt)
  have uv: "unat (ucast v :: u128) = unat v" using v by (simp add: unsigned_ucast_eq take_bit_nat_eq_self)
  have low: "unat (max lo ?S - ?S) = max (unat lo) 0xffff00000000 - 0xffff00000000"
    by (subst unat_minus) (simp_all add: mapped_numbers max_def word_le_nat_alt)
  have high: "unat (min hi ?E - ?S) = min (unat hi) 0xffffffffffff - 0xffff00000000" if "\<not> hi < ?S"
    using that by (subst unat_minus) (simp_all add: mapped_numbers min_def word_le_nat_alt word_less_nat_alt)
  note nums = word_le_nat_alt word_less_nat_alt mapped_numbers unat_mapped uv
  have mid: "max lo ?S - ?S \<le> min hi ?E - ?S" if "\<not> hi < ?S" "\<not> ?E < lo"
    unfolding word_le_nat_alt low high [OF that(1)] by (rule piece_order) (use order that in \<open>auto simp: nums\<close>)
  show "\<forall>(s, e, v4) \<in> set (canonicalize_ip_range (lo, hi, False)). s \<le> e"
    using order mid by (auto simp: canonicalize_ip_range_def nums)
  have member: "max lo ?S - ?S \<le> ucast v \<and> ucast v \<le> min hi ?E - ?S \<longleftrightarrow> lo \<le> ?S + ucast v \<and> ?S + ucast v \<le> hi"
    if "\<not> hi < ?S"
    unfolding word_le_nat_alt low high [OF that] uv unat_mapped
    using piece_member [of "0xffff00000000" "unat hi" "unat v" "0xffffffffffff" "unat lo"] v that
    by (simp add: nums)
  show "in_pieces (canonicalize_ip_range (lo, hi, False)) (V4 v) \<longleftrightarrow> lo \<le> ?S + ucast v \<and> ?S + ucast v \<le> hi"
  proof (cases "hi < ?S \<or> ?E < lo")
    case True
    then show ?thesis using v by (auto simp: canonicalize_ip_range_def in_pieces_def nums)
  next
    case False
    then show ?thesis using member by (auto simp: canonicalize_ip_range_def in_pieces_def)
  qed
  show "to_ipv4_mapped a = None \<Longrightarrow>
      in_pieces (canonicalize_ip_range (lo, hi, False)) (V6 a) \<longleftrightarrow> lo \<le> a \<and> a \<le> hi"
    unfolding mapped_range using order by (auto simp: canonicalize_ip_range_def in_pieces_def nums)
qed

lemma unat_ucast_up: "unat (ucast (a :: u32) :: u128) = unat a"
  using unsigned_less [where ?'a = nat, of a] by (simp add: unsigned_ucast_eq take_bit_nat_eq_self)

lemma canonical_V6: "canonical_ip ip = V6 a \<Longrightarrow> to_ipv4_mapped a = None"
  by (auto simp: canonical_ip_def split: ip_addr.splits option.splits)

lemma range_pieces_v4:
  assumes "lo \<le> hi"
  shows "\<forall>(s, e, v4) \<in> set (canonicalize_ip_range (ucast lo, ucast hi, True)). s \<le> e"
    and "in_pieces (canonicalize_ip_range (ucast lo, ucast hi, True)) (canonical_ip ip) \<longleftrightarrow>
      (\<exists>a \<in> address_forms ip. \<exists>x. a = V4 x \<and> lo \<le> x \<and> x \<le> hi)"
  using assms
  by (auto simp: canonicalize_ip_range_def in_pieces_def address_forms_def word_le_nat_alt unat_ucast_up split: ip_addr.split)

lemma range_pieces_v6:
  assumes "lo \<le> hi"
  shows "in_pieces (canonicalize_ip_range (lo, hi, False)) (canonical_ip ip) \<longleftrightarrow>
      (\<exists>a \<in> address_forms ip. \<exists>x. a = V6 x \<and> lo \<le> x \<and> x \<le> hi)"
proof (cases "canonical_ip ip")
  case (V4 v)
  then show ?thesis using canonical_pieces(2) [OF assms, of v] by (simp add: address_forms_def)
next
  case (V6 a)
  then show ?thesis using canonical_pieces(3) [OF assms canonical_V6 [OF V6]] by (simp add: address_forms_def)
qed

lemma parse_ip_entries_hits:
  assumes "net_bounds_ok N NB" and "parse_ip_entries N NB t = Some ps"
  shows "(\<forall>(s, e, v4) \<in> set ps. s \<le> e) \<and> is_ip_rule N t \<and>
    (in_pieces ps (canonical_ip ip) \<longleftrightarrow> (\<exists>a \<in> address_forms ip. ip_rule_hits N t a))"
proof (cases "inet_parse N (trim t)")
  case (Some net)
  then have ps: "ps = canonicalize_ip_range
      (ip_number (nb_network NB net), ip_number (nb_broadcast NB net), inet_is_v4 N net)"
    using assms(2) by (simp add: parse_ip_entries_def)
  have hits: "ip_rule_hits N t a \<longleftrightarrow> inet_contains N net a" for a using Some by (simp add: ip_rule_hits_def)
  have kind: "is_ip_rule N t" using Some by (simp add: is_ip_rule_def)
  show ?thesis
  proof (cases "inet_is_v4 N net")
    case True
    then obtain lo hi where "nb_network NB net = V4 lo" "nb_broadcast NB net = V4 hi" "lo \<le> hi"
      "\<forall>a. inet_contains N net a \<longleftrightarrow> (\<exists>x. a = V4 x \<and> lo \<le> x \<and> x \<le> hi)"
      using assms(1) unfolding net_bounds_ok_def by metis
    then show ?thesis using True kind by (simp add: ps hits range_pieces_v4)
  next
    case False
    then obtain lo hi where "nb_network NB net = V6 lo" "nb_broadcast NB net = V6 hi" "lo \<le> hi"
      "\<forall>a. inet_contains N net a \<longleftrightarrow> (\<exists>x. a = V6 x \<and> lo \<le> x \<and> x \<le> hi)"
      using assms(1) unfolding net_bounds_ok_def by metis
    then show ?thesis using False kind by (simp add: ps hits range_pieces_v6 canonical_pieces(1))
  qed
next
  case None
  then obtain addr where addr: "parse_ip_addr (trim t) = Some addr"
    and ps: "ps = canonicalize_ip_range (ip_number addr, ip_number addr, case addr of V4 _ \<Rightarrow> True | V6 _ \<Rightarrow> False)"
    using assms(2) by (auto simp: parse_ip_entries_def split: option.splits)
  have hits: "ip_rule_hits N t a \<longleftrightarrow> addr = a" for a using None addr by (simp add: ip_rule_hits_def)
  have kind: "is_ip_rule N t" using addr by (simp add: is_ip_rule_def)
  show ?thesis
  proof (cases addr)
    case (V4 x)
    have "(\<exists>a \<in> address_forms ip. addr = a) \<longleftrightarrow> (\<exists>a \<in> address_forms ip. \<exists>y. a = V4 y \<and> x \<le> y \<and> y \<le> x)"
      by (auto simp: V4)
    then show ?thesis using kind range_pieces_v4 [of x x] by (simp add: V4 ps hits)
  next
    case (V6 x)
    have "(\<exists>a \<in> address_forms ip. addr = a) \<longleftrightarrow> (\<exists>a \<in> address_forms ip. \<exists>y. a = V6 y \<and> x \<le> y \<and> y \<le> x)"
      by (auto simp: V6)
    then show ?thesis using kind range_pieces_v6 [of x x] canonical_pieces(1) [of x x] by (simp add: V6 ps hits)
  qed
qed

lemma parse_ip_entries_None: "parse_ip_entries N NB t = None \<longleftrightarrow> \<not> is_ip_rule N t"
  by (simp add: parse_ip_entries_def is_ip_rule_def Let_def split: option.split)

section \<open>Adding rules\<close>

lemma strip_prefix_Some: "strip_prefix t p = Some r \<longleftrightarrow> t = p @ r"
  by (auto simp: strip_prefix_def prefix_def)

lemma strip_prefix_None: "strip_prefix t p = None \<longleftrightarrow> \<not> prefix p t"
  by (simp add: strip_prefix_def)

lemma typed_hits:
  "domain_rule_hits (''full:'' @ r) n \<longleftrightarrow> n = normalize r"
  "domain_rule_hits (''keyword:'' @ r) n \<longleftrightarrow> normalize r \<noteq> [] \<and> sublist (normalize r) n"
  "domain_rule_hits (''domain:'' @ r) n \<longleftrightarrow> suffix_pattern r \<noteq> [] \<and> under_suffix (suffix_pattern r) n"
  by (simp_all add: domain_rule_hits_def rule_parts_def)

lemma untyped_parts:
  assumes "\<not> prefix ''full:'' t" and "\<not> prefix ''keyword:'' t" and "rule_parts t = (k, p)"
  shows "k \<noteq> ''full'' \<and> k \<noteq> ''keyword'' \<and>
    p = (case split_once (CHR '':'') t of Some (_, pattern) \<Rightarrow> pattern | None \<Rightarrow> t)"
proof (cases "split_once (CHR '':'') t")
  case (Some kp)
  then have "t = k @ CHR '':'' # p" "kp = (k, p)" using assms(3) by (auto simp: rule_parts_def split_once_eq_Some)
  then show ?thesis using assms(1,2) Some by auto
qed (use assms(3) in \<open>auto simp: rule_parts_def\<close>)

lemma adds_cong: "adds B B' c P \<Longrightarrow> (\<And>h. P h = Q h) \<Longrightarrow> adds B B' c Q"
  by (simp add: adds_def)

lemma builder_hits_categories [simp]: "builder_hits (B\<lparr>bb_categories := cats\<rparr>) = builder_hits B"
  by (intro ext) (simp add: builder_hits_def Let_def split: option.split ip_addr.split)

lemma adds_after:
  assumes "adds B1 B' c P" and "B1 = B\<lparr>bb_categories := cats\<rparr>" and "set (bb_categories B) \<subseteq> set cats"
  shows "adds B B' c P"
  using assms by (auto simp: adds_def)

lemma add_rule_adds:
  assumes added: "add_rule N NB cat rule B = (Inr (), B')" and N: "net_bounds_ok N NB" and wf: "builder_wf B"
  shows "adds B B' (normalize_category cat) (book_entry_hits N rule)"
proof -
  let ?t = "trim rule"
  obtain c B1 where c: "add_category cat B = (Inr c, B1)"
    using added by (auto simp: add_rule_def and_try_def split: prod.splits sum.splits)
  note cat = add_category_Inr [OF c]
  have wf1: "builder_wf B1" using wf by (simp add: cat(3) builder_wf_def builder_ok_def)
  have ne: "?t \<noteq> []" using added by (auto simp: add_rule_def and_try_def c Let_def)
  note unfold = added [unfolded add_rule_def and_try_def c, simplified, unfolded Let_def, simplified ne if_False]
  have "adds B1 B' c (book_entry_hits N rule)"
  proof (cases "typed_rule ?t")
    case True
    have None_case: "book_entry_hits N rule h \<longleftrightarrow>
        parse_ip_addr h = None \<and> normalize_domain h \<noteq> [] \<and> domain_rule_hits ?t (normalize_domain h)" for h
      using True by (cases "parse_ip_addr h") (simp_all add: book_entry_hits_def normalize_same)
    from True consider (full) r where "?t = ''full:'' @ r" | (kw) r where "?t = ''keyword:'' @ r"
      | (dom) r where "?t = ''domain:'' @ r" by (auto simp: typed_rule_def prefix_def)
    then show ?thesis
    proof cases
      case full
      then have "add_domain_exact c r B1 = (Inr (), B')" using unfold by (simp add: strip_prefix_def)
      from add_domain_exact_adds [OF this cat(2) wf1] show ?thesis
        by (rule adds_cong) (unfold None_case full typed_hits normalize_same, blast)
    next
      case kw
      then have "add_keyword c r B1 = (Inr (), B')" using unfold by (simp add: strip_prefix_def)
      from add_keyword_adds [OF this cat(2) wf1] show ?thesis
        by (elim conjE adds_cong) (unfold None_case kw typed_hits normalize_same, blast)
    next
      case dom
      then have "add_domain_suffix c r B1 = (Inr (), B')" using unfold by (simp add: strip_prefix_def)
      from add_domain_suffix_adds [OF this cat(2) wf1] show ?thesis
        by (elim conjE adds_cong) (unfold None_case dom typed_hits normalize_same, blast)
    qed
  next
    case False
    then have no: "strip_prefix ?t ''full:'' = None" "strip_prefix ?t ''keyword:'' = None" "strip_prefix ?t ''domain:'' = None"
      by (auto simp: typed_rule_def strip_prefix_None)
    show ?thesis
    proof (cases "parse_ip_entries N NB ?t")
      case (Some ps)
      note hits = parse_ip_entries_hits [OF N Some]
      have "B' = fold (push_range c) ps B1" using unfold no Some by simp
      then show ?thesis
        using fold_push_range [OF wf1, of ps c] hits False cat(2) path_added [OF cat(2)]
        by (auto simp: adds_def book_entry_hits_def cat(3) split: option.splits)
    next
      case None
      obtain k p where parts: "rule_parts ?t = (k, p)" by (cases "rule_parts ?t")
      have kp: "k \<noteq> ''full'' \<and> k \<noteq> ''keyword'' \<and> p = (case split_once (CHR '':'') ?t of Some (_, pattern) \<Rightarrow> pattern | None \<Rightarrow> ?t)"
        by (rule untyped_parts [OF _ _ parts]) (use False in \<open>auto simp: typed_rule_def\<close>)
      have suf: "add_domain_suffix c p B1 = (Inr (), B')" using unfold no None kp by simp
      have entry: "book_entry_hits N rule h \<longleftrightarrow> parse_ip_addr h = None \<and> normalize h \<noteq> [] \<and> domain_rule_hits ?t (normalize h)" for h
        using False None ip_rule_hits_kind [of N ?t]
        by (cases "parse_ip_addr h") (auto simp: book_entry_hits_def parse_ip_entries_None)
      have meaning: "domain_rule_hits ?t n \<longleftrightarrow> suffix_pattern p \<noteq> [] \<and> under_suffix (suffix_pattern p) n" for n
        using kp by (simp add: domain_rule_hits_def parts)
      from add_domain_suffix_adds [OF suf cat(2) wf1] show ?thesis
        by (elim conjE adds_cong) (simp add: normalize_same entry meaning)
    qed
  qed
  then show ?thesis unfolding cat(1) [symmetric] by (rule adds_after [OF _ cat(3) add_paths_keeps])
qed

text \<open>Adding rules one after the other, stopping at the first that is refused.\<close>

fun add_rules ::
  "'n ip_net \<Rightarrow> 'n net_bounds \<Rightarrow> (string \<times> string) list \<Rightarrow> book_builder \<Rightarrow> builder_error + book_builder" where
  "add_rules N NB [] B = Inr B"
| "add_rules N NB ((cat, rule) # rules) B =
     (case add_rule N NB cat rule B of (Inl e, _) \<Rightarrow> Inl e | (Inr _, B) \<Rightarrow> add_rules N NB rules B)"

lemma add_rules_hits:
  "add_rules N NB rules B = Inr B' \<Longrightarrow> net_bounds_ok N NB \<Longrightarrow> builder_wf B \<Longrightarrow>
     builder_wf B' \<and> set (bb_categories B) \<subseteq> set (bb_categories B') \<and>
     (\<forall>(cat, rule) \<in> set rules. normalize_category cat \<in> set (bb_categories B')) \<and>
     (\<forall>host x. builder_hits B' host x \<longleftrightarrow>
       builder_hits B host x \<or> (\<exists>(cat, rule) \<in> set rules. normalize_category cat = x \<and> book_entry_hits N rule host))"
proof (induction N NB rules B rule: add_rules.induct)
  case (2 N NB cat rule rules B)
  then obtain B1 where B1: "add_rule N NB cat rule B = (Inr (), B1)" and rest: "add_rules N NB rules B1 = Inr B'"
    by (auto split: prod.splits sum.splits)
  note one = add_rule_adds [OF B1 "2.prems"(2,3)]
  then have "builder_wf B1" by (simp add: adds_def)
  from "2.IH" [OF B1 [symmetric] refl rest "2.prems"(2) this]
  have ih: "builder_wf B'" "set (bb_categories B1) \<subseteq> set (bb_categories B')"
    "\<forall>(cat, rule) \<in> set rules. normalize_category cat \<in> set (bb_categories B')"
    "\<And>host x. builder_hits B' host x \<longleftrightarrow>
       builder_hits B1 host x \<or> (\<exists>(cat, rule) \<in> set rules. normalize_category cat = x \<and> book_entry_hits N rule host)"
    by blast+
  have "builder_hits B1 host x \<longleftrightarrow> builder_hits B host x \<or> x = normalize_category cat \<and> book_entry_hits N rule host" for host x
    using one by (simp add: adds_def)
  with ih one show ?case unfolding ih(4) by (auto simp: adds_def)
qed simp

lemma builder_new_wf: "builder_wf (builder_new epoch)" and builder_new_hits: "\<not> builder_hits (builder_new epoch) host x"
  by (auto simp: builder_wf_def builder_ok_def builder_new_def builder_hits_def range_holds_def text_holds_def Let_def
      split: option.split ip_addr.split)

text \<open>
  C10: a book built from rules says what the rules say. If every rule of a list is accepted and the
  book is built, the book passes validation, and the categories it reports for a host are exactly
  the normalized categories of the rules that name the host: an address rule whose network or
  address contains the host's address, an IPv4 address and its IPv6-mapped form being one address,
  or a name rule read as the routing rules read it. Overlapping, adjacent and nested ranges, ranges
  across the mapped block and shared category sets change nothing.
\<close>

theorem built_book_says_rules:
  assumes "net_bounds_ok N NB" and "add_rules N NB rules (builder_new epoch) = Inr B" and "build B = Inr raw"
  shows "validate raw = None \<and>
    (x \<in> set (lookup_categories (from_raw raw digest) host) \<longleftrightarrow>
      (\<exists>(cat, rule) \<in> set rules. normalize_category cat = x \<and> book_entry_hits N rule host))"
proof -
  let ?b = "from_raw raw digest" and ?cats = "bb_categories B"
  note B = add_rules_hits [OF assms(2,1) builder_new_wf]
  then have ok: "builder_ok B" by (simp add: builder_wf_def)
  note holds = build_holds [OF assms(3) ok]
  have valid: "validate raw = None" using assms(3) by (rule build_parts)
  have wf: "book_wf ?b" using holds(1) by (simp add: book_wf_def from_raw_def)
  have names: "n_cats ?b = length ?cats" "i < length ?cats \<Longrightarrow> cat_name ?b i = ?cats ! i" for i
    by (simp_all add: from_raw_def flip: holds(2))
  have "x \<in> set (lookup_categories ?b host) \<longleftrightarrow> (\<exists>i < length ?cats. ?cats ! i = x \<and> builder_hits B host (?cats ! i))"
    unfolding lookup_categories_mem [OF wf] using names holds(3) [of host] by (auto simp: from_raw_def)
  also have "\<dots> \<longleftrightarrow> x \<in> set ?cats \<and> builder_hits B host x" by (auto simp: in_set_conv_nth)
  also have "\<dots> \<longleftrightarrow> (\<exists>(cat, rule) \<in> set rules. normalize_category cat = x \<and> book_entry_hits N rule host)"
    using B builder_new_hits by fastforce
  finally show ?thesis using valid by blast
qed

section \<open>A concrete book\<close>

definition demo_bounds :: "(u32 \<times> nat) net_bounds" where
  "demo_bounds =
     \<lparr>nb_network = (\<lambda>(n, len). V4 (word_of_nat (unat n div 2 ^ (32 - len) * 2 ^ (32 - len)))),
      nb_broadcast = (\<lambda>(n, len). V4 (word_of_nat (unat n div 2 ^ (32 - len) * 2 ^ (32 - len) + (2 ^ (32 - len) - 1))))\<rparr>"

lemma div_block: "0 < n \<Longrightarrow> m div n = q \<longleftrightarrow> q * n \<le> m \<and> m < q * n + (n :: nat)"
proof
  assume "0 < n" and "m div n = q"
  then have "q * n + m mod n = m" "m mod n < n" using div_mult_mod_eq [of m n] mod_less_divisor [of n m] by simp_all
  then show "q * n \<le> m \<and> m < q * n + n" by linarith
next
  assume "q * n \<le> m \<and> m < q * n + n"
  then show "m div n = q" by (intro div_nat_eqI) (simp_all add: mult.commute)
qed

lemma block_bounds:
  fixes x n :: u32
  assumes "k \<le> 32"
  defines "lo \<equiv> unat n div 2 ^ k * 2 ^ k"
  shows "word_of_nat lo \<le> (word_of_nat (lo + (2 ^ k - 1)) :: u32)"
    and "drop_bit k x = drop_bit k n \<longleftrightarrow> word_of_nat lo \<le> x \<and> x \<le> word_of_nat (lo + (2 ^ k - 1))"
proof -
  have "unat n < 2 ^ (32 - k) * 2 ^ k"
    using unsigned_less [where ?'a = nat, of n] assms(1) by (simp flip: power_add)
  then have "unat n div 2 ^ k < 2 ^ (32 - k)" by (simp add: less_mult_imp_div_less)
  then have "(unat n div 2 ^ k + 1) * 2 ^ k \<le> 2 ^ (32 - k) * 2 ^ k" by (intro mult_le_mono1) simp
  then have "lo + 2 ^ k \<le> 2 ^ 32" using assms(1) by (simp add: lo_def flip: power_add)
  moreover have "(0 :: nat) < 2 ^ k" by simp
  ultimately have "lo < 2 ^ 32" "lo + (2 ^ k - 1) < 2 ^ 32" by linarith+
  then have ends: "unat (word_of_nat lo :: u32) = lo" "unat (word_of_nat (lo + (2 ^ k - 1)) :: u32) = lo + (2 ^ k - 1)"
    by (simp_all add: of_nat_inverse del: of_nat_add)
  show "word_of_nat lo \<le> (word_of_nat (lo + (2 ^ k - 1)) :: u32)" unfolding word_le_nat_alt ends by (rule le_add1)
  have "drop_bit k x = drop_bit k n \<longleftrightarrow> unat x div 2 ^ k = unat n div 2 ^ k"
    using unsigned_less [where ?'a = nat, of x] unsigned_less [where ?'a = nat, of n]
    by (simp add: word_unat_eq_iff unsigned_drop_bit_eq drop_bit_nat_def take_bit_nat_eq_self)
  also have "\<dots> \<longleftrightarrow> lo \<le> unat x \<and> unat x < lo + 2 ^ k"
    unfolding lo_def by (rule div_block) simp
  also have "\<dots> \<longleftrightarrow> word_of_nat lo \<le> x \<and> x \<le> word_of_nat (lo + (2 ^ k - 1))"
    unfolding word_le_nat_alt ends using \<open>(0 :: nat) < 2 ^ k\<close> by linarith
  finally show "drop_bit k x = drop_bit k n \<longleftrightarrow> word_of_nat lo \<le> x \<and> x \<le> word_of_nat (lo + (2 ^ k - 1))" .
qed

lemma demo_bounds_ok: "net_bounds_ok demo_inet demo_bounds"
proof -
  have "\<exists>lo hi. nb_network demo_bounds net = V4 lo \<and> nb_broadcast demo_bounds net = V4 hi \<and> lo \<le> hi \<and>
      (\<forall>a. inet_contains demo_inet net a \<longleftrightarrow> (\<exists>x. a = V4 x \<and> lo \<le> x \<and> x \<le> hi))" for net
  proof -
    obtain n len where net: "net = (n, len)" by (cases net)
    define lo hi :: u32 where "lo = word_of_nat (unat n div 2 ^ (32 - len) * 2 ^ (32 - len))"
      and "hi = word_of_nat (unat n div 2 ^ (32 - len) * 2 ^ (32 - len) + (2 ^ (32 - len) - 1))"
    have "nb_network demo_bounds net = V4 lo" "nb_broadcast demo_bounds net = V4 hi"
      by (simp_all only: net demo_bounds_def lo_def hi_def net_bounds.simps prod.case)
    moreover have "lo \<le> hi" unfolding lo_def hi_def by (rule block_bounds(1)) simp
    moreover have "inet_contains demo_inet net a \<longleftrightarrow> (\<exists>x. a = V4 x \<and> lo \<le> x \<and> x \<le> hi)" for a
    proof (cases a)
      case (V4 x)
      have "drop_bit (32 - len) x = drop_bit (32 - len) n \<longleftrightarrow> lo \<le> x \<and> x \<le> hi"
        unfolding lo_def hi_def by (rule block_bounds(2)) simp
      then show ?thesis by (simp add: V4 net demo_inet_def)
    qed (simp add: net demo_inet_def)
    ultimately show ?thesis by blast
  qed
  moreover have "inet_is_v4 demo_inet net" for net by (simp add: demo_inet_def)
  ultimately show ?thesis unfolding net_bounds_ok_def by simp
qed

definition demo_rules_list :: "(string \<times> string) list" where
  "demo_rules_list = [(''a'', ''1.0.0.1''), (''A/b/'', ''full:x'')]"

definition demo_builder :: book_builder where
  "demo_builder = (case add_rules demo_inet demo_bounds demo_rules_list (builder_new 7) of Inr B \<Rightarrow> B | Inl _ \<Rightarrow> builder_new 0)"

definition demo_built :: raw_book where
  "demo_built = (case build demo_builder of Inr raw \<Rightarrow> raw | Inl _ \<Rightarrow> demo_raw)"

lemma demo_builder_added: "add_rules demo_inet demo_bounds demo_rules_list (builder_new 7) = Inr demo_builder"
proof -
  have "\<not> isl (add_rules demo_inet demo_bounds demo_rules_list (builder_new 7))" by code_simp
  then show ?thesis unfolding demo_builder_def by (auto simp: isl_def split: sum.split)
qed

lemma demo_built_book: "build demo_builder = Inr demo_built"
proof -
  have "\<not> isl (build demo_builder)" by code_simp
  then show ?thesis unfolding demo_built_def by (auto simp: isl_def split: sum.split)
qed

theorem built_book_says_rules_witness:
  "''a'' \<in> set (lookup_categories (from_raw demo_built []) ''1.0.0.1'') \<and>
   ''a/b'' \<notin> set (lookup_categories (from_raw demo_built []) ''1.0.0.1'')"
proof -
  note book = built_book_says_rules [OF demo_bounds_ok demo_builder_added demo_built_book, of _ "[]" "''1.0.0.1''"]
  have hit: "book_entry_hits demo_inet ''1.0.0.1'' ''1.0.0.1''" "\<not> book_entry_hits demo_inet ''full:x'' ''1.0.0.1''"
    by code_simp+
  have names: "normalize_category ''a'' = ''a''" "normalize_category ''A/b/'' = ''a/b''" by code_simp+
  show ?thesis using book hit names by (simp add: demo_rules_list_def)
qed

end
