(* ===== verification/Rust_Io.thy ===== *)
theory Rust_Io
  imports Rust_Cursor
begin

text \<open>
  Byte streams as the connectors of the proxy use them. What arrives is the list of the chunks the
  reads return, where \<open>None\<close> is a read that fails and the end of the list is the end of the stream;
  what was written is kept, and whether the sending side was shut down; a bound on the writes that succeed stands for a peer that goes away.
  An operation returns its result and the stream it leaves.
\<close>

type_synonym chunks = "bytes option list"

record conn =
  cn_in :: chunks
  cn_out :: bytes
  cn_writes :: "nat option"
  cn_shut :: bool

datatype io_error = IoEof | IoRead | IoWrite

type_synonym 'a io = "conn \<Rightarrow> (io_error + 'a) \<times> conn"

definition write_all :: "bytes \<Rightarrow> unit io" where
  "write_all bs c =
     (case cn_writes c of
        Some 0 \<Rightarrow> (Inl IoWrite, c)
      | Some (Suc n) \<Rightarrow> (Inr (), c\<lparr>cn_out := cn_out c @ bs, cn_writes := Some n\<rparr>)
      | None \<Rightarrow> (Inr (), c\<lparr>cn_out := cn_out c @ bs\<rparr>))"

fun read_chunks :: "nat \<Rightarrow> chunks \<Rightarrow> (io_error + bytes) \<times> chunks" where
  "read_chunks 0 cs = (Inr [], cs)"
| "read_chunks (Suc n) [] = (Inl IoEof, [])"
| "read_chunks (Suc n) (None # cs) = (Inl IoRead, cs)"
| "read_chunks (Suc n) (Some [] # cs) = (Inl IoEof, cs)"
| "read_chunks (Suc n) (Some (b # bs) # cs) =
     (case read_chunks n (if bs = [] then cs else Some bs # cs) of
        (Inl e, cs) \<Rightarrow> (Inl e, cs)
      | (Inr rest, cs) \<Rightarrow> (Inr (b # rest), cs))"

definition read_exact :: "nat \<Rightarrow> bytes io" where
  "read_exact n c = (case read_chunks n (cn_in c) of (r, cs) \<Rightarrow> (r, c\<lparr>cn_in := cs\<rparr>))"

definition read_u8 :: "u8 io" where
  "read_u8 c = and_try (read_exact 1 c) (\<lambda>b c. (Inr (hd b), c))"

text \<open>One read into a buffer with room for \<open>room\<close> bytes; no bytes are the end of the stream.\<close>

definition read_some :: "nat \<Rightarrow> bytes io" where
  "read_some room c =
     (case cn_in c of
        [] \<Rightarrow> (Inr [], c)
      | None # cs \<Rightarrow> (Inl IoRead, c\<lparr>cn_in := cs\<rparr>)
      | Some bs # cs \<Rightarrow>
          (Inr (take room bs), c\<lparr>cn_in := (if drop room bs = [] then cs else Some (drop room bs) # cs)\<rparr>))"

definition shutdown :: "conn \<Rightarrow> conn" where
  "shutdown c = c\<lparr>cn_shut := True\<rparr>"

section \<open>Reads do not depend on how the bytes are cut into chunks\<close>

definition live_chunks :: "chunks \<Rightarrow> bool" where
  "live_chunks cs \<longleftrightarrow> list_all (\<lambda>c. c \<noteq> None \<and> c \<noteq> Some []) cs"

definition arriving :: "chunks \<Rightarrow> bytes" where
  "arriving cs = concat (map (\<lambda>c. case c of Some bs \<Rightarrow> bs | None \<Rightarrow> []) cs)"

lemma read_chunks_arriving:
  "live_chunks cs \<Longrightarrow> n \<le> length (arriving cs) \<Longrightarrow>
     \<exists>cs'. read_chunks n cs = (Inr (take n (arriving cs)), cs') \<and> live_chunks cs' \<and> arriving cs' = drop n (arriving cs)"
proof (induction n cs rule: read_chunks.induct)
  case (5 n b bs cs)
  let ?cs = "if bs = [] then cs else Some bs # cs"
  have same: "arriving ?cs = bs @ arriving cs" by (simp add: arriving_def)
  have "live_chunks ?cs" using "5.prems"(1) by (auto simp: live_chunks_def)
  moreover have "n \<le> length (arriving ?cs)" using "5.prems"(2) unfolding same by (simp add: arriving_def)
  ultimately obtain cs' where "read_chunks n ?cs = (Inr (take n (arriving ?cs)), cs')" "live_chunks cs'"
    "arriving cs' = drop n (arriving ?cs)" using "5.IH" by blast
  then show ?case unfolding same by (simp add: arriving_def)
qed (auto simp: arriving_def live_chunks_def)

text \<open>A stream on which \<open>bs\<close> is still to arrive and whose peer is there.\<close>

definition open_conn :: "bytes \<Rightarrow> conn \<Rightarrow> bool" where
  "open_conn bs c \<longleftrightarrow> live_chunks (cn_in c) \<and> arriving (cn_in c) = bs \<and> cn_writes c = None"

lemma read_exact_open:
  assumes "open_conn (a @ b) c" and "length a = n"
  shows "\<exists>c'. read_exact n c = (Inr a, c') \<and> open_conn b c' \<and> cn_out c' = cn_out c"
  using read_chunks_arriving [of "cn_in c" n] assms by (auto simp: read_exact_def open_conn_def)

lemma read_u8_open:
  assumes "open_conn (b # bs) c"
  shows "\<exists>c'. read_u8 c = (Inr b, c') \<and> open_conn bs c' \<and> cn_out c' = cn_out c"
  using read_exact_open [of "[b]" bs c 1] assms by (auto simp: read_u8_def and_try_def)

lemma write_all_open:
  assumes "open_conn bs c"
  shows "\<exists>c'. write_all out c = (Inr (), c') \<and> open_conn bs c' \<and> cn_out c' = cn_out c @ out"
  using assms by (auto simp: write_all_def open_conn_def)

end
