(* ===== verification/Proxy_Outbound.thy ===== *)
theory Proxy_Outbound
  imports Proxy_Engine Rust_Io
begin

text \<open>
  The outbound layer (\<open>src/outbound/mod.rs\<close>) and the address resolution it uses
  (\<open>src/resolver.rs\<close>): direct connections, HTTP and SOCKS5 upstreams, reverse hops, the overlay, and
  failover chains. The network, the TLS and base64 packages and the reverse-hop manager are
  parameters; an attempt takes a time that is a parameter too, and everything else takes none.
  Times are nanoseconds.
\<close>

section \<open>The outside world\<close>

record world =
  w_lookup :: "string \<Rightarrow> string + ip_addr list"
  w_dial :: "socket_addr \<Rightarrow> string + conn"
  w_server_name :: "string \<Rightarrow> string option"
  w_tls :: "bool \<Rightarrow> string \<Rightarrow> conn \<Rightarrow> string + conn"
  w_base64 :: "bytes \<Rightarrow> string"
  w_io_text :: "io_error \<Rightarrow> string"

record 'r reverse_manager =
  rm_open :: "string \<Rightarrow> string \<Rightarrow> u16 \<Rightarrow> proxy_error + conn"
  rm_open_udp :: "string \<Rightarrow> proxy_error + 'r"

record 'r egress_context =
  ec_reverse :: "'r reverse_manager option"
  ec_subnetra :: "(u32 \<Rightarrow> u16 \<Rightarrow> string + conn) option"
  ec_subnetra_tun :: bool

definition egress_context_new ::
  "'r reverse_manager option \<Rightarrow> (u32 \<Rightarrow> u16 \<Rightarrow> string + conn) option \<Rightarrow> 'r egress_context" where
  "egress_context_new manager net = \<lparr>ec_reverse = manager, ec_subnetra = net, ec_subnetra_tun = False\<rparr>"

definition with_subnetra_tun :: "bool \<Rightarrow> 'r egress_context \<Rightarrow> 'r egress_context" where
  "with_subnetra_tun tun E = E\<lparr>ec_subnetra_tun := tun\<rparr>"

section \<open>Resolution\<close>

datatype tcp_connect_error = ResolveError string | DialError string

fun socket_addr_new :: "ip_addr \<Rightarrow> u16 \<Rightarrow> socket_addr" where
  "socket_addr_new (V4 a) p = SockV4 a p"
| "socket_addr_new (V6 a) p = SockV6 a p 0 0"

definition resolve_host :: "world \<Rightarrow> string \<Rightarrow> u16 \<Rightarrow> string + socket_addr list" where
  "resolve_host W host port =
     (case parse_ip_addr host of
        Some ip \<Rightarrow> Inr [socket_addr_new ip port]
      | None \<Rightarrow>
          and_then (w_lookup W host) (\<lambda>ips.
            let addrs = map (\<lambda>ip. socket_addr_new ip port) ips
            in if addrs = [] then Inl (''resolve '' @ host @ '': no addresses'') else Inr addrs))"

definition resolve_one :: "world \<Rightarrow> string \<Rightarrow> u16 \<Rightarrow> string + socket_addr" where
  "resolve_one W host port =
     and_then (resolve_host W host port) (\<lambda>addrs.
       case addrs of a # _ \<Rightarrow> Inr a | [] \<Rightarrow> Inl (''resolve '' @ host @ '': no addresses''))"

fun dial_each :: "world \<Rightarrow> socket_addr list \<Rightarrow> string option \<Rightarrow> string option + conn" where
  "dial_each W [] last_err = Inl last_err"
| "dial_each W (a # addrs) last_err =
     (case w_dial W a of Inr stream \<Rightarrow> Inr stream | Inl e \<Rightarrow> dial_each W addrs (Some e))"

definition tcp_connect_detailed :: "world \<Rightarrow> string \<Rightarrow> u16 \<Rightarrow> tcp_connect_error + conn" where
  "tcp_connect_detailed W host port =
     (case resolve_host W host port of
        Inl e \<Rightarrow> Inl (ResolveError e)
      | Inr addrs \<Rightarrow>
          if addrs = [] then Inl (ResolveError (''resolve '' @ host @ '': no addresses''))
          else case dial_each W addrs None of
                 Inr stream \<Rightarrow> Inr stream
               | Inl (Some e) \<Rightarrow> Inl (DialError e)
               | Inl None \<Rightarrow> Inl (DialError (''no addresses for '' @ host @ '':'' @ show_nat (unat port))))"

definition tcp_connect :: "world \<Rightarrow> string \<Rightarrow> u16 \<Rightarrow> string + conn" where
  "tcp_connect W host port =
     (case tcp_connect_detailed W host port of
        Inr stream \<Rightarrow> Inr stream
      | Inl (ResolveError e) \<Rightarrow> Inl e
      | Inl (DialError e) \<Rightarrow> Inl e)"

section \<open>Labels\<close>

record egress_info =
  ei_label :: string
  ei_chain_id :: "string option"
  ei_member_id :: "string option"
  ei_attempts :: nat

definition egress_single :: "string \<Rightarrow> egress_info" where
  "egress_single label = \<lparr>ei_label = label, ei_chain_id = None, ei_member_id = None, ei_attempts = 1\<rparr>"

definition egress_label :: "upstream \<Rightarrow> string" where
  "egress_label up =
     (case u_kind up of
        Reverse \<Rightarrow> ''reverse:'' @ u_addr up
      | Subnetra \<Rightarrow> ''subnetra''
      | _ \<Rightarrow> ''upstream:'' @ u_addr up)"

definition decision_label :: "decision \<Rightarrow> string" where
  "decision_label d =
     (case d of
        Direct \<Rightarrow> ''direct''
      | Via up \<Rightarrow> egress_label up
      | ViaChain chain \<Rightarrow> ''chain:'' @ ch_id chain
      | Block \<Rightarrow> ''block'')"

section \<open>Upstream handshakes\<close>

definition lift_io :: "world \<Rightarrow> (io_error + 'a) \<times> conn \<Rightarrow> (proxy_error + 'a) \<times> conn" where
  "lift_io W r = (case r of (Inl e, c) \<Rightarrow> (Inl (Io (w_io_text W e)), c) | (Inr a, c) \<Rightarrow> (Inr a, c))"

definition map_tcp_connect :: "string \<Rightarrow> tcp_connect_error \<Rightarrow> proxy_error" where
  "map_tcp_connect context e =
     (case e of ResolveError m \<Rightarrow> Dns (context @ '': '' @ m) | DialError m \<Rightarrow> Dial (context @ '': '' @ m))"

definition dial :: "world \<Rightarrow> upstream \<Rightarrow> proxy_error + conn" where
  "dial W up =
     (case rsplit_once (CHR '':'') (u_addr up) of
        None \<Rightarrow> Inl (UpstreamFailed (''bad upstream addr '' @ u_addr up))
      | Some (host, p) \<Rightarrow> (case parse_u16 p of
          None \<Rightarrow> Inl (UpstreamFailed (''bad upstream addr '' @ u_addr up))
        | Some port \<Rightarrow> (case tcp_connect_detailed W (host_of (u_addr up)) port of
            Inl e \<Rightarrow> Inl (map_tcp_connect (''dial upstream '' @ u_addr up) e)
          | Inr tcp \<Rightarrow>
              if u_tls up then
                (case w_server_name W (host_of (u_addr up)) of
                   Some e \<Rightarrow> Inl (Tls (''bad upstream sni '' @ host_of (u_addr up) @ '': '' @ e))
                 | None \<Rightarrow> (case w_tls W (u_skip_cert_verify up) (host_of (u_addr up)) tcp of
                     Inl e \<Rightarrow> Inl (Tls (''upstream tls '' @ u_addr up @ '': '' @ e))
                   | Inr stream \<Rightarrow> Inr stream))
              else Inr tcp)))"

text \<open>The chunks left on a stream once the head of a response was read.\<close>

fun unread_after_head :: "chunks \<Rightarrow> nat \<Rightarrow> bytes \<Rightarrow> chunks" where
  "unread_after_head [] cap buf = []"
| "unread_after_head (None # cs) cap buf = cs"
| "unread_after_head (Some chunk # cs) cap buf =
     (if chunk = [] \<or> find_sub (buf @ chunk) CRLF2 \<noteq> None \<or> cap < length (buf @ chunk) then cs
      else unread_after_head cs cap (buf @ chunk))"

definition head_message :: "world \<Rightarrow> head_error \<Rightarrow> string" where
  "head_message W e = (case e of ReadFailed \<Rightarrow> w_io_text W IoRead | HeaderTooLarge \<Rightarrow> ''header too large'')"

definition read_head :: "nat \<Rightarrow> conn \<Rightarrow> (head_error + bytes) \<times> conn" where
  "read_head cap c = (read_http_head (cn_in c) cap, c\<lparr>cn_in := unread_after_head (cn_in c) cap []\<rparr>)"

definition first_text_line :: "string \<Rightarrow> string" where
  "first_text_line s =
     (let l = takeWhile (\<lambda>c. c \<noteq> CHR 0x0A) s
      in if l \<noteq> [] \<and> last l = CHR 0x0D \<and> length l < length s then butlast l else l)"

definition connect_request :: "(bytes \<Rightarrow> string) \<Rightarrow> upstream \<Rightarrow> string \<Rightarrow> u16 \<Rightarrow> string" where
  "connect_request base64 up host port =
     (let target = host @ '':'' @ show_nat (unat port); nl = [CHR 0x0D, CHR 0x0A]
      in ''CONNECT '' @ target @ '' HTTP/1.1'' @ nl @ ''Host: '' @ target @ nl @
         (case u_username up of
            Some user \<Rightarrow>
              (let pass = (case u_password up of Some p \<Rightarrow> p | None \<Rightarrow> [])
               in ''Proxy-Authorization: Basic '' @ base64 (as_bytes (user @ '':'' @ pass)) @ nl)
          | None \<Rightarrow> []) @
         ''Proxy-Connection: keep-alive'' @ nl @ nl)"

definition http_handshake :: "world \<Rightarrow> upstream \<Rightarrow> string \<Rightarrow> u16 \<Rightarrow> conn \<Rightarrow> (proxy_error + unit) \<times> conn" where
  "http_handshake W up host port c =
     and_try (lift_io W (write_all (as_bytes (connect_request (w_base64 W) up host port)) c)) (\<lambda>_ c.
       case read_head 8192 c of
         (Inl e, c) \<Rightarrow> (Inl (Io (head_message W e)), c)
       | (Inr head, c) \<Rightarrow>
           if \<not> http_2xx head
           then (Inl (UpstreamFailed (''http upstream refused: '' @ first_text_line (of_bytes (from_utf8_lossy head)))), c)
           else (Inr (), c))"

definition opt_text :: "string option \<Rightarrow> string" where
  "opt_text s = (case s of Some t \<Rightarrow> t | None \<Rightarrow> [])"

definition u8_len :: "bytes \<Rightarrow> u8" where
  "u8_len bs = word_of_nat (length bs)"

definition socks5_auth :: "world \<Rightarrow> upstream \<Rightarrow> conn \<Rightarrow> (proxy_error + unit) \<times> conn" where
  "socks5_auth W up c =
     (let user = as_bytes (opt_text (u_username up)); pass = as_bytes (opt_text (u_password up))
      in and_try (lift_io W (write_all ([1, u8_len user] @ user @ [u8_len pass] @ pass) c)) (\<lambda>_ c.
         and_try (lift_io W (read_exact 2 c)) (\<lambda>ar c.
         if ar ! 1 \<noteq> 0 then (Inl (UpstreamFailed ''upstream socks auth failed''), c) else (Inr (), c))))"

definition socks5_drain :: "world \<Rightarrow> u8 \<Rightarrow> conn \<Rightarrow> (proxy_error + unit) \<times> conn" where
  "socks5_drain W atyp c =
     (if atyp = 1 then and_try (lift_io W (read_exact (4 + 2) c)) (\<lambda>_ c. (Inr (), c))
      else if atyp = 4 then and_try (lift_io W (read_exact (16 + 2) c)) (\<lambda>_ c. (Inr (), c))
      else if atyp = 3 then
        and_try (lift_io W (read_u8 c)) (\<lambda>l c.
        and_try (lift_io W (read_exact (unat l + 2) c)) (\<lambda>_ c. (Inr (), c)))
      else (Inl (UpstreamFailed ''upstream bad bnd atyp''), c))"

text \<open>\<open>{:#x}\<close> of a byte.\<close>

definition show_hex_prefixed :: "u8 \<Rightarrow> string" where
  "show_hex_prefixed b = ''0x'' @ show_hex_nat (unat b)"

definition socks5_handshake :: "world \<Rightarrow> upstream \<Rightarrow> string \<Rightarrow> u16 \<Rightarrow> conn \<Rightarrow> (proxy_error + unit) \<times> conn" where
  "socks5_handshake W up host port c =
     and_try (lift_io W (write_all [5, 1, if u_username up \<noteq> None then 2 else 0] c)) (\<lambda>_ c.
     and_try (lift_io W (read_exact 2 c)) (\<lambda>resp c.
     if resp ! 0 \<noteq> 5 then (Inl (UpstreamFailed ''upstream bad socks version''), c)
     else and_try
       (if resp ! 1 = 0 then (Inr (), c)
        else if resp ! 1 = 2 then socks5_auth W up c
        else (Inl (UpstreamFailed (''upstream socks method '' @ show_hex_prefixed (resp ! 1))), c)) (\<lambda>_ c.
     let hb = as_bytes host
     in if 255 < length hb then (Inl (UpstreamFailed ''hostname too long''), c)
        else and_try (lift_io W (write_all ([5, 1, 0, 3, u8_len hb] @ hb @ to_be_bytes 2 port) c)) (\<lambda>_ c.
          and_try (lift_io W (read_exact 4 c)) (\<lambda>head c.
          if head ! 1 \<noteq> 0 then (Inl (UpstreamFailed (''upstream socks reply '' @ show_hex_prefixed (head ! 1))), c)
          else socks5_drain W (head ! 3) c)))))"

definition after_handshake :: "(conn \<Rightarrow> (proxy_error + unit) \<times> conn) \<Rightarrow> proxy_error + conn \<Rightarrow> proxy_error + conn" where
  "after_handshake shake dialed =
     and_then dialed (\<lambda>c. case shake c of (Inl e, _) \<Rightarrow> Inl e | (Inr _, c) \<Rightarrow> Inr c)"

definition http_connect :: "world \<Rightarrow> upstream \<Rightarrow> string \<Rightarrow> u16 \<Rightarrow> proxy_error + conn" where
  "http_connect W up host port = after_handshake (http_handshake W up host port) (dial W up)"

definition socks5_connect :: "world \<Rightarrow> upstream \<Rightarrow> string \<Rightarrow> u16 \<Rightarrow> proxy_error + conn" where
  "socks5_connect W up host port = after_handshake (socks5_handshake W up host port) (dial W up)"

definition reverse_connect :: "upstream \<Rightarrow> string \<Rightarrow> u16 \<Rightarrow> 'r egress_context \<Rightarrow> proxy_error + conn" where
  "reverse_connect up host port E =
     (case ec_reverse E of
        None \<Rightarrow> Inl (ReverseUnavailable (''reverse hop '' @ u_addr up @ '' requested but reverse data plane is not enabled''))
      | Some manager \<Rightarrow> rm_open manager (u_addr up) host port)"

definition subnetra_connect :: "string \<Rightarrow> u16 \<Rightarrow> 'r egress_context \<Rightarrow> proxy_error + conn" where
  "subnetra_connect host port E =
     (let target = host @ '':'' @ show_nat (unat port)
      in if ec_subnetra_tun E then
           Inl (UpstreamFailed (''subnetra egress requested for '' @ target @ '' but subnetra is running in TUN mode; use direct egress so kernel routes packets into the overlay''))
         else case ec_subnetra E of
           None \<Rightarrow> Inl (UpstreamFailed (''subnetra egress requested for '' @ target @ '' but subnetra is not enabled''))
         | Some net \<Rightarrow> (case parse_ipv4_addr host of
             None \<Rightarrow> Inl (UpstreamFailed (''subnetra egress target '' @ host @ '' is not an overlay IPv4 address''))
           | Some ip \<Rightarrow> (case net ip port of
               Inl e \<Rightarrow> Inl (UpstreamFailed (''subnetra connect '' @ target @ '': '' @ e))
             | Inr stream \<Rightarrow> Inr stream)))"

definition connect_upstream :: "world \<Rightarrow> upstream \<Rightarrow> string \<Rightarrow> u16 \<Rightarrow> 'r egress_context \<Rightarrow> proxy_error + conn" where
  "connect_upstream W up host port E =
     (case u_kind up of
        Http \<Rightarrow> http_connect W up host port
      | Socks5 \<Rightarrow> socks5_connect W up host port
      | Reverse \<Rightarrow> reverse_connect up host port E
      | Subnetra \<Rightarrow> subnetra_connect host port E)"

section \<open>Failover\<close>

definition CHAIN_ATTEMPT_TIMEOUT :: nat where "CHAIN_ATTEMPT_TIMEOUT = 10 * 10 ^ 9"
definition CHAIN_TOTAL_TIMEOUT :: nat where "CHAIN_TOTAL_TIMEOUT = 30 * 10 ^ 9"
definition MILLISECOND :: nat where "MILLISECOND = 10 ^ 6"

definition remaining_budget :: "nat \<Rightarrow> nat \<Rightarrow> nat \<Rightarrow> nat option" where
  "remaining_budget deadline now attempts_so_far =
     (let remaining = deadline - now
      in if remaining = 0 \<and> 0 < attempts_so_far then None
         else Some (min CHAIN_ATTEMPT_TIMEOUT (max remaining MILLISECOND)))"

text \<open>The \<open>Debug\<close> form of a duration, without trailing zeros of its fraction.\<close>

definition show_fraction :: "nat \<Rightarrow> nat \<Rightarrow> string" where
  "show_fraction digits r =
     (if r = 0 then []
      else CHR ''.'' # trim_end_matches (CHR ''0'')
        (replicate (digits - length (show_nat r)) (CHR ''0'') @ show_nat r))"

definition show_duration :: "nat \<Rightarrow> string" where
  "show_duration ns =
     (if 10 ^ 9 \<le> ns then show_nat (ns div 10 ^ 9) @ show_fraction 9 (ns mod 10 ^ 9) @ ''s''
      else if 10 ^ 6 \<le> ns then show_nat (ns div 10 ^ 6) @ show_fraction 6 (ns mod 10 ^ 6) @ ''ms''
      else if 10 ^ 3 \<le> ns then show_nat (ns div 10 ^ 3) @ show_fraction 3 (ns mod 10 ^ 3) @ [CHR 0xC2, CHR 0xB5] @ ''s''
      else show_nat ns @ ''ns'')"

text \<open>An operation that takes a time, or never finishes; a timeout cuts it off.\<close>

datatype 'a timed = Takes nat 'a | Never

definition timeout :: "nat \<Rightarrow> 'a timed \<Rightarrow> 'a option \<times> nat" where
  "timeout limit op = (case op of Takes d r \<Rightarrow> if d \<le> limit then (Some r, d) else (None, limit) | Never \<Rightarrow> (None, limit))"

text \<open>
  The loop over the members of a chain, for TCP and UDP. The result is the stream and the member
  that gave it, or the last error; with it the number of attempts and the time it all ended.
\<close>

fun try_members ::
  "(chain_member \<Rightarrow> nat \<Rightarrow> (proxy_error + 's) timed) \<Rightarrow> (chain_member \<Rightarrow> nat \<Rightarrow> proxy_error) \<Rightarrow> nat \<Rightarrow>
   nat \<Rightarrow> nat \<Rightarrow> proxy_error option \<Rightarrow> chain_member list \<Rightarrow> (proxy_error option + 's \<times> chain_member) \<times> nat \<times> nat" where
  "try_members attempt timed_out deadline now attempts last_err [] = (Inl last_err, attempts, now)"
| "try_members attempt timed_out deadline now attempts last_err (m # ms) =
     (case remaining_budget deadline now attempts of
        None \<Rightarrow> (Inl last_err, attempts, now)
      | Some per_attempt \<Rightarrow>
          (case timeout per_attempt (attempt m now) of
             (Some (Inr stream), d) \<Rightarrow> (Inr (stream, m), attempts + 1, now + d)
           | (Some (Inl e), d) \<Rightarrow> try_members attempt timed_out deadline (now + d) (attempts + 1) (Some e) ms
           | (None, d) \<Rightarrow>
               try_members attempt timed_out deadline (now + d) (attempts + 1) (Some (timed_out m per_attempt)) ms))"

definition chain_result ::
  "chain \<Rightarrow> proxy_error \<Rightarrow> (proxy_error option + 's \<times> chain_member) \<times> nat \<times> nat \<Rightarrow> (proxy_error + 's \<times> egress_info) \<times> nat" where
  "chain_result chain none r =
     (case r of
        (Inr (stream, m), attempts, finish) \<Rightarrow>
          (Inr (stream, \<lparr>ei_label = egress_label (m_upstream m), ei_chain_id = Some (ch_id chain),
             ei_member_id = Some (m_id m), ei_attempts = attempts\<rparr>), finish)
      | (Inl last_err, attempts, finish) \<Rightarrow>
          (Inl (ChainExhausted (ch_id chain) attempts (case last_err of Some e \<Rightarrow> e | None \<Rightarrow> none)), finish))"

definition chain_attempt ::
  "world \<Rightarrow> (upstream \<Rightarrow> nat \<Rightarrow> nat option) \<Rightarrow> string \<Rightarrow> u16 \<Rightarrow> 'r egress_context \<Rightarrow> chain_member \<Rightarrow> nat \<Rightarrow> (proxy_error + conn) timed" where
  "chain_attempt W took host port E m now =
     (case took (m_upstream m) now of
        Some d \<Rightarrow> Takes d (connect_upstream W (m_upstream m) host port E)
      | None \<Rightarrow> Never)"

definition attempt_timed_out :: "chain \<Rightarrow> chain_member \<Rightarrow> nat \<Rightarrow> proxy_error" where
  "attempt_timed_out chain m per_attempt =
     UpstreamFailed (''chain '' @ ch_id chain @ '' member '' @ m_id m @ '' attempt timed out after '' @ show_duration per_attempt)"

definition connect_chain ::
  "world \<Rightarrow> (upstream \<Rightarrow> nat \<Rightarrow> nat option) \<Rightarrow> nat \<Rightarrow> chain \<Rightarrow> string \<Rightarrow> u16 \<Rightarrow> 'r egress_context \<Rightarrow>
     (proxy_error + conn \<times> egress_info) \<times> nat" where
  "connect_chain W took now chain host port E =
     chain_result chain (UpstreamFailed (''chain '' @ ch_id chain @ '' has no eligible members''))
       (try_members (chain_attempt W took host port E)
         (attempt_timed_out chain)
         (now + CHAIN_TOTAL_TIMEOUT) now 0 None (ch_members chain))"

definition connect ::
  "world \<Rightarrow> (upstream \<Rightarrow> nat \<Rightarrow> nat option) \<Rightarrow> nat \<Rightarrow> decision \<Rightarrow> string \<Rightarrow> u16 \<Rightarrow> 'r egress_context \<Rightarrow>
     proxy_error + conn \<times> egress_info" where
  "connect W took now d host port E =
     (case d of
        Direct \<Rightarrow> (case tcp_connect_detailed W host port of
            Inl e \<Rightarrow> Inl (map_tcp_connect (''direct '' @ host @ '':'' @ show_nat (unat port)) e)
          | Inr s \<Rightarrow> Inr (s, egress_single ''direct''))
      | Via up \<Rightarrow> and_then (connect_upstream W up host port E) (\<lambda>s. Inr (s, egress_single (egress_label up)))
      | ViaChain chain \<Rightarrow> fst (connect_chain W took now chain host port E)
      | Block \<Rightarrow> Inl (Blocked host))"

section \<open>UDP\<close>

definition kind_text :: "upstream_kind \<Rightarrow> string" where
  "kind_text k = (case k of Http \<Rightarrow> ''Http'' | Socks5 \<Rightarrow> ''Socks5'' | Reverse \<Rightarrow> ''Reverse'' | Subnetra \<Rightarrow> ''Subnetra'')"

definition udp_attempt ::
  "(string \<Rightarrow> nat \<Rightarrow> nat option) \<Rightarrow> 'r reverse_manager \<Rightarrow> chain_member \<Rightarrow> nat \<Rightarrow> (proxy_error + 'r) timed" where
  "udp_attempt took manager m now =
     (case took (u_addr (m_upstream m)) now of
        Some d \<Rightarrow> Takes d (rm_open_udp manager (u_addr (m_upstream m)))
      | None \<Rightarrow> Never)"

definition connect_udp_chain ::
  "(string \<Rightarrow> nat \<Rightarrow> nat option) \<Rightarrow> nat \<Rightarrow> chain \<Rightarrow> 'r egress_context \<Rightarrow> (proxy_error + 'r \<times> egress_info) \<times> nat" where
  "connect_udp_chain took now chain E =
     (let candidates = filter (\<lambda>m. u_kind (m_upstream m) = Reverse) (ch_members chain)
      in if candidates = [] then
           (Inl (ChainExhausted (ch_id chain) 0 (UpstreamFailed (''chain '' @ ch_id chain @ '' has no udp-capable (reverse) members''))), now)
         else case ec_reverse E of
           None \<Rightarrow>
             (Inl (ChainExhausted (ch_id chain) 0 (ReverseUnavailable (''chain '' @ ch_id chain @ '' requested for udp but reverse data plane is not enabled''))), now)
         | Some manager \<Rightarrow>
             chain_result chain (UpstreamFailed (''chain '' @ ch_id chain @ '' has no eligible udp members''))
               (try_members (udp_attempt took manager)
                 (\<lambda>m per_attempt. ReverseOpen (''chain '' @ ch_id chain @ '' member '' @ m_id m @ '' udp open timed out after '' @ show_duration per_attempt))
                 (now + CHAIN_TOTAL_TIMEOUT) now 0 None candidates))"

definition connect_udp ::
  "(string \<Rightarrow> nat \<Rightarrow> nat option) \<Rightarrow> nat \<Rightarrow> decision \<Rightarrow> 'r egress_context \<Rightarrow> proxy_error + 'r \<times> egress_info" where
  "connect_udp took now d E =
     (case d of
        Via up \<Rightarrow>
          if u_kind up = Reverse then
            (case ec_reverse E of
               None \<Rightarrow> Inl (ReverseUnavailable (''reverse hop '' @ u_addr up @ '' requested for udp but reverse data plane is not enabled''))
             | Some manager \<Rightarrow> and_then (rm_open_udp manager (u_addr up)) (\<lambda>r. Inr (r, egress_single (egress_label up))))
          else Inl (UpstreamFailed (''udp egress not supported via upstream kind '' @ kind_text (u_kind up) @ '' ('' @ u_addr up @ '')''))
      | ViaChain chain \<Rightarrow> fst (connect_udp_chain took now chain E)
      | Direct \<Rightarrow> Inl (UpstreamFailed ''udp direct egress is out of scope for reverse/2 P0'')
      | Block \<Rightarrow> Inl (Blocked ''udp''))"

section \<open>Failover is bounded and reaches its members\<close>

lemmas chain_limits = CHAIN_ATTEMPT_TIMEOUT_def CHAIN_TOTAL_TIMEOUT_def MILLISECOND_def

lemma timeout_within: "timeout limit op = (r, d) \<Longrightarrow> d \<le> limit"
  by (auto simp: timeout_def split: timed.splits if_splits)

lemma remaining_budget_end:
  "remaining_budget deadline now k = Some b \<Longrightarrow> (k = 0 \<longrightarrow> now < deadline) \<Longrightarrow> d \<le> b \<Longrightarrow> now + d \<le> deadline + MILLISECOND"
  by (auto simp: remaining_budget_def Let_def split: if_splits)

text \<open>One turn of the loop: the budget is spent, the member gives the stream, or the next member is tried.\<close>

lemma try_members_turn:
  obtains (spent) "remaining_budget deadline now k = None"
      "try_members attempt timed_out deadline now k last_err (m # ms) = (Inl last_err, k, now)"
    | (won) b stream d where "remaining_budget deadline now k = Some b" "timeout b (attempt m now) = (Some (Inr stream), d)"
      "try_members attempt timed_out deadline now k last_err (m # ms) = (Inr (stream, m), k + 1, now + d)"
    | (failed) b res d e where "remaining_budget deadline now k = Some b" "timeout b (attempt m now) = (res, d)"
      "\<forall>stream. res \<noteq> Some (Inr stream)"
      "try_members attempt timed_out deadline now k last_err (m # ms) =
         try_members attempt timed_out deadline (now + d) (k + 1) (Some e) ms"
proof (cases "remaining_budget deadline now k")
  case None
  then show ?thesis by (intro spent) simp_all
next
  case (Some b)
  obtain res d where t: "timeout b (attempt m now) = (res, d)" by force
  show ?thesis
  proof (cases "\<exists>stream. res = Some (Inr stream)")
    case True
    then obtain stream where "res = Some (Inr stream)" by blast
    then show ?thesis using Some t by (intro won) simp_all
  next
    case False
    then show ?thesis
      using Some t by (intro failed [OF Some t, where e = "case res of Some (Inl e) \<Rightarrow> e | _ \<Rightarrow> timed_out m b"])
        (auto split: option.split sum.split)
  qed
qed

lemma try_members_bounded:
  "try_members attempt timed_out deadline now k last_err ms = (r, n, finish) \<Longrightarrow> (k = 0 \<longrightarrow> now < deadline) \<Longrightarrow>
     now \<le> deadline + MILLISECOND \<Longrightarrow> now \<le> finish \<and> finish \<le> deadline + MILLISECOND \<and> k \<le> n \<and> n \<le> k + length ms"
proof (induction ms arbitrary: now k last_err)
  case (Cons m ms)
  show ?case
  proof (cases rule: try_members_turn [of deadline now k attempt timed_out last_err m ms])
    case spent
    then show ?thesis using Cons.prems by simp
  next
    case (won b stream d)
    then show ?thesis
      using Cons.prems remaining_budget_end [OF won(1) Cons.prems(2) timeout_within [OF won(2)]] by simp
  next
    case (failed b res d e)
    have "try_members attempt timed_out deadline (now + d) (k + 1) (Some e) ms = (r, n, finish)"
      using Cons.prems(1) failed(4) by simp
    from Cons.IH [OF this] show ?thesis
      using remaining_budget_end [OF failed(1) Cons.prems(2) timeout_within [OF failed(2)]] by simp
  qed
qed simp

text \<open>
  Members that lose their turns one after the other from time \<open>t\<close> on, when \<open>k\<close> attempts were made
  before: within the budget of its turn a member reports an error, or it is cut off when the budget
  is over, because it would take longer or never answers. The last time is when the next turn begins.
\<close>

inductive lost_turns ::
  "(chain_member \<Rightarrow> nat \<Rightarrow> (proxy_error + 's) timed) \<Rightarrow> nat \<Rightarrow> nat \<Rightarrow> nat \<Rightarrow> chain_member list \<Rightarrow> nat \<Rightarrow> bool"
  for attempt deadline where
  none: "lost_turns attempt deadline k t [] t"
| refused: "remaining_budget deadline t k = Some b \<Longrightarrow> attempt m t = Takes d (Inl e) \<Longrightarrow> d \<le> b \<Longrightarrow>
    lost_turns attempt deadline (k + 1) (t + d) ms t' \<Longrightarrow> lost_turns attempt deadline k t (m # ms) t'"
| late: "remaining_budget deadline t k = Some b \<Longrightarrow> attempt m t = Takes d r \<Longrightarrow> b < d \<Longrightarrow>
    lost_turns attempt deadline (k + 1) (t + b) ms t' \<Longrightarrow> lost_turns attempt deadline k t (m # ms) t'"
| silent: "remaining_budget deadline t k = Some b \<Longrightarrow> attempt m t = Never \<Longrightarrow>
    lost_turns attempt deadline (k + 1) (t + b) ms t' \<Longrightarrow> lost_turns attempt deadline k t (m # ms) t'"

lemma lost_turn:
  assumes "remaining_budget deadline t k = Some b" and "timeout b (attempt m t) = (res, d)"
    and "\<forall>stream. res \<noteq> Some (Inr stream)" and "lost_turns attempt deadline (k + 1) (t + d) ms t'"
  shows "lost_turns attempt deadline k t (m # ms) t'"
proof (cases "attempt m t")
  case (Takes d' r)
  show ?thesis
  proof (cases "d' \<le> b")
    case True
    then have "res = Some r" "d = d'" using assms(2) by (simp_all add: timeout_def Takes)
    moreover from this obtain e where "r = Inl e" using assms(3) by (cases r) auto
    ultimately show ?thesis using assms(1,4) Takes True by (auto intro: lost_turns.refused)
  next
    case False
    then have "d = b" using assms(2) by (simp add: timeout_def Takes)
    then show ?thesis using assms(1,4) Takes False by (auto intro: lost_turns.late)
  qed
next
  case Never
  then have "d = b" using assms(2) by (simp add: timeout_def)
  then show ?thesis using assms(1,4) Never by (auto intro: lost_turns.silent)
qed

lemma try_members_won:
  "try_members attempt timed_out deadline now k last_err ms = (Inr (stream, m), n, finish) \<Longrightarrow>
     \<exists>pre post t b d. ms = pre @ m # post \<and> n = k + length pre + 1 \<and> lost_turns attempt deadline k now pre t \<and>
       remaining_budget deadline t (k + length pre) = Some b \<and> attempt m t = Takes d (Inr stream) \<and> d \<le> b"
proof (induction ms arbitrary: now k last_err)
  case (Cons x ms)
  show ?case
  proof (cases rule: try_members_turn [of deadline now k attempt timed_out last_err x ms])
    case spent
    then show ?thesis using Cons.prems by simp
  next
    case (won b s d)
    then have "x = m" "n = k + 1" "s = stream" using Cons.prems by simp_all
    moreover have "attempt x now = Takes d (Inr s)" "d \<le> b"
      using won(2) by (auto simp: timeout_def split: timed.splits if_splits)
    ultimately show ?thesis using won(1)
      by (intro exI [of _ "[]"] exI [of _ ms] exI [of _ now] exI [of _ b] exI [of _ d]) (auto intro: lost_turns.none)
  next
    case (failed b res d e)
    have "try_members attempt timed_out deadline (now + d) (k + 1) (Some e) ms = (Inr (stream, m), n, finish)"
      using Cons.prems failed(4) by simp
    from Cons.IH [OF this] obtain pre post t b' d' where
      ih: "ms = pre @ m # post" "n = k + 1 + length pre + 1" "lost_turns attempt deadline (k + 1) (now + d) pre t"
        "remaining_budget deadline t (k + 1 + length pre) = Some b'" "attempt m t = Takes d' (Inr stream)" "d' \<le> b'" by blast
    have "lost_turns attempt deadline k now (x # pre) t" by (rule lost_turn [OF failed(1-3) ih(3)])
    then show ?thesis using ih
      by (intro exI [of _ "x # pre"] exI [of _ post] exI [of _ t] exI [of _ b'] exI [of _ d']) simp
  qed
qed simp

lemma try_members_reaches:
  assumes "i < length ms" and "\<And>t. \<exists>d stream. d \<le> CHAIN_ATTEMPT_TIMEOUT \<and> attempt (ms ! i) t = Takes d (Inr stream)"
    and "now + (i + 1) * CHAIN_ATTEMPT_TIMEOUT \<le> deadline"
  shows "\<exists>stream m n finish. try_members attempt timed_out deadline now k last_err ms = (Inr (stream, m), n, finish) \<and> n \<le> k + i + 1"
  using assms
proof (induction ms arbitrary: i now k last_err)
  case (Cons x ms)
  have room: "CHAIN_ATTEMPT_TIMEOUT \<le> deadline - now" "0 < deadline - now"
    using Cons.prems(3) by (simp_all add: chain_limits)
  then have budget: "remaining_budget deadline now k = Some CHAIN_ATTEMPT_TIMEOUT"
    by (auto simp: remaining_budget_def Let_def min_def max_def chain_limits)
  show ?case
  proof (cases rule: try_members_turn [of deadline now k attempt timed_out last_err x ms])
    case spent
    then show ?thesis using budget by simp
  next
    case (won b s d)
    then show ?thesis by simp
  next
    case (failed b res d e)
    show ?thesis
    proof (cases i)
      case 0
      obtain d' stream where "d' \<le> CHAIN_ATTEMPT_TIMEOUT" "attempt x now = Takes d' (Inr stream)"
        using Cons.prems(2) [of now] by (auto simp: 0)
      then show ?thesis using failed(1-3) budget by (auto simp: timeout_def)
    next
      case (Suc j)
      have "d \<le> CHAIN_ATTEMPT_TIMEOUT" using timeout_within [OF failed(2)] failed(1) budget by simp
      then have "now + d + (j + 1) * CHAIN_ATTEMPT_TIMEOUT \<le> deadline" using Cons.prems(3) by (simp add: Suc)
      from Cons.IH [OF _ _ this, of "k + 1" "Some e"] Cons.prems(1,2) failed(4) show ?thesis by (auto simp: Suc)
    qed
  qed
qed simp

section \<open>Properties of the chains\<close>

lemma chain_attempt_takes:
  "chain_attempt W took host port E m t = Takes d r \<longleftrightarrow>
     took (m_upstream m) t = Some d \<and> connect_upstream W (m_upstream m) host port E = r"
  by (auto simp: chain_attempt_def split: option.splits)

text \<open>
  An example: an SSH server behind an HTTP upstream, and a chain whose first member never answers.
\<close>

definition demo_upstream :: "upstream_kind \<Rightarrow> string \<Rightarrow> upstream" where
  "demo_upstream kind addr = \<lparr>u_kind = kind, u_addr = addr, u_username = None, u_password = None,
     u_tls = False, u_skip_cert_verify = False\<rparr>"

definition demo_response :: bytes where "demo_response = as_bytes ''HTTP/1.1 200 OK'' @ CRLF2"

definition demo_conn :: conn where
  "demo_conn = \<lparr>cn_in = [Some (demo_response @ as_bytes ''SSH-2.0'')], cn_out = [], cn_writes = None, cn_shut = False\<rparr>"

definition demo_world :: world where
  "demo_world = \<lparr>w_lookup = (\<lambda>_. Inr [V4 167772161]), w_dial = (\<lambda>_. Inr demo_conn), w_server_name = (\<lambda>_. None),
     w_tls = (\<lambda>_ _ c. Inr c), w_base64 = (\<lambda>_. []), w_io_text = (\<lambda>_. ''io'')\<rparr>"

definition demo_context :: "unit egress_context" where
  "demo_context = egress_context_new (Some \<lparr>rm_open = (\<lambda>_ _ _. Inr demo_conn), rm_open_udp = (\<lambda>_. Inr ())\<rparr>) None"

definition demo_chain :: chain where
  "demo_chain = \<lparr>ch_id = ''c'', ch_members =
     [\<lparr>m_id = ''a'', m_priority = 0, m_upstream = demo_upstream Socks5 ''gw:1080''\<rparr>,
      \<lparr>m_id = ''b'', m_priority = 1, m_upstream = demo_upstream Reverse ''hop''\<rparr>]\<rparr>"

definition demo_took :: "upstream \<Rightarrow> nat \<Rightarrow> nat option" where
  "demo_took up t = (if u_kind up = Reverse then Some 5 else None)"

lemmas demo_defs = demo_upstream_def demo_conn_def demo_world_def demo_context_def demo_chain_def demo_took_def
  egress_context_new_def

text \<open>
  C36: failover is bounded. Whatever the members do, answer, fail or hang forever, the failover over a
  chain is over 30 seconds and one millisecond after it began, and it has made no more attempts than
  the chain has members.
\<close>

theorem chain_failover_bounded:
  "case connect_chain W took now chain host port E of
     (r, finish) \<Rightarrow> finish \<le> now + CHAIN_TOTAL_TIMEOUT + MILLISECOND \<and>
       (case r of
          Inr (_, info) \<Rightarrow> ei_attempts info \<le> length (ch_members chain)
        | Inl e \<Rightarrow> \<exists>n last_err. e = ChainExhausted (ch_id chain) n last_err \<and> n \<le> length (ch_members chain))"
proof -
  obtain r n finish where run: "try_members (chain_attempt W took host port E)
      (attempt_timed_out chain)
      (now + CHAIN_TOTAL_TIMEOUT) now 0 None (ch_members chain) = (r, n, finish)"
    by (metis prod_cases3)
  have "finish \<le> now + CHAIN_TOTAL_TIMEOUT + MILLISECOND" "n \<le> length (ch_members chain)"
    using try_members_bounded [OF run] by (simp_all add: chain_limits)
  then show ?thesis
    unfolding connect_chain_def run by (auto simp: chain_result_def split: sum.split)
qed

text \<open>
  C13: failover reaches the first three members. When one of the first three members of a chain can
  give the connection and does so within ten seconds whenever it is asked, the chain gives a
  connection, after no more attempts than that member's place in the chain, however long the
  members before it take.
\<close>

theorem chain_reaches_third:
  assumes "i < 3" and "i < length (ch_members chain)"
    and "connect_upstream W (m_upstream (ch_members chain ! i)) host port E = Inr stream"
    and "\<forall>t. \<exists>d \<le> CHAIN_ATTEMPT_TIMEOUT. took (m_upstream (ch_members chain ! i)) t = Some d"
  shows "\<exists>s info finish. connect_chain W took now chain host port E = (Inr (s, info), finish) \<and> ei_attempts info \<le> i + 1"
proof -
  have "\<exists>d s. d \<le> CHAIN_ATTEMPT_TIMEOUT \<and> chain_attempt W took host port E (ch_members chain ! i) t = Takes d (Inr s)" for t
    using assms(3,4) by (auto simp: chain_attempt_takes)
  moreover have "now + (i + 1) * CHAIN_ATTEMPT_TIMEOUT \<le> now + CHAIN_TOTAL_TIMEOUT"
    using assms(1) by (simp add: chain_limits)
  ultimately have "\<exists>s m n finish. try_members (chain_attempt W took host port E)
      (attempt_timed_out chain)
      (now + CHAIN_TOTAL_TIMEOUT) now 0 None (ch_members chain) = (Inr (s, m), n, finish) \<and> n \<le> 0 + i + 1"
    using assms(2) by (intro try_members_reaches)
  then show ?thesis by (auto simp: connect_chain_def chain_result_def)
qed

theorem chain_reaches_third_witness:
  "\<exists>s info finish. connect_chain demo_world demo_took 0 demo_chain ''h'' 22 demo_context = (Inr (s, info), finish) \<and>
     ei_attempts info \<le> 1 + 1"
  by (rule chain_reaches_third [of _ _ _ _ _ _ demo_conn])
    (simp_all add: demo_defs connect_upstream_def reverse_connect_def chain_limits)

text \<open>
  C5: a connection leaves the node the way the policy decided. A direct decision gives the stream of
  a direct connection, an upstream decision that upstream's stream, a blocked one nothing. A chain
  gives the stream of one of its members, which answered within the budget of its turn; every
  member before it in the chain had its turn first, in order, and reported an error or was cut off
  when its budget was over; and the record names the member and the number of attempts made.
\<close>

theorem connect_respects_decision:
  assumes "connect W took now d host port E = Inr (stream, info)"
  shows "case d of
     Direct \<Rightarrow> tcp_connect_detailed W host port = Inr stream \<and> info = egress_single ''direct''
   | Via up \<Rightarrow> connect_upstream W up host port E = Inr stream \<and> info = egress_single (egress_label up)
   | ViaChain chain \<Rightarrow> (\<exists>pre m post t b delay. ch_members chain = pre @ m # post \<and>
       lost_turns (chain_attempt W took host port E) (now + CHAIN_TOTAL_TIMEOUT) 0 now pre t \<and>
       remaining_budget (now + CHAIN_TOTAL_TIMEOUT) t (length pre) = Some b \<and>
       took (m_upstream m) t = Some delay \<and> delay \<le> b \<and>
       connect_upstream W (m_upstream m) host port E = Inr stream \<and>
       info = \<lparr>ei_label = egress_label (m_upstream m), ei_chain_id = Some (ch_id chain), ei_member_id = Some (m_id m),
         ei_attempts = length pre + 1\<rparr>)
   | Block \<Rightarrow> False"
proof (cases d)
  case (ViaChain chain)
  obtain r n finish where run: "try_members (chain_attempt W took host port E) (attempt_timed_out chain)
      (now + CHAIN_TOTAL_TIMEOUT) now 0 None (ch_members chain) = (r, n, finish)"
    by (metis prod_cases3)
  have "fst (connect_chain W took now chain host port E) = Inr (stream, info)"
    using assms by (simp add: ViaChain connect_def)
  then obtain m where r: "r = Inr (stream, m)" and info: "info = \<lparr>ei_label = egress_label (m_upstream m),
      ei_chain_id = Some (ch_id chain), ei_member_id = Some (m_id m), ei_attempts = n\<rparr>"
    unfolding connect_chain_def run by (auto simp: chain_result_def split: sum.splits)
  obtain pre post t b delay where "ch_members chain = pre @ m # post" "n = length pre + 1"
    "lost_turns (chain_attempt W took host port E) (now + CHAIN_TOTAL_TIMEOUT) 0 now pre t"
    "remaining_budget (now + CHAIN_TOTAL_TIMEOUT) t (length pre) = Some b"
    "chain_attempt W took host port E m t = Takes delay (Inr stream)" "delay \<le> b"
    using try_members_won [OF run [unfolded r]] by auto
  then show ?thesis unfolding ViaChain info chain_attempt_takes decision.case by blast
qed (use assms in \<open>auto simp: connect_def and_then_Inr split: sum.splits\<close>)

lemma demo_chain_connects:
  "connect demo_world demo_took 0 (ViaChain demo_chain) ''h'' 22 demo_context =
     Inr (demo_conn, \<lparr>ei_label = ''reverse:hop'', ei_chain_id = Some ''c'', ei_member_id = Some ''b'', ei_attempts = 2\<rparr>)"
  by (simp add: demo_defs connect_def connect_chain_def chain_attempt_def connect_upstream_def reverse_connect_def
      chain_result_def remaining_budget_def timeout_def chain_limits egress_label_def)

theorem connect_respects_decision_witness:
  "\<exists>pre m post t b delay. ch_members demo_chain = pre @ m # post \<and> length pre = 1 \<and>
     lost_turns (chain_attempt demo_world demo_took ''h'' 22 demo_context) (0 + CHAIN_TOTAL_TIMEOUT) 0 0 pre t \<and>
     remaining_budget (0 + CHAIN_TOTAL_TIMEOUT) t (length pre) = Some b \<and> demo_took (m_upstream m) t = Some delay \<and>
     delay \<le> b \<and> connect_upstream demo_world (m_upstream m) ''h'' 22 demo_context = Inr demo_conn"
proof -
  obtain pre m post t b delay where "ch_members demo_chain = pre @ m # post" "length pre = 1"
    "lost_turns (chain_attempt demo_world demo_took ''h'' 22 demo_context) (0 + CHAIN_TOTAL_TIMEOUT) 0 0 pre t"
    "remaining_budget (0 + CHAIN_TOTAL_TIMEOUT) t (length pre) = Some b" "demo_took (m_upstream m) t = Some delay"
    "delay \<le> b" "connect_upstream demo_world (m_upstream m) ''h'' 22 demo_context = Inr demo_conn"
    using connect_respects_decision [OF demo_chain_connects] by auto
  then show ?thesis by blast
qed

section \<open>Bytes behind the head of an HTTP upstream's response\<close>

text \<open>
  C37: bytes that follow an HTTP upstream's response in the same read are dropped. When the target
  speaks first and its first bytes arrive together with the head of the response that accepts the
  CONNECT request, the connection is handed to the tunnel without them, whatever they are.
\<close>

theorem http_upstream_loses_early_bytes:
  assumes "dial W up = Inr c" and "cn_writes c = None" and "cn_in c = Some (resp @ early) # rest"
    and "length (resp @ early) \<le> 1024" and "find_sub resp CRLF2 = Some i" and "http_2xx resp"
  shows "\<exists>c'. http_connect W up host port = Inr c' \<and> cn_in c' = rest"
proof -
  have found: "find_sub (resp @ early) CRLF2 = Some i" using find_sub_append assms(5) by blast
  have "i + 4 \<le> length resp" using assms(5) by (simp add: find_sub_Some CRLF2_def)
  then have room: "\<not> 8192 < i + 4" and "resp \<noteq> []" using assms(4) by auto
  have "read_head 8192 c' = (Inr (resp @ early), c'\<lparr>cn_in := rest\<rparr>)" if "cn_in c' = cn_in c" for c'
    unfolding read_head_def read_http_head_def read_http_head_with_remainder_def that assms(3)
    using found room \<open>resp \<noteq> []\<close> by (simp add: Let_def del: and_then_Inr take_append drop_append)
  moreover have "http_2xx (resp @ early)" using http_2xx_append [OF assms(5)] assms(6) by blast
  ultimately show ?thesis
    by (simp add: http_connect_def after_handshake_def http_handshake_def lift_io_def write_all_def assms(1,2))
qed

lemma demo_dial: "dial demo_world (demo_upstream Http ''gw:80'') = Inr demo_conn"
  by code_simp

theorem http_upstream_loses_early_bytes_witness:
  "\<exists>c'. http_connect demo_world (demo_upstream Http ''gw:80'') ''h'' 22 = Inr c' \<and> cn_in c' = []"
proof (rule http_upstream_loses_early_bytes [OF demo_dial])
  show "cn_in demo_conn = Some (demo_response @ as_bytes ''SSH-2.0'') # []" by (simp add: demo_conn_def)
  show "find_sub demo_response CRLF2 = Some 15" "http_2xx demo_response" by code_simp+
qed (simp_all add: demo_conn_def demo_response_def CRLF2_def as_bytes_def)

end
