(* ===== verification/Proxy_Io.thy ===== *)
theory Proxy_Io
  imports Rust_Io
begin

text \<open>
  Pumping bytes between a client and a target, and the stream that replays bytes already read
  (\<open>src/io.rs\<close>). Rate limits only delay the bytes, by an amount computed with floating-point
  numbers, and have no counterpart here besides the size of the buffer they go with.
\<close>

section \<open>Replaying a prefix\<close>

record prefixed_io =
  px_prefix :: bytes
  px_offset :: nat
  px_inner :: conn

definition prefixed_new :: "bytes \<Rightarrow> conn \<Rightarrow> prefixed_io" where
  "prefixed_new pre inner = \<lparr>px_prefix = pre, px_offset = 0, px_inner = inner\<rparr>"

text \<open>A read into a buffer with room for \<open>room\<close> bytes.\<close>

definition prefixed_read :: "nat \<Rightarrow> prefixed_io \<Rightarrow> (io_error + bytes) \<times> prefixed_io" where
  "prefixed_read room p =
     (if px_offset p < length (px_prefix p) \<and> 0 < room then
        let available = drop (px_offset p) (px_prefix p);
            taken = min (length available) room;
            offset = px_offset p + taken
        in (Inr (take taken available),
            if offset = length (px_prefix p) then p\<lparr>px_prefix := [], px_offset := 0\<rparr> else p\<lparr>px_offset := offset\<rparr>)
      else case read_some room (px_inner p) of (r, c) \<Rightarrow> (r, p\<lparr>px_inner := c\<rparr>))"

definition prefixed_write :: "bytes \<Rightarrow> prefixed_io \<Rightarrow> (io_error + unit) \<times> prefixed_io" where
  "prefixed_write bs p = (case write_all bs (px_inner p) of (r, c) \<Rightarrow> (r, p\<lparr>px_inner := c\<rparr>))"

section \<open>Copying\<close>

datatype error_kind = BrokenPipe | ConnectionReset | NotConnected | UnexpectedEof | OtherKind


record copy_report =
  cr_bytes :: u64
  cr_error :: "error_kind option"

definition report_ok :: "u64 \<Rightarrow> copy_report" where
  "report_ok bytes = \<lparr>cr_bytes = bytes, cr_error = None\<rparr>"

definition report_err :: "u64 \<Rightarrow> error_kind \<Rightarrow> copy_report" where
  "report_err bytes e = \<lparr>cr_bytes = bytes, cr_error = Some e\<rparr>"

definition into_result :: "copy_report \<Rightarrow> error_kind + u64" where
  "into_result r = (case cr_error r of Some e \<Rightarrow> Inl e | None \<Rightarrow> Inr (cr_bytes r))"

text \<open>
  The loop with a buffer of \<open>room\<close> bytes. The kinds of the errors of the two streams are
  parameters, like the errors themselves.
\<close>

lemma read_some_bytes:
  assumes "read_some room c = (Inr bs, c')" and "bs \<noteq> []"
  shows "arriving (cn_in c) = bs @ arriving (cn_in c')"
  using assms by (auto simp: read_some_def arriving_def split: list.splits option.splits)

lemma read_some_shrinks:
  "(Inr bs, c') = read_some room c \<Longrightarrow> bs \<noteq> [] \<Longrightarrow> length (arriving (cn_in c')) < length (arriving (cn_in c))"
  using read_some_bytes [of room c bs c'] by simp


function copy_loop ::
  "nat \<Rightarrow> (io_error \<Rightarrow> error_kind) \<Rightarrow> (io_error \<Rightarrow> error_kind) \<Rightarrow> conn \<Rightarrow> conn \<Rightarrow> u64 \<Rightarrow> copy_report \<times> conn \<times> conn" where
  "copy_loop room kr kw r w moved =
     (case read_some room r of
        (Inl e, r') \<Rightarrow> (report_err moved (kr e), r', w)
      | (Inr bs, r') \<Rightarrow>
          if bs = [] then (report_ok moved, r', shutdown w)
          else (case write_all bs w of
             (Inl e, w') \<Rightarrow> (report_err moved (kw e), r', w')
           | (Inr _, w') \<Rightarrow> copy_loop room kr kw r' w' (moved + word_of_nat (length bs))))"
  by pat_completeness auto
termination
  by (relation "measure (\<lambda>(room, kr, kw, r, w, moved). length (arriving (cn_in r)))")
    (auto dest: read_some_shrinks)

definition copy_unlimited_report ::
  "(io_error \<Rightarrow> error_kind) \<Rightarrow> (io_error \<Rightarrow> error_kind) \<Rightarrow> conn \<Rightarrow> conn \<Rightarrow> copy_report \<times> conn \<times> conn" where
  "copy_unlimited_report kr kw r w = copy_loop (64 * 1024) kr kw r w 0"

definition copy_throttled_report ::
  "u64 \<Rightarrow> (io_error \<Rightarrow> error_kind) \<Rightarrow> (io_error \<Rightarrow> error_kind) \<Rightarrow> conn \<Rightarrow> conn \<Rightarrow> copy_report \<times> conn \<times> conn" where
  "copy_throttled_report rate kr kw r w =
     (if rate = 0 then copy_unlimited_report kr kw r w else copy_loop (32 * 1024) kr kw r w 0)"

definition copy_throttled ::
  "u64 \<Rightarrow> (io_error \<Rightarrow> error_kind) \<Rightarrow> (io_error \<Rightarrow> error_kind) \<Rightarrow> conn \<Rightarrow> conn \<Rightarrow> (error_kind + u64) \<times> conn \<times> conn" where
  "copy_throttled rate kr kw r w = (case copy_throttled_report rate kr kw r w of (rep, rw) \<Rightarrow> (into_result rep, rw))"




declare copy_loop.simps [simp del]

section \<open>What is copied\<close>















section \<open>A replayed prefix\<close>

text \<open>What a reader with the given buffer sizes gets, until the first read that fails.\<close>

fun prefixed_reads :: "nat list \<Rightarrow> prefixed_io \<Rightarrow> bytes \<times> prefixed_io" where
  "prefixed_reads [] p = ([], p)"
| "prefixed_reads (room # rooms) p =
     (case prefixed_read room p of
        (Inl e, p) \<Rightarrow> ([], p)
      | (Inr bs, p) \<Rightarrow> (case prefixed_reads rooms p of (rest, p) \<Rightarrow> (bs @ rest, p)))"

definition prefixed_arriving :: "prefixed_io \<Rightarrow> bytes" where
  "prefixed_arriving p = drop (px_offset p) (px_prefix p) @ arriving (cn_in (px_inner p))"

lemma read_some_arriving:
  "live_chunks (cn_in c) \<Longrightarrow> read_some room c = (Inr bs, c') \<Longrightarrow>
     arriving (cn_in c) = bs @ arriving (cn_in c') \<and> live_chunks (cn_in c')"
  by (auto simp: read_some_def live_chunks_def arriving_def split: list.splits option.splits if_splits)

lemma read_some_zero: "read_some 0 c = (Inr bs, c') \<Longrightarrow> bs = []"
  by (auto simp: read_some_def split: list.splits option.splits)

lemma drop_in_two: "take n (drop a xs) @ drop (a + n) xs = drop a xs"
  by (metis add.commute append_take_drop_id drop_drop)

lemma prefixed_read_arriving:
  assumes "live_chunks (cn_in (px_inner p))" and "prefixed_read room p = (Inr bs, p')"
  shows "prefixed_arriving p = bs @ prefixed_arriving p' \<and> live_chunks (cn_in (px_inner p'))"
proof (cases "px_offset p < length (px_prefix p) \<and> 0 < room")
  case True
  then show ?thesis
    using assms by (auto simp: prefixed_read_def prefixed_arriving_def Let_def min_def
        drop_in_two [symmetric] split: if_splits)
next
  case False
  then show ?thesis
    using assms read_some_arriving [of "px_inner p" room bs]
    by (auto simp: prefixed_read_def prefixed_arriving_def split: prod.splits dest!: read_some_zero)
qed

lemma prefixed_read_error: "prefixed_read room p = (Inl e, q) \<Longrightarrow> prefixed_arriving q = prefixed_arriving p"
  by (auto simp: prefixed_read_def prefixed_arriving_def read_some_def arriving_def Let_def
      split: if_splits prod.splits list.splits option.splits)

lemma prefixed_reads_arriving:
  "live_chunks (cn_in (px_inner p)) \<Longrightarrow> prefixed_reads rooms p = (bs, p') \<Longrightarrow>
     prefixed_arriving p = bs @ prefixed_arriving p'"
proof (induction rooms arbitrary: p bs)
  case (Cons room rooms)
  obtain r q where read: "prefixed_read room p = (r, q)" by force
  show ?case
  proof (cases r)
    case (Inl e)
    then show ?thesis using Cons.prems(2) read prefixed_read_error [OF read [unfolded Inl]] by simp
  next
    case (Inr a)
    obtain rest q' where rest: "prefixed_reads rooms q = (rest, q')" by force
    then have "bs = a @ rest" "p' = q'" using Cons.prems(2) read Inr by simp_all
    then show ?thesis
      using prefixed_read_arriving [OF Cons.prems(1) read [unfolded Inr]] Cons.IH rest by fastforce
  qed
qed simp

end
