(* ===== verification/Sniff_Names.thy ===== *)
theory Sniff_Names
  imports Rust_Net_Text
begin

text \<open>
  The names a connection may be classified by (\<open>src/sniff.rs\<close>): parsing of authorities, rejection of
  addresses in any notation, normalisation of DNS names, and what a normalised name looks like.
\<close>

section \<open>Names\<close>

definition parse_u64_radix :: "nat \<Rightarrow> string \<Rightarrow> u64 option" where
  "parse_u64_radix radix s = map_option word_of_nat (from_str_radix (2 ^ 64 - 1) radix s)"

definition parse_ipv4_number :: "string \<Rightarrow> u64 option" where
  "parse_ipv4_number part =
     (if part = [] then None
      else case (case strip_prefix part ''0x'' of Some h \<Rightarrow> Some h | None \<Rightarrow> strip_prefix part ''0X'') of
        Some hex \<Rightarrow> if hex = [] then Some 0 else parse_u64_radix 16 hex
      | None \<Rightarrow>
          if 1 < length part \<and> starts_with part ''0''
          then (case parse_u64_radix 8 part of Some v \<Rightarrow> Some v | None \<Rightarrow> parse_u64_radix 10 part)
          else parse_u64_radix 10 part)"

text \<open>The loop over the parts with the values found so far; \<open>None\<close> is an early \<open>false\<close>.\<close>

fun legacy_parts :: "u64 list \<Rightarrow> string list \<Rightarrow> u64 list option" where
  "legacy_parts vs [] = Some vs"
| "legacy_parts vs (part # parts) =
     (if length vs = 4 then None
      else case parse_ipv4_number part of None \<Rightarrow> None | Some v \<Rightarrow> legacy_parts (vs @ [v]) parts)"

definition is_legacy_ipv4_address :: "string \<Rightarrow> bool" where
  "is_legacy_ipv4_address host =
     (case legacy_parts [] (split_on (CHR ''.'') host) of
        None \<Rightarrow> False
      | Some vs \<Rightarrow>
          (case vs of
             [a] \<Rightarrow> a \<le> 0xFFFFFFFF
           | [a, b] \<Rightarrow> a \<le> 0xFF \<and> b \<le> 0x00FFFFFF
           | [a, b, c] \<Rightarrow> a \<le> 0xFF \<and> b \<le> 0xFF \<and> c \<le> 0xFFFF
           | [a, b, c, d] \<Rightarrow> list_all (\<lambda>v. v \<le> 0xFF) [a, b, c, d]
           | _ \<Rightarrow> False))"

definition label_ok :: "string \<Rightarrow> bool" where
  "label_ok l \<longleftrightarrow>
     \<not> (l = [] \<or> 63 < length l \<or> \<not> list_all (\<lambda>b. is_ascii_alphanumeric b \<or> b = CHR ''-'') l \<or>
        \<not> is_ascii_alphanumeric (hd l) \<or> \<not> is_ascii_alphanumeric (last l))"

definition normalize_dns_name :: "string \<Rightarrow> string option" where
  "normalize_dns_name host0 =
     (let host = trim_end_matches (CHR ''.'') (trim host0)
      in if host = [] \<or> 253 < length host \<or> \<not> is_ascii host \<or> parse_ip_addr host \<noteq> None \<or> is_legacy_ipv4_address host
         then None
         else if \<not> list_all label_ok (split_on (CHR ''.'') host) then None
         else Some (to_ascii_lowercase host))"

definition is_ascii_whitespace :: "char \<Rightarrow> bool" where
  "is_ascii_whitespace c \<longleftrightarrow> c \<in> {CHR '' '', CHR 0x09, CHR 0x0A, CHR 0x0C, CHR 0x0D}"

definition count_char :: "char \<Rightarrow> string \<Rightarrow> nat" where
  "count_char c s = length (filter (\<lambda>x. x = c) s)"

definition normalize_http_authority :: "string \<Rightarrow> string option" where
  "normalize_http_authority authority0 =
     (let authority = trim authority0
      in if authority = [] \<or> starts_with authority ''['' \<or>
            list_ex (\<lambda>c. c \<in> {CHR ''@'', CHR ''/'', CHR 0x5C}) authority \<or> list_ex is_ascii_whitespace authority
         then None
         else if count_char (CHR '':'') authority = 0 then normalize_dns_name authority
         else if count_char (CHR '':'') authority = 1 then
           (case rsplit_once (CHR '':'') authority of
              None \<Rightarrow> None
            | Some (host, port) \<Rightarrow> (case parse_u16 port of
                None \<Rightarrow> None
              | Some p \<Rightarrow> if p = 0 then None else normalize_dns_name host))
         else None)"

definition normalize_connect_authority :: "string \<Rightarrow> string option" where
  "normalize_connect_authority authority =
     (if count_char (CHR '':'') authority = 1 then normalize_http_authority authority else None)"

section \<open>Normalised names\<close>

text \<open>Reading addresses and numbers does not tell upper from lower case.\<close>

abbreviation lowered :: "('a \<times> string) option \<Rightarrow> ('a \<times> string) option" where
  "lowered \<equiv> map_option (map_prod id to_ascii_lowercase)"

lemma to_lower_char_code:
  "of_char (to_lower_char c) = (if 65 \<le> (of_char c :: nat) \<and> of_char c \<le> (90 :: nat) then of_char c + 32 else (of_char c :: nat))"
  using of_char_mod_256 [of c, where ?'a = nat]
  by (auto simp: to_lower_char_def char_in_def)

lemma to_digit_lower [simp]: "to_digit radix (to_lower_char c) = to_digit radix c"
  by (auto simp: to_digit_def Let_def to_lower_char_code)

lemma lower_eq_char:
  assumes "\<not> (65 \<le> (of_char d :: nat) \<and> of_char d \<le> (90 :: nat))" and "\<not> (97 \<le> (of_char d :: nat) \<and> of_char d \<le> (122 :: nat))"
  shows "to_lower_char c = d \<longleftrightarrow> c = d"
proof -
  have "to_lower_char c = d \<longleftrightarrow> (of_char (to_lower_char c) :: nat) = of_char d" by simp
  also have "\<dots> \<longleftrightarrow> (of_char c :: nat) = of_char d" using assms unfolding to_lower_char_code by auto
  finally show ?thesis by simp
qed

lemma to_lower_idem [simp]: "to_lower_char (to_lower_char c) = to_lower_char c"
proof -
  have "(of_char (to_lower_char (to_lower_char c)) :: nat) = of_char (to_lower_char c)"
    unfolding to_lower_char_code [of "to_lower_char c"] unfolding to_lower_char_code by auto
  then show ?thesis by simp
qed

lemma lower_simps [simp]:
  "to_ascii_lowercase [] = []" "to_ascii_lowercase (c # cs) = to_lower_char c # to_ascii_lowercase cs"
  "to_ascii_lowercase (a @ b) = to_ascii_lowercase a @ to_ascii_lowercase b"
  "to_ascii_lowercase (to_ascii_lowercase s) = to_ascii_lowercase s" "length (to_ascii_lowercase s) = length s"
  "to_ascii_lowercase s = [] \<longleftrightarrow> s = []"
  by (simp_all add: to_ascii_lowercase_def)

lemma digit_run_lower: "digit_run radix (to_ascii_lowercase s) = map_prod id to_ascii_lowercase (digit_run radix s)"
  by (induction s) (auto split: option.split prod.splits)

lemma digits_value_lower [simp]: "digits_value radix acc (to_ascii_lowercase s) = digits_value radix acc s"
  by (induction radix acc s rule: digits_value.induct) (auto split: option.split)

lemma read_number_lower: "read_number radix m z v (to_ascii_lowercase s) = lowered (read_number radix m z v s)"
proof (cases s)
  case (Cons c cs)
  have "to_lower_char c = CHR ''0'' \<longleftrightarrow> c = CHR ''0''" by (rule lower_eq_char) simp_all
  then show ?thesis
    unfolding read_number_def digit_run_lower
    by (auto simp: Cons Let_def split: prod.splits option.splits)
qed (simp add: read_number_def Let_def)

lemma read_given_char_lower:
  assumes "d = CHR ''.'' \<or> d = CHR '':''"
  shows "read_given_char d (to_ascii_lowercase s) = lowered (read_given_char d s)"
proof (cases s)
  case (Cons c cs)
  have "to_lower_char c = d \<longleftrightarrow> c = d" using assms by (intro lower_eq_char) auto
  then show ?thesis by (simp add: Cons read_given_char_def)
qed (simp add: read_given_char_def)

lemma read_separator_lower:
  assumes "d = CHR ''.'' \<or> d = CHR '':''" and "\<And>s. inner (to_ascii_lowercase s) = lowered (inner s)"
  shows "read_separator d i inner (to_ascii_lowercase s) = lowered (read_separator d i inner s)"
  using assms(2) unfolding read_separator_def read_given_char_lower [OF assms(1)] by (auto split: option.splits)

lemma read_octets_lower: "read_octets n i (to_ascii_lowercase s) = lowered (read_octets n i s)"
proof (induction n i s rule: read_octets.induct)
  case (2 n i s)
  have "read_separator (CHR ''.'') i (read_number 10 (Some 3) False 255) (to_ascii_lowercase s) =
      lowered (read_separator (CHR ''.'') i (read_number 10 (Some 3) False 255) s)"
    by (rule read_separator_lower) (simp_all add: read_number_lower)
  with 2 show ?case by (auto split: option.splits)
qed simp

lemma read_ipv4_lower: "read_ipv4_addr (to_ascii_lowercase s) = lowered (read_ipv4_addr s)"
  unfolding read_ipv4_addr_def read_octets_lower by (auto simp: map_option_case split: option.splits)

lemma read_groups_lower:
  "read_groups n i (to_ascii_lowercase s) = map_prod id (map_prod id to_ascii_lowercase) (read_groups n i s)"
proof (induction n i s rule: read_groups.induct)
  case (2 left i s)
  have "read_separator (CHR '':'') i read_ipv4_addr (to_ascii_lowercase s) = lowered (read_separator (CHR '':'') i read_ipv4_addr s)"
    "read_separator (CHR '':'') i (read_number 16 (Some 4) True 65535) (to_ascii_lowercase s) =
      lowered (read_separator (CHR '':'') i (read_number 16 (Some 4) True 65535) s)"
    by (rule read_separator_lower; simp add: read_ipv4_lower read_number_lower)+
  with 2 show ?case by (auto split: option.splits prod.splits)
qed simp

lemma read_ipv6_lower: "read_ipv6_addr (to_ascii_lowercase s) = lowered (read_ipv6_addr s)"
  unfolding read_ipv6_addr_def read_groups_lower
  by (auto simp: Let_def read_given_char_lower read_groups_lower split: option.splits prod.splits)

lemma parse_ip_addr_lower [simp]: "parse_ip_addr (to_ascii_lowercase s) = parse_ip_addr s"
proof -
  have "read_ip_addr (to_ascii_lowercase s) = lowered (read_ip_addr s)"
    unfolding read_ip_addr_def read_ipv4_lower read_ipv6_lower by (auto simp: map_option_case split: option.splits)
  then show ?thesis by (auto simp: parse_ip_addr_def parse_with_def split: option.splits list.splits)
qed

lemma lower_dot [simp]: "to_lower_char c = CHR ''.'' \<longleftrightarrow> c = CHR ''.''" "to_lower_char c = CHR ''-'' \<longleftrightarrow> c = CHR ''-''"
    "to_lower_char c = CHR ''+'' \<longleftrightarrow> c = CHR ''+''" "to_lower_char c = CHR ''0'' \<longleftrightarrow> c = CHR ''0''"
  by (simp_all add: lower_eq_char)

lemma lower_zero [simp]: "CHR ''0'' = to_lower_char c \<longleftrightarrow> CHR ''0'' = c"
  using lower_dot(4) [of c] by metis

lemma split_on_lower: "split_on (CHR ''.'') (to_ascii_lowercase s) = map to_ascii_lowercase (split_on (CHR ''.'') s)"
  by (induction s) (auto split: list.splits)

lemma from_str_radix_lower [simp]: "from_str_radix m radix (to_ascii_lowercase s) = from_str_radix m radix s"
proof -
  let ?digits = "\<lambda>s :: string. if 1 < length s \<and> hd s = CHR ''+'' then tl s else s"
  have "?digits (to_ascii_lowercase s) = to_ascii_lowercase (?digits s)" by (cases s) auto
  then show ?thesis unfolding from_str_radix_def Let_def by simp
qed

lemma strip_hex_lower:
  "(case strip_prefix (to_ascii_lowercase s) ''0x'' of Some h \<Rightarrow> Some h | None \<Rightarrow> strip_prefix (to_ascii_lowercase s) ''0X'') =
     map_option to_ascii_lowercase (case strip_prefix s ''0x'' of Some h \<Rightarrow> Some h | None \<Rightarrow> strip_prefix s ''0X'')"
proof -
  have x: "to_lower_char c = CHR ''x'' \<longleftrightarrow> c = CHR ''x'' \<or> c = CHR ''X''" "to_lower_char c \<noteq> CHR ''X''" for c
  proof -
    have code: "d = CHR ''x'' \<longleftrightarrow> (of_char d :: nat) = 120" "d = CHR ''X'' \<longleftrightarrow> (of_char d :: nat) = 88" for d
      using of_char_eq_iff [of d "CHR ''x''", where ?'a = nat] of_char_eq_iff [of d "CHR ''X''", where ?'a = nat] by simp_all
    show "to_lower_char c = CHR ''x'' \<longleftrightarrow> c = CHR ''x'' \<or> c = CHR ''X''" "to_lower_char c \<noteq> CHR ''X''"
      unfolding code to_lower_char_code by auto
  qed
  show ?thesis
  proof (cases "\<exists>a b t. s = a # b # t")
    case True
    then obtain a b t where s: "s = a # b # t" by blast
    have "CHR ''x'' = to_lower_char c \<longleftrightarrow> CHR ''x'' = c \<or> CHR ''X'' = c" "CHR ''X'' \<noteq> to_lower_char c"
      "CHR ''0'' = to_lower_char c \<longleftrightarrow> CHR ''0'' = c" for c
      using x [of c] lower_dot(4) [of c] by metis+
    then show ?thesis by (auto simp: s strip_prefix_def starts_with_def)
  next
    case False
    then have "s = [] \<or> (\<exists>a. s = [a])" by (metis neq_Nil_conv)
    then show ?thesis by (auto simp: strip_prefix_def starts_with_def)
  qed
qed

lemma parse_ipv4_number_lower [simp]: "parse_ipv4_number (to_ascii_lowercase s) = parse_ipv4_number s"
proof -
  have "starts_with (to_ascii_lowercase s) ''0'' = starts_with s ''0''" by (cases s) (auto simp: starts_with_def)
  then show ?thesis
    unfolding parse_ipv4_number_def strip_hex_lower by (auto simp: parse_u64_radix_def split: option.split)
qed

lemma legacy_parts_lower: "legacy_parts vs (map to_ascii_lowercase parts) = legacy_parts vs parts"
  by (induction vs parts rule: legacy_parts.induct) (auto split: option.split)

lemma is_legacy_lower [simp]: "is_legacy_ipv4_address (to_ascii_lowercase s) = is_legacy_ipv4_address s"
  by (simp add: is_legacy_ipv4_address_def split_on_lower legacy_parts_lower)

lemma alphanumeric_lower [simp]: "is_ascii_alphanumeric (to_lower_char c) = is_ascii_alphanumeric c"
  by (auto simp: is_ascii_alphanumeric_def is_ascii_digit_def is_ascii_lowercase_def char_in_def to_lower_char_code)

lemma label_ok_lower [simp]: "label_ok (to_ascii_lowercase l) = label_ok l"
  by (cases "l = []") (auto simp: label_ok_def to_ascii_lowercase_def list_all_iff hd_map last_map)

lemma split_on_covers: "c \<in> set s \<Longrightarrow> c = d \<or> (\<exists>l \<in> set (split_on d s). c \<in> set l)"
proof (induction s)
  case (Cons x xs)
  obtain seg segs where "split_on d xs = seg # segs" by (metis list.exhaust split_on_ne)
  with Cons show ?case by auto
qed simp

lemma label_char: "label_ok l \<Longrightarrow> c \<in> set l \<Longrightarrow> is_ascii_alphanumeric c \<or> c = CHR ''-''"
  by (simp add: label_ok_def list_all_iff)

lemma alphanumeric_range: "is_ascii_alphanumeric c \<Longrightarrow> char_in 48 122 c"
  by (auto simp: is_ascii_alphanumeric_def is_ascii_digit_def is_ascii_lowercase_def char_in_def)

lemma labels_visible:
  assumes "list_all label_ok (split_on (CHR ''.'') s)"
  shows "visible s"
proof -
  have "char_in 33 126 c" if "c \<in> set s" for c
  proof -
    have "c = CHR ''.'' \<or> is_ascii_alphanumeric c \<or> c = CHR ''-''"
      using split_on_covers [OF that, of "CHR ''.''"] assms label_char unfolding list_all_iff by blast
    then show ?thesis
    proof (elim disjE)
      assume "is_ascii_alphanumeric c"
      then show ?thesis using alphanumeric_range by (fastforce simp: char_in_def)
    qed (simp_all add: char_in_def)
  qed
  then show ?thesis by (simp add: visible_def list_all_iff)
qed

lemma split_on_last: "last s = d \<Longrightarrow> s \<noteq> [] \<Longrightarrow> last (split_on d s) = []"
proof (induction s)
  case (Cons x xs)
  obtain seg segs where seg: "split_on d xs = seg # segs" by (metis list.exhaust split_on_ne)
  show ?case
  proof (cases "xs = []")
    case False
    then show ?thesis using Cons seg join_split_on [of d xs] by (cases segs) (auto split: if_splits)
  qed (use Cons in simp)
qed simp

lemma trim_end_matches_id: "s = [] \<or> last s \<noteq> c \<Longrightarrow> trim_end_matches c s = s"
  by (cases s rule: rev_cases) (auto simp: trim_end_matches_def)

text \<open>What is accepted as a name: lower case, labels of letters, digits and inner hyphens, and no address.\<close>

definition dns_name :: "string \<Rightarrow> bool" where
  "dns_name h \<longleftrightarrow> h \<noteq> [] \<and> length h \<le> 253 \<and> list_all label_ok (split_on (CHR ''.'') h) \<and> to_ascii_lowercase h = h \<and>
     parse_ip_addr h = None \<and> \<not> is_legacy_ipv4_address h"

lemma normalize_dns_name_sound: "normalize_dns_name s = Some h \<Longrightarrow> dns_name h"
  by (auto simp: normalize_dns_name_def dns_name_def Let_def split_on_lower list_all_iff split: if_splits)

lemma normalize_dns_name_fixed:
  assumes "dns_name h"
  shows "normalize_dns_name h = Some h"
proof -
  have vis: "visible h" using assms labels_visible by (simp add: dns_name_def)
  have "label_ok (last (split_on (CHR ''.'') h))" using assms by (simp add: dns_name_def list_all_iff)
  then have "last h \<noteq> CHR ''.''" using split_on_last [of h "CHR ''.''"] assms by (auto simp: label_ok_def dns_name_def)
  then have "trim_end_matches (CHR ''.'') (trim h) = h" using trim_visible [OF vis] by (simp add: trim_end_matches_id)
  moreover have "is_ascii h" using vis by (auto simp: is_ascii_def visible_def list_all_iff char_in_def)
  ultimately show ?thesis using assms by (simp add: normalize_dns_name_def dns_name_def Let_def)
qed

lemma normalize_http_authority_sound: "normalize_http_authority a = Some h \<Longrightarrow> dns_name h"
  by (auto simp: normalize_http_authority_def Let_def split: if_splits option.splits intro: normalize_dns_name_sound)

end
