(* ===== verification/Proxy_Sniff.thy ===== *)
theory Proxy_Sniff
  imports Proxy_Io Proxy_Util Sniff_Names
begin

text \<open>
  Classification of the first bytes of a connection (\<open>src/sniff.rs\<close>): the name a client wants from
  a TLS ClientHello or an HTTP request, by a passive observer, by a reader that captures the bytes
  to replay them, and on a whole buffer. The TLS and HTTP parsers and the URL parser are packages
  and parameters. Times are nanoseconds; a read that returns carries the time it returns at.
\<close>

section \<open>Parsers outside the program\<close>

record http_request =
  rq_method :: "string option"
  rq_path :: "string option"
  rq_headers :: "(string \<times> bytes) list"

datatype http_parse = HttpPartial | HttpError | HttpComplete http_request

datatype url_host = UrlDomain string | UrlAddress

record url =
  url_scheme :: string
  url_username :: string
  url_password :: "string option"
  url_fragment :: "string option"
  url_hostname :: "url_host option"

text \<open>
  \<open>read_tls\<close> takes some of the bytes it is offered, or fails; \<open>accept\<close> fails, wants more, or gives the
  server name of a complete ClientHello.
\<close>

record 'a parsers =
  tls_new :: 'a
  read_tls :: "'a \<Rightarrow> bytes \<Rightarrow> (nat \<times> 'a) option"
  tls_accept :: "'a \<Rightarrow> (string option option) option \<times> 'a"
  parse_request :: "bytes \<Rightarrow> http_parse"
  parse_url :: "string \<Rightarrow> url option"

section \<open>Results\<close>

definition HARD_MAX_SNIFF_BYTES :: nat where "HARD_MAX_SNIFF_BYTES = 64 * 1024"
definition DEFAULT_MAX_SNIFF_BYTES :: nat where "DEFAULT_MAX_SNIFF_BYTES = 16 * 1024"

datatype sniff_protocol = SniffTls | SniffHttp

definition sniff_protocol_str :: "sniff_protocol \<Rightarrow> string" where
  "sniff_protocol_str p = (case p of SniffTls \<Rightarrow> ''tls'' | SniffHttp \<Rightarrow> ''http'')"

record sniffed_host =
  sh_protocol :: sniff_protocol
  sh_host :: string

datatype sniff_result = Matched sniffed_host | NeedMore | Unsupported | Malformed | LimitExceeded

datatype sniff_outcome =
  OutMatched | OutUnsupported | OutTimeout | OutMalformed | OutLimitExceeded | OutIncomplete

definition sniff_outcome_str :: "sniff_outcome \<Rightarrow> string" where
  "sniff_outcome_str out =
     (case out of OutMatched \<Rightarrow> ''matched'' | OutUnsupported \<Rightarrow> ''unsupported'' | OutTimeout \<Rightarrow> ''timeout''
      | OutMalformed \<Rightarrow> ''malformed'' | OutLimitExceeded \<Rightarrow> ''limit_exceeded'' | OutIncomplete \<Rightarrow> ''incomplete'')"

record sniff_observation =
  so_outcome :: sniff_outcome
  so_protocol :: "sniff_protocol option"
  so_host :: "string option"

definition terminal :: "sniff_outcome \<Rightarrow> sniff_observation" where
  "terminal out = \<lparr>so_outcome = out, so_protocol = None, so_host = None\<rparr>"

definition observation_matched :: "sniffed_host \<Rightarrow> sniff_observation" where
  "observation_matched v = \<lparr>so_outcome = OutMatched, so_protocol = Some (sh_protocol v), so_host = Some (sh_host v)\<rparr>"

definition matched :: "sniff_protocol \<Rightarrow> string \<Rightarrow> sniff_result" where
  "matched protocol host = Matched \<lparr>sh_protocol = protocol, sh_host = host\<rparr>"

section \<open>Names in URLs\<close>

definition normalize_absolute_http_target :: "'a parsers \<Rightarrow> string \<Rightarrow> string option" where
  "normalize_absolute_http_target P target =
     (case parse_url P target of
        None \<Rightarrow> None
      | Some u \<Rightarrow>
          if url_scheme u \<notin> {''http'', ''https''} \<or> url_username u \<noteq> [] \<or> url_password u \<noteq> None \<or> url_fragment u \<noteq> None
          then None
          else (case url_hostname u of
             None \<Rightarrow> None
           | Some (UrlDomain host) \<Rightarrow> normalize_dns_name host
           | Some UrlAddress \<Rightarrow> None))"

section \<open>HTTP\<close>

definition is_http_token_byte :: "u8 \<Rightarrow> bool" where
  "is_http_token_byte b \<longleftrightarrow>
     is_ascii_alphanumeric (char_of (unat b)) \<or>
     char_of (unat b) \<in> set ''!#$%&*+-.^_`|~'' \<union> {CHR 0x27}"

fun skip_newlines :: "bytes \<Rightarrow> bytes" where
  "skip_newlines (a # b # bs) = (if a = 13 \<and> b = 10 then skip_newlines bs else a # b # bs)"
| "skip_newlines bs = bs"

definition could_be_http :: "bytes \<Rightarrow> bool" where
  "could_be_http pre =
     (case skip_newlines pre of [] \<Rightarrow> True | b # bs \<Rightarrow> (b = 13 \<and> bs = []) \<or> is_http_token_byte b)"

fun unique_http_host :: "string option \<Rightarrow> (string \<times> bytes) list \<Rightarrow> unit + string option" where
  "unique_http_host host [] = Inr host"
| "unique_http_host host ((name, v) # headers) =
     (if \<not> eq_ignore_ascii_case name ''host'' then unique_http_host host headers
      else if host \<noteq> None then Inl ()
      else if \<not> utf8_valid v then Inl ()
      else case normalize_http_authority (of_bytes v) of
        None \<Rightarrow> Inl ()
      | Some h \<Rightarrow> unique_http_host (Some h) headers)"

definition http_request_host :: "'a parsers \<Rightarrow> http_request \<Rightarrow> unit + string option" where
  "http_request_host P request =
     and_then (unique_http_host None (rq_headers request)) (\<lambda>header_host.
     and_then (ok_or (rq_method request) ()) (\<lambda>method.
     and_then (ok_or (rq_path request) ()) (\<lambda>target.
       if eq_ignore_ascii_case method ''CONNECT'' then ok_or (map_option Some (normalize_connect_authority target)) ()
       else if starts_with target ''http://'' \<or> starts_with target ''https://'' then
         ok_or (map_option Some (normalize_absolute_http_target P target)) ()
       else if target = ''*'' \<or> starts_with target ''/'' then Inr header_host
       else Inl ())))"

definition classify_http :: "'a parsers \<Rightarrow> bytes \<Rightarrow> sniff_result" where
  "classify_http P pre =
     (case parse_request P pre of
        HttpPartial \<Rightarrow> NeedMore
      | HttpError \<Rightarrow> Malformed
      | HttpComplete request \<Rightarrow>
          (case http_request_host P request of
             Inl _ \<Rightarrow> Malformed
           | Inr (Some host) \<Rightarrow> matched SniffHttp host
           | Inr None \<Rightarrow> Unsupported))"

definition http_observation :: "sniff_result \<Rightarrow> sniff_observation" where
  "http_observation r =
     (case r of
        Matched v \<Rightarrow> observation_matched v
      | Unsupported \<Rightarrow> terminal OutUnsupported
      | _ \<Rightarrow> terminal OutMalformed)"

text \<open>The result, the bytes kept and the place the next scan starts from.\<close>

definition observe_http_incremental ::
  "'a parsers \<Rightarrow> bytes \<Rightarrow> nat \<Rightarrow> bytes \<Rightarrow> sniff_observation option \<times> bytes \<times> nat" where
  "observe_http_incremental P pre0 scan_from bs =
     (let pre = pre0 @ bs; start = scan_from - 3
      in case find_sub (drop start pre) CRLF2 of
           None \<Rightarrow> (None, pre, length pre)
         | Some relative \<Rightarrow>
             (Some (http_observation (classify_http P (take (start + relative + 4) pre))), pre, scan_from))"

section \<open>TLS\<close>

definition tls_host :: "string option \<Rightarrow> sniff_result" where
  "tls_host name =
     (case name of
        Some host \<Rightarrow> (case normalize_dns_name host of Some host \<Rightarrow> matched SniffTls host | None \<Rightarrow> Malformed)
      | None \<Rightarrow> Unsupported)"

text \<open>A reader cannot take more bytes than there are.\<close>

function tls_loop :: "'a parsers \<Rightarrow> 'a \<Rightarrow> bytes \<Rightarrow> sniff_result \<times> 'a" where
  "tls_loop P acceptor bs =
     (case read_tls P acceptor bs of
        None \<Rightarrow> (Malformed, acceptor)
      | Some (n, acceptor) \<Rightarrow>
          (case tls_accept P acceptor of
             (Some (Some name), acceptor) \<Rightarrow> (tls_host name, acceptor)
           | (Some None, acceptor) \<Rightarrow>
               if min n (length bs) = 0 then (NeedMore, acceptor) else tls_loop P acceptor (drop n bs)
           | (None, acceptor) \<Rightarrow> (Malformed, acceptor)))"
  by pat_completeness auto
termination
  by (relation "measure (\<lambda>(P, acceptor, bs). length bs)") auto

declare tls_loop.simps [simp del]

definition observe_tls_incremental :: "'a parsers \<Rightarrow> 'a \<Rightarrow> bytes \<Rightarrow> sniff_observation option \<times> 'a" where
  "observe_tls_incremental P acceptor bs =
     (case tls_loop P acceptor bs of
        (NeedMore, acceptor) \<Rightarrow> (None, acceptor)
      | (r, acceptor) \<Rightarrow> (Some (http_observation r), acceptor))"

definition classify_tls :: "'a parsers \<Rightarrow> bytes \<Rightarrow> sniff_result" where
  "classify_tls P pre = fst (tls_loop P (tls_new P) pre)"

definition classify_prefix :: "'a parsers \<Rightarrow> bytes \<Rightarrow> nat \<Rightarrow> sniff_result" where
  "classify_prefix P pre max_bytes =
     (let limit = min max_bytes HARD_MAX_SNIFF_BYTES
      in if limit < length pre then LimitExceeded
         else let result = (case pre of
                  [] \<Rightarrow> NeedMore
                | b # _ \<Rightarrow>
                    if b = 0x16 then classify_tls P pre
                    else if could_be_http pre then classify_http P pre
                    else Unsupported)
              in if result = NeedMore \<and> limit \<le> length pre then LimitExceeded else result)"

section \<open>The observer\<close>

datatype 'a observe_parser = Undecided | ParseTls 'a | ParseHttp nat | ParserDone

record 'a observe_state =
  os_parser :: "'a observe_parser"
  os_prefix :: bytes
  os_observed_bytes :: nat
  os_max_bytes :: nat
  os_started :: nat
  os_timeout :: nat
  os_observation :: "sniff_observation option"

definition observe_new :: "nat \<Rightarrow> nat \<Rightarrow> nat \<Rightarrow> 'a observe_state" where
  "observe_new max_bytes timeout now =
     \<lparr>os_parser = Undecided, os_prefix = [], os_observed_bytes = 0, os_max_bytes = min max_bytes HARD_MAX_SNIFF_BYTES,
      os_started = now, os_timeout = timeout, os_observation = None\<rparr>"

definition finish :: "sniff_observation \<Rightarrow> 'a observe_state \<Rightarrow> 'a observe_state" where
  "finish ob st = st\<lparr>os_observation := Some ob, os_parser := ParserDone, os_prefix := []\<rparr>"

definition finish_timeout :: "'a observe_state \<Rightarrow> 'a observe_state" where
  "finish_timeout st = (if os_observation st = None then finish (terminal OutTimeout) st else st)"

definition expired_outcome :: "nat \<Rightarrow> 'a observe_state \<Rightarrow> sniff_outcome" where
  "expired_outcome now st = (if os_timeout st \<le> now - os_started st then OutTimeout else OutIncomplete)"

definition finish_stream :: "nat \<Rightarrow> 'a observe_state \<Rightarrow> 'a observe_state" where
  "finish_stream now st =
     (if os_observation st \<noteq> None then st else finish (terminal (expired_outcome now st)) st)"

definition snapshot_observation :: "nat \<Rightarrow> 'a observe_state \<Rightarrow> sniff_observation \<times> 'a observe_state" where
  "snapshot_observation now st =
     (let st = (if os_observation st = None then finish (terminal (expired_outcome now st)) st else st)
      in (the (os_observation st), st))"

definition choose_parser :: "'a parsers \<Rightarrow> bytes \<Rightarrow> 'a observe_parser option" where
  "choose_parser P captured =
     (case captured of
        [] \<Rightarrow> Some Undecided
      | b # _ \<Rightarrow>
          if b = 0x16 then Some (ParseTls (tls_new P))
          else if could_be_http captured then Some (ParseHttp 0)
          else None)"

definition run_parser :: "'a parsers \<Rightarrow> bytes \<Rightarrow> 'a observe_state \<Rightarrow> sniff_observation option \<times> 'a observe_state" where
  "run_parser P captured st =
     (case os_parser st of
        ParseTls acceptor \<Rightarrow>
          (case observe_tls_incremental P acceptor captured of (ob, acceptor) \<Rightarrow> (ob, st\<lparr>os_parser := ParseTls acceptor\<rparr>))
      | ParseHttp scan_from \<Rightarrow>
          (case observe_http_incremental P (os_prefix st) scan_from captured of
             (ob, pre, scan_from) \<Rightarrow> (ob, st\<lparr>os_prefix := pre, os_parser := ParseHttp scan_from\<rparr>))
      | _ \<Rightarrow> (None, st))"

definition observe :: "'a parsers \<Rightarrow> nat \<Rightarrow> bytes \<Rightarrow> 'a observe_state \<Rightarrow> 'a observe_state" where
  "observe P now bs st =
     (if os_observation st \<noteq> None then st
      else if os_timeout st \<le> now - os_started st then finish_timeout st
      else
        let remaining = os_max_bytes st - os_observed_bytes st;
            taken = min (length bs) remaining;
            captured = take taken bs;
            st = st\<lparr>os_observed_bytes := os_observed_bytes st + taken\<rparr>
        in case (if os_parser st = Undecided then choose_parser P captured else Some (os_parser st)) of
             None \<Rightarrow> finish (terminal OutUnsupported) st
           | Some parser \<Rightarrow>
               (case run_parser P captured (st\<lparr>os_parser := parser\<rparr>) of
                  (Some ob, st) \<Rightarrow> finish ob st
                | (None, st) \<Rightarrow>
                    if taken < length bs \<or> os_max_bytes st \<le> os_observed_bytes st
                    then finish (terminal OutLimitExceeded) st else st))"

section \<open>Only normalised names are reported\<close>

lemma unique_http_host_sound:
  "unique_http_host host hs = Inr (Some h) \<Longrightarrow> (\<forall>g. host = Some g \<longrightarrow> dns_name g) \<Longrightarrow> dns_name h"
  by (induction host hs rule: unique_http_host.induct)
    (auto split: if_splits option.splits intro: normalize_http_authority_sound)

lemma http_request_host_sound:
  assumes "http_request_host P request = Inr (Some h)"
  shows "dns_name h"
proof -
  have absolute: "dns_name h" if "normalize_absolute_http_target P t = Some h" for t
    using that by (auto simp: normalize_absolute_http_target_def split: option.splits if_splits url_host.splits
        intro: normalize_dns_name_sound)
  have authority: "dns_name h" if "normalize_connect_authority t = Some h" for t
    using that by (auto simp: normalize_connect_authority_def split: if_splits intro: normalize_http_authority_sound)
  show ?thesis
    using assms absolute authority unique_http_host_sound [of None _ h]
    by (auto simp: http_request_host_def ok_or_Inr split: if_splits)
qed

lemma classify_http_sound: "classify_http P bs = Matched v \<Longrightarrow> dns_name (sh_host v)"
  by (auto simp: classify_http_def matched_def split: http_parse.splits sum.splits option.splits
      intro: http_request_host_sound)

lemma tls_loop_sound: "tls_loop P acceptor bs = (Matched v, acceptor') \<Longrightarrow> dns_name (sh_host v)"
proof (induction P acceptor bs arbitrary: acceptor' rule: tls_loop.induct)
  case (1 P acceptor bs)
  have host: "dns_name (sh_host v)" if "tls_host name = Matched v" for name
    using that by (auto simp: tls_host_def matched_def split: option.splits intro: normalize_dns_name_sound)
  show ?case
  proof (cases "read_tls P acceptor bs")
    case None
    then show ?thesis using "1.prems" by (simp add: tls_loop.simps)
  next
    case (Some r)
    obtain n acc where r: "r = (n, acc)" by force
    obtain status acc' where st: "tls_accept P acc = (status, acc')" by force
    show ?thesis
    proof (cases "status = Some None \<and> min n (length bs) \<noteq> 0")
      case True
      then have "tls_loop P acc' (drop n bs) = (Matched v, acceptor')"
        using "1.prems" by (subst (asm) tls_loop.simps) (auto simp: Some r st min_def split: if_splits)
      then show ?thesis using "1.IH" [OF Some r [symmetric] st [symmetric]] True by simp
    next
      case False
      then show ?thesis
        using "1.prems" host by (subst (asm) tls_loop.simps) (auto simp: Some r st split: option.splits if_splits)
    qed
  qed
qed

definition observation_ok :: "sniff_observation \<Rightarrow> bool" where
  "observation_ok ob \<longleftrightarrow> (\<forall>h. so_host ob = Some h \<longrightarrow> so_outcome ob = OutMatched \<and> dns_name h)"

lemma terminal_ok [simp]: "observation_ok (terminal out)"
  by (simp add: observation_ok_def terminal_def)

lemma http_observation_ok: "(\<And>v. r = Matched v \<Longrightarrow> dns_name (sh_host v)) \<Longrightarrow> observation_ok (http_observation r)"
  by (auto simp: http_observation_def observation_ok_def observation_matched_def terminal_def split: sniff_result.splits)

definition state_ok :: "'a observe_state \<Rightarrow> bool" where
  "state_ok st \<longleftrightarrow> (\<forall>ob. os_observation st = Some ob \<longrightarrow> observation_ok ob)"

lemma finish_ok [simp]: "observation_ok ob \<Longrightarrow> state_ok (finish ob st)"
  by (simp add: state_ok_def finish_def)

lemma run_parser_ok:
  assumes "run_parser P captured st = (ob, st')" and "state_ok st"
  shows "state_ok st' \<and> (\<forall>o'. ob = Some o' \<longrightarrow> observation_ok o')"
proof (cases "os_parser st")
  case (ParseTls acceptor)
  obtain r acc where tls: "tls_loop P acceptor captured = (r, acc)" by force
  show ?thesis
    using assms tls http_observation_ok [of r] tls_loop_sound [of P acceptor captured]
    by (cases r) (auto simp: run_parser_def ParseTls observe_tls_incremental_def state_ok_def)
next
  case (ParseHttp n)
  have "observation_ok (http_observation (classify_http P bs))" for bs
    by (rule http_observation_ok, rule classify_http_sound)
  then show ?thesis
    using assms ParseHttp
    by (auto simp: run_parser_def observe_http_incremental_def Let_def state_ok_def split: option.splits)
qed (use assms in \<open>auto simp: run_parser_def\<close>)

lemma observe_ok: "state_ok st \<Longrightarrow> state_ok (observe P now bs st)"
proof -
  assume ok: "state_ok st"
  define taken where "taken = min (length bs) (os_max_bytes st - os_observed_bytes st)"
  define st1 where "st1 = st\<lparr>os_observed_bytes := os_observed_bytes st + taken\<rparr>"
  have ok1: "state_ok (st1\<lparr>os_parser := p\<rparr>)" for p using ok by (simp add: st1_def state_ok_def)
  have parsed: "state_ok (case run_parser P (take taken bs) (st1\<lparr>os_parser := p\<rparr>) of
      (Some ob, st) \<Rightarrow> finish ob st
    | (None, st) \<Rightarrow> if taken < length bs \<or> os_max_bytes st \<le> os_observed_bytes st then finish (terminal OutLimitExceeded) st else st)" for p
    using run_parser_ok [OF _ ok1] by (auto split: prod.split option.split)
  show ?thesis
  proof (cases "os_observation st \<noteq> None \<or> os_timeout st \<le> now - os_started st")
    case True
    then show ?thesis using ok by (auto simp: observe_def finish_timeout_def)
  next
    case False
    then show ?thesis
      using parsed parsed [of "os_parser st1"] unfolding observe_def Let_def taken_def [symmetric] st1_def [symmetric]
      by (auto split: option.split)
  qed
qed

text \<open>What can happen to an observer: bytes are read, the stream ends or fails, the timer fires.\<close>

datatype observer_event = BytesRead nat bytes | StreamEnded nat | TimerFired

definition observer_step :: "'a parsers \<Rightarrow> observer_event \<Rightarrow> 'a observe_state \<Rightarrow> 'a observe_state" where
  "observer_step P ev st =
     (case ev of BytesRead now bs \<Rightarrow> observe P now bs st | StreamEnded now \<Rightarrow> finish_stream now st | TimerFired \<Rightarrow> finish_timeout st)"

lemma observer_step_ok: "state_ok st \<Longrightarrow> state_ok (observer_step P ev st)"
  by (auto simp: observer_step_def observe_ok finish_stream_def finish_timeout_def split: observer_event.split)

lemma observer_run_ok: "state_ok st \<Longrightarrow> state_ok (fold (observer_step P) evs st)"
  by (induction evs arbitrary: st) (auto intro: observer_step_ok)

lemma snapshot_ok: "state_ok st \<Longrightarrow> observation_ok (fst (snapshot_observation now st))"
  by (auto simp: snapshot_observation_def Let_def state_ok_def finish_def split: if_splits)

text \<open>
  Only clean names are sniffed. Whatever the client sends, in whatever pieces, and whatever the
  TLS, HTTP and URL parsers make of it, a name the observer reports comes with the outcome matched,
  is a lower-case DNS name of at most 253 bytes with well-formed labels, and is no IP address in
  any notation, so normalising it again gives the same name.
\<close>

lemma sniffed_names_normal:
  assumes "fst (snapshot_observation now (fold (observer_step P) evs (observe_new max_bytes timeout start))) = ob"
    and "so_host ob = Some h"
  shows "so_outcome ob = OutMatched \<and> dns_name h \<and> normalize_dns_name h = Some h"
proof -
  let ?st = "fold (observer_step P) evs (observe_new max_bytes timeout start)"
  have "state_ok ?st" by (rule observer_run_ok) (simp add: observe_new_def state_ok_def)
  then have "observation_ok ob"
    using assms(1) snapshot_ok by blast
  then show ?thesis using assms(2) normalize_dns_name_fixed by (simp add: observation_ok_def)
qed

section \<open>The pieces of a request do not matter\<close>

text \<open>Looking again at the last three bytes is enough to find a marker that crosses two reads.\<close>

lemma take_drop_split: "take (length n) (drop k xs) = n \<Longrightarrow> xs = take k xs @ n @ drop (k + length n) xs"
  by (metis append_take_drop_id drop_drop add.commute)

lemma find_sub_resume:
  assumes "find_sub a n = None" and "n \<noteq> []"
  shows "find_sub (a @ b) n = map_option (\<lambda>i. length a - (length n - 1) + i) (find_sub (drop (length a - (length n - 1)) (a @ b)) n)"
proof -
  let ?s = "length a - (length n - 1)"
  have early: "take (length n) (drop k (a @ b)) \<noteq> n" if "k < ?s" for k
  proof
    assume hit: "take (length n) (drop k (a @ b)) = n"
    have "k + length n \<le> length a" using that assms(2) by (cases n) auto
    then have "take (length n) (drop k a) = n" using hit by simp
    then have "a = take k a @ n @ drop (k + length n) a" by (rule take_drop_split)
    then show False using assms find_sub_exists by metis
  qed
  show ?thesis
  proof (cases "find_sub (drop ?s (a @ b)) n")
    case None
    have "find_sub (a @ b) n \<noteq> Some j" for j
    proof
      assume j: "find_sub (a @ b) n = Some j"
      then have "?s \<le> j" using early by (meson find_sub_Some not_le)
      then have "drop (j - ?s) (drop ?s (a @ b)) = drop j (a @ b)" by (simp only: drop_drop) simp
      moreover have "take (length n) (drop j (a @ b)) = n" using j by (simp only: find_sub_Some)
      ultimately have "take (length n) (drop (j - ?s) (drop ?s (a @ b))) = n" by (simp only:)
      note take_drop_split [OF this]
      then show False using None find_sub_exists [OF assms(2)] by metis
    qed
    then show ?thesis using None by (cases "find_sub (a @ b) n") auto
  next
    case (Some i)
    have "find_sub (a @ b) n = Some (?s + i)"
      unfolding find_sub_Some
    proof (intro conjI allI impI)
      fix k
      assume k: "k < ?s + i"
      show "take (length n) (drop k (a @ b)) \<noteq> n"
      proof (cases "k < ?s")
        case False
        then have "drop k (a @ b) = drop (k - ?s) (drop ?s (a @ b))" by (simp only: drop_drop) simp
        moreover have "k - ?s < i" using k False by simp
        ultimately show ?thesis using Some unfolding find_sub_Some by metis
      qed (rule early)
    qed (use Some in \<open>auto simp: find_sub_Some add.commute\<close>)
    then show ?thesis using Some by simp
  qed
qed

text \<open>The state of an observer that took \<open>seen\<close> for the start of a request and has not decided.\<close>

definition http_waiting :: "nat \<Rightarrow> nat \<Rightarrow> bytes \<Rightarrow> 'a observe_state \<Rightarrow> bool" where
  "http_waiting max_bytes timeout seen st \<longleftrightarrow>
     st = \<lparr>os_parser = (if seen = [] then Undecided else ParseHttp (length seen)), os_prefix = seen,
        os_observed_bytes = length seen, os_max_bytes = min max_bytes HARD_MAX_SNIFF_BYTES, os_started = 0,
        os_timeout = timeout, os_observation = None\<rparr> \<and> find_sub seen CRLF2 = None"

definition http_verdict :: "'a parsers \<Rightarrow> bytes \<Rightarrow> sniff_observation option" where
  "http_verdict P seen = map_option (\<lambda>i. http_observation (classify_http P (take (i + 4) seen))) (find_sub seen CRLF2)"

lemma token_byte_http:
  assumes "is_http_token_byte b"
  shows "choose_parser P (b # bs) = Some (ParseHttp 0)"
proof -
  have "\<not> is_http_token_byte 0x16" "\<not> is_http_token_byte 13"
    by (simp_all add: is_http_token_byte_def is_ascii_alphanumeric_def is_ascii_digit_def is_ascii_lowercase_def char_in_def char_of_def)
  then have "b \<noteq> 0x16" "b \<noteq> 13" using assms by metis+
  then have "skip_newlines (b # bs) = b # bs" by (cases bs) simp_all
  then show ?thesis using assms \<open>b \<noteq> 0x16\<close> by (simp add: choose_parser_def could_be_http_def)
qed

lemma http_verdict_append: "http_verdict P seen = Some ob \<Longrightarrow> http_verdict P (seen @ ys) = Some ob"
proof -
  assume "http_verdict P seen = Some ob"
  then obtain i where i: "find_sub seen CRLF2 = Some i" and ob: "ob = http_observation (classify_http P (take (i + 4) seen))"
    by (auto simp: http_verdict_def)
  have "i + 4 \<le> length seen" using i by (simp add: find_sub_Some CRLF2_def)
  then show ?thesis using find_sub_append [OF i, of ys] by (simp add: http_verdict_def ob)
qed

lemma observe_http_step:
  fixes P :: "'a parsers" and st :: "'a observe_state"
  assumes "http_waiting max_bytes timeout seen st" and "now < timeout" and "chunk \<noteq> []"
    and "length (seen @ chunk) < min max_bytes HARD_MAX_SNIFF_BYTES" and "is_http_token_byte (hd (seen @ chunk))"
  shows "case http_verdict P (seen @ chunk) of
     Some ob \<Rightarrow> os_observation (observe P now chunk st) = Some ob
   | None \<Rightarrow> http_waiting max_bytes timeout (seen @ chunk) (observe P now chunk st)"
proof -
  define st1 :: "'a observe_state" where "st1 = \<lparr>os_parser = ParseHttp (length seen), os_prefix = seen,
    os_observed_bytes = length (seen @ chunk), os_max_bytes = min max_bytes HARD_MAX_SNIFF_BYTES, os_started = 0,
    os_timeout = timeout, os_observation = None :: sniff_observation option\<rparr>"
  have first: "choose_parser P chunk = Some (ParseHttp 0)" if "seen = []"
    using that assms(3,5) token_byte_http by (cases chunk) auto
  have step: "observe P now chunk st =
      (case run_parser P chunk st1 of
         (Some ob, st) \<Rightarrow> finish ob st
       | (None, st) \<Rightarrow> if os_max_bytes st \<le> os_observed_bytes st then finish (terminal OutLimitExceeded) st else st)"
  proof -
    define M where "M = min max_bytes HARD_MAX_SNIFF_BYTES"
    have "length seen + length chunk < M" using assms(4) by (simp add: M_def)
    then have fits: "length chunk \<le> M - length seen" by linarith
    show ?thesis
    proof (cases "seen = []")
      case True
      then show ?thesis
        using assms(1,2) first fits unfolding http_waiting_def st1_def M_def [symmetric]
        by (simp add: observe_def Let_def min_absorb1 split: prod.split option.split)
    next
      case False
      then show ?thesis
        using assms(1,2) fits unfolding http_waiting_def st1_def M_def [symmetric]
        by (simp add: observe_def Let_def min_absorb1 split: prod.split option.split)
    qed
  qed
  have resume: "find_sub (seen @ chunk) CRLF2 =
      map_option (\<lambda>i. length seen - 3 + i) (find_sub (drop (length seen - 3) (seen @ chunk)) CRLF2)"
    using find_sub_resume [of seen CRLF2 chunk] assms(1) by (simp add: http_waiting_def CRLF2_def numeral_3_eq_3)
  show ?thesis
  proof (cases "find_sub (drop (length seen - 3) (seen @ chunk)) CRLF2")
    case None
    then have "find_sub (seen @ chunk) CRLF2 = None" using resume by simp
    moreover have "\<not> min max_bytes HARD_MAX_SNIFF_BYTES \<le> length seen + length chunk" using assms(4) by (simp add: not_le)
    ultimately show ?thesis
      using assms(3) None unfolding step
      by (simp add: run_parser_def st1_def observe_http_incremental_def Let_def http_verdict_def http_waiting_def)
  next
    case (Some i)
    then have "find_sub (seen @ chunk) CRLF2 = Some (length seen - 3 + i)" using resume by simp
    with Some show ?thesis
      unfolding step
      by (simp add: run_parser_def st1_def observe_http_incremental_def Let_def http_verdict_def finish_def del: take_append)
  qed
qed

lemma observe_decided: "os_observation st = Some ob \<Longrightarrow> observe P now chunk st = st"
  by (simp add: observe_def)

lemma fold_decided: "os_observation st = Some ob \<Longrightarrow> fold (\<lambda>(now, chunk). observe P now chunk) chunks st = st"
  by (induction chunks) (auto simp: observe_decided)

lemma observe_http_run:
  assumes "http_waiting max_bytes timeout seen st" and "list_all (\<lambda>(now, chunk). now < timeout \<and> chunk \<noteq> []) chunks"
    and "length (seen @ concat (map snd chunks)) < min max_bytes HARD_MAX_SNIFF_BYTES"
    and "is_http_token_byte (hd (seen @ concat (map snd chunks)))"
  shows "os_observation (fold (\<lambda>(now, chunk). observe P now chunk) chunks st) = http_verdict P (seen @ concat (map snd chunks))"
  using assms
proof (induction chunks arbitrary: seen st)
  case Nil
  then show ?case by (simp add: http_waiting_def http_verdict_def)
next
  case (Cons c chunks)
  obtain now chunk where c: "c = (now, chunk)" by force
  have chunk: "now < timeout" "chunk \<noteq> []" "length (seen @ chunk) < min max_bytes HARD_MAX_SNIFF_BYTES"
    "is_http_token_byte (hd (seen @ chunk))" using Cons.prems(2-4) by (auto simp: c hd_append split: if_splits)
  note step = observe_http_step [OF Cons.prems(1) chunk, of P]
  show ?case
  proof (cases "http_verdict P (seen @ chunk)")
    case None
    with step have "http_waiting max_bytes timeout (seen @ chunk) (observe P now chunk st)" by simp
    from Cons.IH [OF this] Cons.prems(2-4) show ?thesis by (simp add: c)
  next
    case (Some ob)
    with step show ?thesis using http_verdict_append [OF Some] by (simp add: c fold_decided)
  qed
qed

text \<open>
  C39: the observer finds a request's name however the request arrives. For a request that begins
  with a token byte, below the size limit and in time, the observer that reads the bytes in
  pieces, keeping a scan position, decides exactly what classifying the bytes up to the first empty
  line gives, and decides nothing while there is no empty line: the cut into pieces does not
  matter.
\<close>

theorem http_sniff_chunking:
  assumes "list_all (\<lambda>(now, chunk). now < timeout \<and> chunk \<noteq> []) chunks" and "request = concat (map snd chunks)"
    and "length request < min max_bytes HARD_MAX_SNIFF_BYTES" and "request \<noteq> []" and "is_http_token_byte (hd request)"
  shows "os_observation (fold (\<lambda>(now, chunk). observe P now chunk) chunks (observe_new max_bytes timeout 0)) =
     (case find_sub request CRLF2 of
        None \<Rightarrow> None
      | Some i \<Rightarrow> Some (http_observation (classify_http P (take (i + 4) request))))"
proof -
  have "http_waiting max_bytes timeout [] (observe_new max_bytes timeout 0)"
    by (simp add: http_waiting_def observe_new_def find_sub_def CRLF2_def)
  from observe_http_run [OF this assms(1), of P] assms(2-5) show ?thesis
    by (simp add: http_verdict_def option.map_comp split: option.split)
qed

text \<open>A parser for one request, and a request for it that is cut inside the empty line.\<close>

definition demo_parsers :: "unit parsers" where
  "demo_parsers = \<lparr>tls_new = (), read_tls = \<lambda>_ _. None, tls_accept = \<lambda>_. (None, ()),
     parse_request = \<lambda>_. HttpComplete \<lparr>rq_method = Some ''GET'', rq_path = Some ''/'', rq_headers = [(''Host'', as_bytes ''A.b:80'')]\<rparr>,
     parse_url = \<lambda>_. None\<rparr>"

definition demo_pieces :: "(nat \<times> bytes) list" where
  "demo_pieces = [(1, as_bytes ''GET / HTTP/1.1'' @ [13, 10] @ as_bytes ''Host: A.b:80'' @ [13, 10, 13]), (2, [10, 7])]"

lemma demo_pieces_observed:
  "so_host (fst (snapshot_observation 9 (fold (observer_step demo_parsers) (map (\<lambda>(t, b). BytesRead t b) demo_pieces) (observe_new 100 5 0)))) =
     Some ''a.b''"
  by code_simp

lemma sniffed_names_normal_witness: "dns_name ''a.b'' \<and> normalize_dns_name ''a.b'' = Some ''a.b''"
  using sniffed_names_normal [OF refl demo_pieces_observed] by simp

theorem http_sniff_chunking_witness:
  "os_observation (fold (\<lambda>(now, chunk). observe demo_parsers now chunk) demo_pieces (observe_new 100 5 0)) =
     Some \<lparr>so_outcome = OutMatched, so_protocol = Some SniffHttp, so_host = Some ''a.b''\<rparr>"
proof -
  let ?request = "concat (map snd demo_pieces)"
  have "list_all (\<lambda>(now, chunk). now < 5 \<and> chunk \<noteq> []) demo_pieces"
    "length ?request < min 100 HARD_MAX_SNIFF_BYTES" "?request \<noteq> []" "is_http_token_byte (hd ?request)" by code_simp+
  from http_sniff_chunking [OF this(1) refl this(2-4), of demo_parsers]
  show ?thesis by (elim trans) code_simp
qed

end
