(* ===== verification/Sniff_Capture.thy ===== *)
theory Sniff_Capture
  imports Proxy_Sniff
begin

text \<open>
  Classifying a connection before it is routed (\<open>src/sniff.rs\<close>, \<open>capture_prefix\<close>): bytes are read and
  kept until the observer decides, the limit is reached, the stream ends or the time is over, and
  are replayed later by \<open>PrefixedIo\<close> (\<open>src/io.rs\<close>). The passive reader \<open>SniffingIo\<close> is here as well.
\<close>

section \<open>A stream with times\<close>






section \<open>Capturing\<close>





section \<open>Observing in passing\<close>

record 'a sniffing_io =
  sn_inner :: conn
  sn_state :: "'a observe_state"

definition sniffing_new :: "conn \<Rightarrow> nat \<Rightarrow> nat \<Rightarrow> nat \<Rightarrow> 'a sniffing_io" where
  "sniffing_new inner max_bytes timeout now = \<lparr>sn_inner = inner, sn_state = observe_new max_bytes timeout now\<rparr>"

text \<open>A read into a buffer with room for \<open>room\<close> bytes that returns at the time \<open>now\<close>.\<close>

definition sniffing_read :: "'a parsers \<Rightarrow> nat \<Rightarrow> nat \<Rightarrow> 'a sniffing_io \<Rightarrow> (io_error + bytes) \<times> 'a sniffing_io" where
  "sniffing_read P now room s =
     (if room = 0 then (Inr [], s)
      else case read_some room (sn_inner s) of
        (Inr bs, c) \<Rightarrow>
          (Inr bs, \<lparr>sn_inner = c, sn_state = (if bs = [] then finish_stream now (sn_state s) else observe P now bs (sn_state s))\<rparr>)
      | (Inl e, c) \<Rightarrow> (Inl e, \<lparr>sn_inner = c, sn_state = finish_stream now (sn_state s)\<rparr>))"

section \<open>Nothing is lost\<close>






lemma sniffing_read_transparent:
  "fst (sniffing_read P now room s) = (if room = 0 then Inr [] else fst (read_some room (sn_inner s)))"
  "sn_inner (snd (sniffing_read P now room s)) = (if room = 0 then sn_inner s else snd (read_some room (sn_inner s)))"
  by (auto simp: sniffing_read_def split: prod.split sum.split)



end
