(* ===== verification/Spec2Isabelle.thy ===== *)
theory Spec2Isabelle
  imports Subnetra_Reactor Proxy_Engine Reverse_Frame Ingress_Relay Ingress_Flows Addrbook_Rules Proxy_Outbound
    Sniff_Capture
begin

text \<open>
  Verification of Rove, a policy-routing proxy node written in Rust. Paths below are relative to
  \<open>src/src\<close>.

  \<^bold>\<open>The program.\<close> A node receives a snapshot from its control plane: users, policies, egresses. A
  client connects, is authenticated by the engine, and asks for a host; the node may also look at
  the first bytes of the connection for the name the client really wants. The snapshot decides
  whether the connection is blocked, leaves directly, by an upstream or by a chain of upstreams
  tried in order; the outbound layer makes the connection and the bytes are pumped both ways. Rules
  may refer to an address book, a binary data set of networks and names in categories. Upstreams
  may be hops behind a NAT, which dial in and speak the reverse protocol, or nodes of a layer-3
  mesh (Subnetra). Separately, a public relay leases ports to nodes that dial in (ingress).

  \<^bold>\<open>Foundations.\<close>
  \<^item> \<open>Rove_Prelude\<close>: words and bytes, little- and big-endian codecs, results as sums (\<open>and_then\<close>, \<open>ensure\<close>,
    \<open>ok_or\<close>), and the locale \<open>codec\<close> of encoders with a decoder that returns the rest of its input.
  \<^item> \<open>Rust_Str\<close>, \<open>Rust_Slice\<close>, \<open>Rust_BTree\<close>, \<open>Rust_Net\<close>, \<open>Rust_Net_Text\<close>, \<open>Rust_Cursor\<close>, \<open>Rust_Io\<close>: what the
    sources use of the standard library. A \<open>str\<close> is its UTF-8 bytes; binary search, ordered maps and
    the address parser and printer follow the library's algorithms; a stream is the list of the
    chunks its reads return, together with what was written to it.

  \<^bold>\<open>Mesh\<close> (\<open>subnetra/\<close>).
  \<^item> \<open>Subnetra_Replay\<close> (\<open>replay.rs\<close>): the 64-bit sliding window refines a set of accepted numbers, through
    the locale \<open>replay_filter\<close>.
  \<^item> \<open>Subnetra_Wire\<close> (\<open>crypto.rs\<close>, \<open>wire.rs\<close>): keys, header, sealing, header masking. The keyed hash and the
    AEAD are the parameter \<open>crypto\<close>; \<open>crypto_ok\<close> states the lengths of their results and that opening
    undoes sealing.
  \<^item> \<open>Subnetra_Session\<close> (\<open>session.rs\<close>): sessions accept each datagram once, only after authentication, and
    every fresh one under loss, duplication and reordering.
  \<^item> \<open>Subnetra_Config\<close> (\<open>config.rs\<close>, bounds of \<open>mod.rs\<close>): what validation guarantees.
  \<^item> \<open>Subnetra_Peer\<close> (\<open>peer.rs\<close>): peer selection, endpoint learning, longest-prefix routing, delivery from
    one node to another. Two keys that unmask one datagram to plausible headers are not excluded:
    the delivery theorem names that case.
  \<^item> \<open>Subnetra_Reactor\<close> (\<open>reactor.rs\<close>): the handlers of the event loop, forwarding, keepalives. Events are
    inputs, packets sent and delivered are outputs.

  \<^bold>\<open>Policy\<close> (\<open>addrbook/\<close>, \<open>policy/\<close>, \<open>model.rs\<close>, \<open>engine.rs\<close>).
  \<^item> \<open>Addrbook_Format\<close>, \<open>Addrbook_Codec\<close> (\<open>format.rs\<close>): structural validation, the encoder, the strict decoder
    with its memory budget; round trip, and decoding that fails closed.
  \<^item> \<open>Addrbook_Book\<close> (\<open>book.rs\<close>): queries by binary search agree with a linear scan; category resolution
    with its cache, over every history of resolutions, dropped selectors and pruning (\<open>book_run\<close>).
  \<^item> \<open>Addrbook_Sweep\<close>, \<open>Addrbook_Builder\<close>, \<open>Addrbook_Rules\<close> (\<open>builder.rs\<close>): the boundary sweep, the builder, and
    that a built book says about every host exactly what the rules say.
  \<^item> \<open>Policy_Domain\<close>, \<open>Policy_Ip\<close>, \<open>Policy_Index\<close> (\<open>domain.rs\<close>, \<open>ip.rs\<close>, \<open>policy/mod.rs\<close>): rule sets and the
    first-match index; the locale \<open>selector_store\<close> is the contract of its three kinds of tables, and
    the index agrees with trying the rule sets one after the other. Networks are those of the ipnet
    package: a parameter that parses a network and tests membership.
  \<^item> \<open>Snapshot_Compile\<close>, \<open>Snapshot_Decide\<close> (\<open>model.rs\<close>): the document, its compilation, decisions with and
    without a sniffed host, operator views. Decisions of a compiled snapshot are those of the document.
  \<^item> \<open>Proxy_Engine\<close> (\<open>engine.rs\<close>): snapshot replacement, authentication, connection permits, over every run
    of logins, acquisitions and releases (\<open>engine_run\<close>). The clock and the TLS exporter are parameters.

  \<^bold>\<open>Connections\<close> (\<open>util.rs\<close>, \<open>error.rs\<close>, \<open>io.rs\<close>, \<open>sniff.rs\<close>, \<open>outbound/mod.rs\<close>, \<open>resolver.rs\<close>).
  \<^item> \<open>Proxy_Util\<close>: the HTTP head reader, host and port splitting, constant-time comparison, errors.
  \<^item> \<open>Proxy_Outbound\<close>: direct connections, HTTP and SOCKS5 upstreams, reverse hops, the overlay, failover
    chains for TCP and UDP. The network, TLS, base64 and the reverse manager are parameters
    (\<open>world\<close>, \<open>reverse_manager\<close>); an attempt takes a time or never ends, and the failover loop is shown to
    end within its budget.
  \<^item> \<open>Proxy_Io\<close>: the copy loops and the stream that replays a prefix.
  \<^item> \<open>Sniff_Names\<close>, \<open>Proxy_Sniff\<close>, \<open>Sniff_Capture\<close>: normalisation of names, classification of the first bytes,
    incrementally and as a whole, capture for replay. The TLS, HTTP and URL parsers are parameters
    (\<open>parsers\<close>) about which nothing is assumed.

  \<^bold>\<open>Tunnels\<close> (\<open>reverse/frame.rs\<close>, \<open>ingress/frame.rs\<close>, \<open>ingress/relay.rs\<close>, \<open>ingress/metadata.rs\<close>).
  \<^item> \<open>Frame_Text\<close>, \<open>Reverse_Frame\<close>, \<open>Ingress_Frame\<close>: line-oriented frames and datagrams of both protocols; what
    is encoded is what the peer reads, and the bytes behind a frame are kept. For the reverse
    protocol this is the locale \<open>codec\<close>, interpreted for each frame.
  \<^item> \<open>Ingress_Relay\<close>: compilation of the relay's configuration, registration, port leases with
    reservations: a leased port belongs to one node and listener.
  \<^item> \<open>Ingress_Flows\<close>: the UDP flows of a session, as a step relation: an answer goes to the client whose
    packet opened the flow. The bounded tables of trusted connections are here as well.

  \<^bold>\<open>Time, bounds and recursion.\<close> Times are natural numbers given to the operations. Every function is
  total; loops that are not structural (the copy loops, the capture loop, the TLS reader, binary
  search) have a termination proof by the bytes or the range still to go, so there is no fuel.
  Locks are taken for the whole of an operation, and where an operation releases its lock in
  between (category resolution) the model takes the effect of other threads as an argument.

  \<^bold>\<open>Not modelled.\<close> The front ends (\<open>inbound/\<close>), the standalone hop (\<open>proxy/\<close>, \<open>bin/rove-hop.rs\<close>), the
  connector and edge tasks of both tunnels (\<open>ingress/connector.rs\<close>, \<open>reverse/edge.rs\<close>, \<open>hop.rs\<close>, \<open>udp.rs\<close>),
  devices and the user-space network stack of the mesh: loops over sockets and QUIC connections
  around the operations above. Configuration files, control channels (\<open>sync/\<close>, \<open>mqtt.rs\<close>, \<open>hop_mqtt.rs\<close>),
  logs, statistics, health, tracing and diagnostics: input and output. The token bucket of \<open>io.rs\<close>
  computes with floating-point numbers. Collectors and exporters of address books. JSON and
  TOML decoding belongs to packages.
\<close>

end
